(* ===== verification/Prelude.thy ===== *)
theory Prelude
  imports Main "HOL-Library.Word"
begin

text \<open>
  What every component of the development shares: C's unsigned integer types, the outcome
  of a kernel operation (it returns, panics, gives up the CPU in \<open>sched\<close>, or spins for
  ever) with the state monad and the total-correctness predicate over it, the loop
  combinators the source's \<open>for\<close> loops become, little-endian loads and stores on byte
  memories and on disk blocks, and the generic lemmas the component proofs use.
\<close>

unbundle bit_operations_syntax

named_theorems kops \<open>definitions of the monadic operations\<close>
named_theorems kframe \<open>which fields an operation leaves alone\<close>

section \<open>Integer types\<close>

type_synonym uchar = "8 word"
type_synonym ushort = "16 word"
type_synonym uint = "32 word"

abbreviation sless :: "uint \<Rightarrow> uint \<Rightarrow> bool" where
  "sless a b \<equiv> sint a < sint b"

text \<open>The 32-bit pattern of \<open>-1\<close>, which failing system calls return in \<open>%eax\<close>.\<close>

abbreviation m1 :: uint where
  "m1 \<equiv> -1"

lemma unat_m1 [simp]: "unat (- 1 :: uint) = 4294967295"
  by (simp add: unsigned_minus_1_eq_mask mask_eq_exp_minus_1)

lemma unat_uint_bound [simp]: "unat (x :: uint) < 4294967296"
  using unsigned_less [of x] by simp

lemma of_nat_unat_uint: "of_nat (unat (x :: uint)) = x"
  by simp

lemma unat_of_nat_uint: "i < 4294967296 \<Longrightarrow> unat (of_nat i :: uint) = i"
  by (simp add: unsigned_of_nat take_bit_nat_eq_self)

lemma of_nat_uint_eq_iff:
  "i < 4294967296 \<Longrightarrow> j < 4294967296 \<Longrightarrow> of_nat i = (of_nat j :: uint) \<longleftrightarrow> i = j"
  by (metis unat_of_nat_uint)

lemma unat_add_of_nat:
  "unat (a :: uint) + i < 4294967296 \<Longrightarrow> unat (a + of_nat i) = unat a + i"
  by (simp add: unat_word_ariths unat_of_nat_uint)

section \<open>Outcomes and the kernel monad\<close>

text \<open>
  \<open>Block s\<close>: the operation has called \<open>sched\<close> and the CPU has left this process in
  state \<open>s\<close>. \<open>Hang\<close>: a loop that the source does not bound never reaches its exit.
\<close>

datatype ('a, 's) kres = Ok 'a 's | Panic string | Block 's | Hang

type_synonym ('s, 'a) kop = "'s \<Rightarrow> ('a, 's) kres"

definition kret :: "'a \<Rightarrow> ('s, 'a) kop" where
  "kret a s = Ok a s"

definition kbind :: "('s, 'a) kop \<Rightarrow> ('a \<Rightarrow> ('s, 'b) kop) \<Rightarrow> ('s, 'b) kop" where
  "kbind m f s = (case m s of
      Ok a s' \<Rightarrow> f a s' | Panic e \<Rightarrow> Panic e | Block s' \<Rightarrow> Block s' | Hang \<Rightarrow> Hang)"

definition kthen :: "('s, 'a) kop \<Rightarrow> ('s, 'b) kop \<Rightarrow> ('s, 'b) kop" where
  "kthen m n = kbind m (\<lambda>_. n)"

definition panic :: "string \<Rightarrow> ('s, 'a) kop" where
  "panic e s = Panic e"

definition kget :: "('s \<Rightarrow> 'a) \<Rightarrow> ('s, 'a) kop" where
  "kget f s = Ok (f s) s"

definition kmod :: "('s \<Rightarrow> 's) \<Rightarrow> ('s, unit) kop" where
  "kmod f s = Ok () (f s)"

definition kguard :: "bool \<Rightarrow> string \<Rightarrow> ('s, unit) kop" where
  "kguard bad e = (if bad then panic e else kret ())"

definition kwhen :: "bool \<Rightarrow> ('s, unit) kop \<Rightarrow> ('s, unit) kop" where
  "kwhen b m = (if b then m else kret ())"

primrec kfor :: "'i list \<Rightarrow> ('i \<Rightarrow> ('s, unit) kop) \<Rightarrow> ('s, unit) kop" where
  "kfor [] f = kret ()"
| "kfor (i # is) f = kthen (f i) (kfor is f)"

primrec ktimes :: "nat \<Rightarrow> ('s, 'a) kop \<Rightarrow> ('s, 'a list) kop" where
  "ktimes 0 m = kret []"
| "ktimes (Suc n) m = kbind m (\<lambda>x. kbind (ktimes n m) (\<lambda>xs. kret (x # xs)))"

lemma kret_apply [simp]: "kret a s = Ok a s"
  by (simp add: kret_def)

lemma panic_apply [simp]: "panic e s = Panic e"
  by (simp add: panic_def)

lemma kget_apply [simp]: "kget f s = Ok (f s) s"
  by (simp add: kget_def)

lemma kmod_apply [simp]: "kmod f s = Ok () (f s)"
  by (simp add: kmod_def)

lemma kbind_simps [simp]:
  "m s = Ok a s' \<Longrightarrow> kbind m f s = f a s'"
  "m s = Panic e \<Longrightarrow> kbind m f s = Panic e"
  "m s = Block s' \<Longrightarrow> kbind m f s = Block s'"
  "m s = Hang \<Longrightarrow> kbind m f s = Hang"
  by (simp_all add: kbind_def)

lemma kthen_simps [simp]:
  "m s = Ok a s' \<Longrightarrow> kthen m n s = n s'"
  "m s = Panic e \<Longrightarrow> kthen m n s = Panic e"
  "m s = Block s' \<Longrightarrow> kthen m n s = Block s'"
  "m s = Hang \<Longrightarrow> kthen m n s = Hang"
  by (simp_all add: kthen_def)

lemma kguard_apply [simp]: "kguard bad e s = (if bad then Panic e else Ok () s)"
  by (simp add: kguard_def)

lemma kwhen_apply [simp]: "kwhen b m s = (if b then m s else Ok () s)"
  by (simp add: kwhen_def)

text \<open>
  Where C gives the program no meaning (an index outside an array). A theorem that an
  operation returns shows that this is not reached.
\<close>

definition ub :: "('s, 'a) kop" where
  "ub s = Panic ''undefined behaviour''"

lemma ub_apply [simp]: "ub s = Panic ''undefined behaviour''"
  by (simp add: ub_def)

text \<open>Programs are normalised to right-nested sequences and run from the left.\<close>

lemma kbind_kret [simp]: "kbind (kret a) f s = f a s"
  and kbind_kget [simp]: "kbind (kget g) f s = f (g s) s"
  and kbind_panic [simp]: "kbind (panic e) f s = Panic e"
  by (simp_all add: kbind_def)

lemma kbind_kmod [simp]: "kbind (kmod h) f s = f () (h s)"
  by (simp add: kbind_def)

lemma kbind_if [simp]: "kbind (if b then m else m') f s = (if b then kbind m f s else kbind m' f s)"
  by simp

lemma kbind_kbind [simp]: "kbind (kbind m g) f s = kbind m (\<lambda>x. kbind (g x) f) s"
  by (simp add: kbind_def split: kres.split)

lemma kbind_kthen [simp]: "kbind (kthen m n) f s = kthen m (kbind n f) s"
  by (simp add: kthen_def)

lemma kthen_kret [simp]: "kthen (kret a) n s = n s"
  and kthen_kget [simp]: "kthen (kget g) n s = n s"
  and kthen_panic [simp]: "kthen (panic e) n s = Panic e"
  by (simp_all add: kthen_def)

lemma kthen_kmod [simp]: "kthen (kmod h) n s = n (h s)"
  by (simp add: kthen_def)

lemma kthen_if [simp]: "kthen (if b then m else m') n s = (if b then kthen m n s else kthen m' n s)"
  by simp

lemma kthen_kbind [simp]: "kthen (kbind m g) n s = kbind m (\<lambda>x. kthen (g x) n) s"
  by (simp add: kthen_def)

lemma kthen_kthen [simp]: "kthen (kthen m k) n s = kthen m (kthen k n) s"
  by (simp add: kthen_def)

lemma kthen_kguard [simp]: "kthen (kguard b e) n s = (if b then Panic e else n s)"
  by (simp add: kthen_def kbind_def)

lemma kthen_kwhen [simp]: "kthen (kwhen b m) n s = (if b then kthen m n s else n s)"
  by (simp add: kthen_def kbind_def)

lemma kbind_Ok_iff:
  "kbind m f s = Ok b t \<longleftrightarrow> (\<exists>a u. m s = Ok a u \<and> f a u = Ok b t)"
  by (cases "m s") auto

lemma kthen_Ok_iff:
  "kthen m n s = Ok b t \<longleftrightarrow> (\<exists>a u. m s = Ok a u \<and> n u = Ok b t)"
  by (simp add: kthen_def kbind_Ok_iff)

lemma kfor_append: "kfor (xs @ ys) f = kthen (kfor xs f) (kfor ys f)"
  by (induction xs) (auto intro!: ext)

section \<open>Total correctness\<close>

text \<open>
  \<open>runs m s Q\<close>: started in \<open>s\<close>, the operation returns, and its value and final state
  satisfy \<open>Q\<close>. The equations below compute it along the program text.
\<close>

definition runs :: "('s, 'a) kop \<Rightarrow> 's \<Rightarrow> ('a \<Rightarrow> 's \<Rightarrow> bool) \<Rightarrow> bool" where
  "runs m s Q \<longleftrightarrow> (case m s of Ok a t \<Rightarrow> Q a t | _ \<Rightarrow> False)"

lemma runs_iff: "runs m s Q \<longleftrightarrow> (\<exists>a t. m s = Ok a t \<and> Q a t)"
  by (cases "m s") (auto simp: runs_def)

lemma runs_kret [simp]: "runs (kret a) s Q \<longleftrightarrow> Q a s"
  by (simp add: runs_def)

lemma runs_Ok_op [simp]: "runs (Ok a) s Q \<longleftrightarrow> Q a s"
  by (simp add: runs_def)

lemma runs_panic [simp]: "\<not> runs (panic e) s Q"
  by (simp add: runs_def)

lemma runs_kget [simp]: "runs (kget f) s Q \<longleftrightarrow> Q (f s) s"
  by (simp add: runs_def)

lemma runs_kmod [simp]: "runs (kmod f) s Q \<longleftrightarrow> Q () (f s)"
  by (simp add: runs_def)

lemma runs_kguard [simp]: "runs (kguard bad e) s Q \<longleftrightarrow> \<not> bad \<and> Q () s"
  by (simp add: runs_def)

lemma runs_kwhen [simp]:
  "runs (kwhen b m) s Q \<longleftrightarrow> (if b then runs m s Q else Q () s)"
  by (simp add: runs_def)

lemma runs_kbind [simp]: "runs (kbind m f) s Q \<longleftrightarrow> runs m s (\<lambda>a t. runs (f a) t Q)"
  by (cases "m s") (auto simp: runs_def)

lemma runs_kthen [simp]: "runs (kthen m n) s Q \<longleftrightarrow> runs m s (\<lambda>_ t. runs n t Q)"
  by (simp add: kthen_def)

lemma runs_mono:
  assumes "runs m s Q" and "\<And>a t. m s = Ok a t \<Longrightarrow> Q a t \<Longrightarrow> R a t"
  shows "runs m s R"
  using assms by (auto simp: runs_iff)

lemma runs_Ok: "m s = Ok a t \<Longrightarrow> runs m s Q \<longleftrightarrow> Q a t"
  by (simp add: runs_def)

lemma runs_kfor:
  assumes "I is s"
    and "\<And>i is s. I (i # is) s \<Longrightarrow> runs (f i) s (\<lambda>_ t. I is t)"
  shows "runs (kfor is f) s (\<lambda>_ t. I [] t)"
  using assms(1)
proof (induction "is" arbitrary: s)
  case Nil
  then show ?case by simp
next
  case (Cons i "is")
  from assms(2) [OF Cons.prems] show ?case
    by (simp, elim runs_mono) (auto intro: Cons.IH)
qed

section \<open>What an operation leaves alone\<close>

text \<open>
  \<open>frames R m\<close>: whenever \<open>m\<close> returns or gives up the CPU, the states before and after are
  related by \<open>R\<close>. For a reflexive and transitive \<open>R\<close> the rules follow the program text.
\<close>

definition frames :: "('s \<Rightarrow> 's \<Rightarrow> bool) \<Rightarrow> ('s, 'a) kop \<Rightarrow> bool" where
  "frames R m \<longleftrightarrow> (\<forall>s t. (\<forall>a. m s = Ok a t \<longrightarrow> R s t) \<and> (m s = Block t \<longrightarrow> R s t))"

lemma framesI:
  "(\<And>s a t. m s = Ok a t \<Longrightarrow> R s t) \<Longrightarrow> (\<And>s t. m s = Block t \<Longrightarrow> R s t) \<Longrightarrow> frames R m"
  by (simp add: frames_def)

lemma framesD: "frames R m \<Longrightarrow> m s = Ok a t \<Longrightarrow> R s t"
  and framesD_Block: "frames R m \<Longrightarrow> m s = Block t \<Longrightarrow> R s t"
  by (auto simp: frames_def)

lemma frames_kbind:
  assumes "transp R" "frames R m" "\<And>a. frames R (f a)"
  shows "frames R (kbind m f)"
proof (rule framesI)
  fix s b t assume "kbind m f s = Ok b t"
  then obtain a u where "m s = Ok a u" "f a u = Ok b t" by (auto simp: kbind_Ok_iff)
  with assms show "R s t" by (meson framesD transpD)
next
  fix s t assume "kbind m f s = Block t"
  then consider "m s = Block t" | a u where "m s = Ok a u" "f a u = Block t"
    by (cases "m s") auto
  then show "R s t" using assms by cases (meson framesD framesD_Block transpD)+
qed

lemma frames_kthen: "transp R \<Longrightarrow> frames R m \<Longrightarrow> frames R n \<Longrightarrow> frames R (kthen m n)"
  unfolding kthen_def by (rule frames_kbind)

lemma frames_kret: "reflp R \<Longrightarrow> frames R (kret a)"
  and frames_Ok: "reflp R \<Longrightarrow> frames R (Ok a)"
  and frames_kget: "reflp R \<Longrightarrow> frames R (kget g)"
  by (auto simp: frames_def reflp_def)

lemma frames_panic: "frames R (panic e)" and frames_Panic: "frames R (\<lambda>_. Panic e)"
  and frames_Hang: "frames R (\<lambda>_. Hang)"
  by (auto simp: frames_def)

lemma frames_kguard: "reflp R \<Longrightarrow> frames R (kguard b e)"
  by (auto simp: frames_def reflp_def split: if_splits)

lemma frames_kwhen: "reflp R \<Longrightarrow> frames R m \<Longrightarrow> frames R (kwhen b m)"
  by (auto simp: frames_def reflp_def split: if_splits)

lemma frames_kmod: "(\<And>s. R s (h s)) \<Longrightarrow> frames R (kmod h)"
  by (auto simp: frames_def)

lemma frames_if: "frames R m \<Longrightarrow> frames R n \<Longrightarrow> frames R (if b then m else n)"
  by simp

lemma frames_option:
  "frames R m \<Longrightarrow> (\<And>x. frames R (n x)) \<Longrightarrow> frames R (case y of None \<Rightarrow> m | Some x \<Rightarrow> n x)"
  by (cases y) auto

lemma frames_prod: "(\<And>a b. frames R (f a b)) \<Longrightarrow> frames R (case p of (a, b) \<Rightarrow> f a b)"
  by (cases p) auto

lemma frames_Let: "(\<And>x. frames R (f x)) \<Longrightarrow> frames R (Let a f)"
  by (simp add: Let_def)

lemma frames_kfor:
  assumes "reflp R" "transp R" "\<And>i. frames R (f i)"
  shows "frames R (kfor is f)"
  by (induction "is") (simp_all add: assms frames_Ok frames_kthen)

lemmas frames_intros = frames_kbind frames_kthen frames_kret frames_Ok frames_kget frames_panic frames_Panic
  frames_Hang frames_kguard frames_kwhen frames_if frames_option frames_prod frames_Let frames_kfor

text \<open>Operations that never give up the CPU.\<close>

definition noblock :: "('s, 'a) kop \<Rightarrow> bool" where
  "noblock m \<longleftrightarrow> (\<forall>s t. m s \<noteq> Block t)"

lemma noblockD: "noblock m \<Longrightarrow> m s = Block t \<Longrightarrow> P"
  by (simp add: noblock_def)

lemma noblock_kbind: "noblock m \<Longrightarrow> (\<And>a. noblock (f a)) \<Longrightarrow> noblock (kbind m f)"
  by (auto simp: noblock_def kbind_def split: kres.split)

lemma noblock_kthen: "noblock m \<Longrightarrow> noblock n \<Longrightarrow> noblock (kthen m n)"
  unfolding kthen_def by (rule noblock_kbind)

lemma noblock_basic: "noblock (kret a)" "noblock (Ok a)" "noblock (kget g)" "noblock (kmod h)"
  "noblock (panic e)" "noblock (kguard b e)" "noblock (\<lambda>_. Panic e)" "noblock (\<lambda>_. Hang)"
  by (auto simp: noblock_def split: if_splits)

lemma noblock_kwhen: "noblock m \<Longrightarrow> noblock (kwhen b m)"
  by (simp add: noblock_def)

lemma noblock_if: "noblock m \<Longrightarrow> noblock n \<Longrightarrow> noblock (if b then m else n)"
  by simp

lemma noblock_option:
  "noblock m \<Longrightarrow> (\<And>x. noblock (n x)) \<Longrightarrow> noblock (case y of None \<Rightarrow> m | Some x \<Rightarrow> n x)"
  by (cases y) auto

lemma noblock_prod: "(\<And>a b. noblock (f a b)) \<Longrightarrow> noblock (case p of (a, b) \<Rightarrow> f a b)"
  by (cases p) auto

lemma noblock_Let: "(\<And>x. noblock (f x)) \<Longrightarrow> noblock (Let a f)"
  by (simp add: Let_def)

lemma noblock_kfor: "(\<And>i. noblock (f i)) \<Longrightarrow> noblock (kfor is f)"
  by (induction "is") (simp_all add: noblock_basic noblock_kthen)

lemmas noblock_intros = noblock_kbind noblock_kthen noblock_basic noblock_kwhen noblock_if
  noblock_option noblock_prod noblock_Let noblock_kfor

section \<open>Partial correctness with switches\<close>

text \<open>
  \<open>ends m s Q B\<close>: if the operation returns then \<open>Q\<close> holds of its value and state, and if it
  gives up the CPU then \<open>B\<close> holds of the state at that point.
\<close>

definition ends :: "('s, 'a) kop \<Rightarrow> 's \<Rightarrow> ('a \<Rightarrow> 's \<Rightarrow> bool) \<Rightarrow> ('s \<Rightarrow> bool) \<Rightarrow> bool" where
  "ends m s Q B \<longleftrightarrow> (case m s of Ok a t \<Rightarrow> Q a t | Block t \<Rightarrow> B t | _ \<Rightarrow> True)"

lemma endsI:
  "(\<And>a t. m s = Ok a t \<Longrightarrow> Q a t) \<Longrightarrow> (\<And>t. m s = Block t \<Longrightarrow> B t) \<Longrightarrow> ends m s Q B"
  by (simp add: ends_def split: kres.split)

lemma endsD: "ends m s Q B \<Longrightarrow> m s = Ok a t \<Longrightarrow> Q a t"
  and endsD_Block: "ends m s Q B \<Longrightarrow> m s = Block t \<Longrightarrow> B t"
  by (simp_all add: ends_def)

lemma ends_kret [simp]: "ends (kret a) s Q B \<longleftrightarrow> Q a s"
  by (simp add: ends_def)

lemma ends_Ok_op [simp]: "ends (Ok a) s Q B \<longleftrightarrow> Q a s"
  by (simp add: ends_def)

lemma ends_panic [simp]: "ends (panic e) s Q B" and ends_ub [simp]: "ends ub s Q B"
  and ends_Hang [simp]: "ends (\<lambda>_. Hang) s Q B"
  by (simp_all add: ends_def)

lemma ends_kget [simp]: "ends (kget f) s Q B \<longleftrightarrow> Q (f s) s"
  by (simp add: ends_def)

lemma ends_kmod [simp]: "ends (kmod g) s Q B \<longleftrightarrow> Q () (g s)"
  and ends_kguard [simp]: "ends (kguard bad e) s Q B \<longleftrightarrow> (\<not> bad \<longrightarrow> Q () s)"
  and ends_kwhen [simp]: "ends (kwhen b m) s Q B \<longleftrightarrow> (if b then ends m s Q B else Q () s)"
  by (simp_all add: ends_def)

lemma ends_kbind [simp]: "ends (kbind m f) s Q B \<longleftrightarrow> ends m s (\<lambda>a t. ends (f a) t Q B) B"
  by (simp add: ends_def kbind_def split: kres.split)

lemma ends_kthen [simp]: "ends (kthen m n) s Q B \<longleftrightarrow> ends m s (\<lambda>_ t. ends n t Q B) B"
  by (simp add: kthen_def)

lemma ends_if [simp]: "ends (if b then m else n) s Q B \<longleftrightarrow> (if b then ends m s Q B else ends n s Q B)"
  by simp

lemma ends_mono:
  assumes "ends m s Q B" "\<And>a t. m s = Ok a t \<Longrightarrow> Q a t \<Longrightarrow> Q' a t" "\<And>t. m s = Block t \<Longrightarrow> B t \<Longrightarrow> B' t"
  shows "ends m s Q' B'"
  using assms by (auto simp: ends_def split: kres.splits)

lemma ends_framesI: "(\<And>s. ends m s (\<lambda>_ t. R s t) (R s)) \<Longrightarrow> frames R m"
  by (rule framesI) (auto dest: endsD endsD_Block)

lemma ends_frames: "frames R m \<Longrightarrow> ends m s (\<lambda>_ t. R s t) (R s)"
  by (auto intro: endsI dest: framesD framesD_Block)

section \<open>Machines and their invariants\<close>

inductive reachable :: "('s \<Rightarrow> bool) \<Rightarrow> ('s \<Rightarrow> 's \<Rightarrow> bool) \<Rightarrow> 's \<Rightarrow> bool"
  for init and step where
  reach_init: "init s \<Longrightarrow> reachable init step s"
| reach_step: "reachable init step s \<Longrightarrow> step s t \<Longrightarrow> reachable init step t"

text \<open>
  What a component promises when it calls a predicate its invariant, and what its clients
  get: the predicate holds in every reachable state, along every run.
\<close>

locale machine_invariant =
  fixes init :: "'s \<Rightarrow> bool" and step :: "'s \<Rightarrow> 's \<Rightarrow> bool" and inv :: "'s \<Rightarrow> bool"
  assumes inv_init: "init s \<Longrightarrow> inv s"
    and inv_step: "inv s \<Longrightarrow> step s t \<Longrightarrow> inv t"
begin

lemma reachable_inv: "reachable init step s \<Longrightarrow> inv s"
  by (induction rule: reachable.induct) (auto intro: inv_init inv_step)

lemma rtranclp_inv: "step\<^sup>*\<^sup>* s t \<Longrightarrow> inv s \<Longrightarrow> inv t"
  by (induction rule: rtranclp_induct) (auto intro: inv_step)

end

section \<open>Table scans\<close>

text \<open>
  The source's \<open>for(p = table; p < &table[N]; p++) if(P(p)) ...\<close>: the index of the
  first entry that satisfies \<open>P\<close>.
\<close>

primrec find_idx :: "('a \<Rightarrow> bool) \<Rightarrow> 'a list \<Rightarrow> nat option" where
  "find_idx P [] = None"
| "find_idx P (x # xs) = (if P x then Some 0 else map_option Suc (find_idx P xs))"

lemma find_idx_Some:
  "find_idx P xs = Some i \<Longrightarrow> i < length xs \<and> P (xs ! i) \<and> (\<forall>j<i. \<not> P (xs ! j))"
proof (induction xs arbitrary: i)
  case Nil
  then show ?case by simp
next
  case (Cons x xs)
  show ?case
  proof (cases "P x")
    case True
    with Cons.prems show ?thesis by simp
  next
    case False
    with Cons.prems obtain k where k: "find_idx P xs = Some k" "i = Suc k"
      by auto
    from Cons.IH [OF k(1)] k(2) False show ?thesis
      by (auto simp: less_Suc_eq_0_disj)
  qed
qed

lemma find_idx_nth: "distinct xs \<Longrightarrow> k < length xs \<Longrightarrow> find_idx (\<lambda>e. e = xs ! k) xs = Some k"
proof (induction xs arbitrary: k)
  case Nil
  then show ?case by simp
next
  case (Cons x xs)
  then show ?case by (cases k) auto
qed

lemma find_idx_None: "find_idx P xs = None \<longleftrightarrow> (\<forall>x\<in>set xs. \<not> P x)"
  by (induction xs) auto

lemma find_idx_exists:
  "i < length xs \<Longrightarrow> P (xs ! i) \<Longrightarrow> \<exists>j\<le>i. find_idx P xs = Some j"
proof (induction xs arbitrary: i)
  case Nil
  then show ?case by simp
next
  case (Cons x xs)
  then show ?case
  proof (cases "P x")
    case False
    with Cons.prems obtain k where "i = Suc k" "k < length xs" "P (xs ! k)"
      by (cases i) auto
    with Cons.IH [of k] False show ?thesis by auto
  qed auto
qed

section \<open>Little-endian words\<close>

definition byte_of :: "nat \<Rightarrow> uint \<Rightarrow> uchar" where
  "byte_of i v = ucast (drop_bit (8 * i) v)"

definition le32 :: "uchar \<Rightarrow> uchar \<Rightarrow> uchar \<Rightarrow> uchar \<Rightarrow> uint" where
  "le32 b0 b1 b2 b3 =
     ucast b0 OR push_bit 8 (ucast b1) OR push_bit 16 (ucast b2) OR push_bit 24 (ucast b3)"

definition le16 :: "uchar \<Rightarrow> uchar \<Rightarrow> ushort" where
  "le16 b0 b1 = ucast b0 OR push_bit 8 (ucast b1)"

definition byte_of16 :: "nat \<Rightarrow> ushort \<Rightarrow> uchar" where
  "byte_of16 i v = ucast (drop_bit (8 * i) v)"

lemma le32_bytes [simp]:
  "le32 (byte_of 0 v) (byte_of (Suc 0) v) (byte_of 2 v) (byte_of 3 v) = v"
proof (rule bit_word_eqI)
  fix n
  assume "n < LENGTH(32)"
  then have "n < 8 \<or> 8 \<le> n \<and> n < 16 \<or> 16 \<le> n \<and> n < 24 \<or> 24 \<le> n \<and> n < 32"
    by auto
  then show "bit (le32 (byte_of 0 v) (byte_of (Suc 0) v) (byte_of 2 v) (byte_of 3 v)) n = bit v n"
    by (elim disjE) (auto simp: le32_def byte_of_def bit_simps)
qed

lemma le16_bytes [simp]: "le16 (byte_of16 0 v) (byte_of16 (Suc 0) v) = v"
  by (rule bit_word_eqI) (auto simp: le16_def byte_of16_def bit_simps)

lemma byte_of_le32 [simp]:
  "byte_of 0 (le32 b0 b1 b2 b3) = b0"
  "byte_of (Suc 0) (le32 b0 b1 b2 b3) = b1"
  "byte_of 2 (le32 b0 b1 b2 b3) = b2"
  "byte_of 3 (le32 b0 b1 b2 b3) = b3"
  by (rule bit_word_eqI; auto simp: le32_def byte_of_def bit_simps dest: bit_imp_le_length)+

subsection \<open>Byte lists (disk blocks, structures in buffers)\<close>

definition rd32 :: "uchar list \<Rightarrow> nat \<Rightarrow> uint" where
  "rd32 bs i = le32 (bs ! i) (bs ! (i + 1)) (bs ! (i + 2)) (bs ! (i + 3))"

definition wr32 :: "uchar list \<Rightarrow> nat \<Rightarrow> uint \<Rightarrow> uchar list" where
  "wr32 bs i v =
     bs[i := byte_of 0 v, i + 1 := byte_of 1 v, i + 2 := byte_of 2 v, i + 3 := byte_of 3 v]"

definition rd16 :: "uchar list \<Rightarrow> nat \<Rightarrow> ushort" where
  "rd16 bs i = le16 (bs ! i) (bs ! (i + 1))"

definition wr16 :: "uchar list \<Rightarrow> nat \<Rightarrow> ushort \<Rightarrow> uchar list" where
  "wr16 bs i v = bs[i := byte_of16 0 v, i + 1 := byte_of16 1 v]"

lemma length_wr32 [simp]: "length (wr32 bs i v) = length bs"
  by (simp add: wr32_def)

lemma length_wr16 [simp]: "length (wr16 bs i v) = length bs"
  by (simp add: wr16_def)

lemma rd32_wr32_same [simp]: "i + 3 < length bs \<Longrightarrow> rd32 (wr32 bs i v) i = v"
  by (simp add: rd32_def wr32_def)

lemma rd16_wr16_same [simp]: "i + 1 < length bs \<Longrightarrow> rd16 (wr16 bs i v) i = v"
  by (simp add: rd16_def wr16_def)

lemma nth_wr32_out: "j < i \<or> i + 4 \<le> j \<Longrightarrow> wr32 bs i v ! j = bs ! j"
  by (auto simp: wr32_def)

lemma nth_wr16_out: "j < i \<or> i + 2 \<le> j \<Longrightarrow> wr16 bs i v ! j = bs ! j"
  by (auto simp: wr16_def)

lemma rd32_cong:
  assumes "\<And>k. k < 4 \<Longrightarrow> bs ! (i + k) = cs ! (i + k)"
  shows "rd32 bs i = rd32 cs i"
  using assms [of 0] assms [of 1] assms [of 2] assms [of 3] by (simp add: rd32_def)

lemma rd16_cong:
  assumes "\<And>k. k < 2 \<Longrightarrow> bs ! (i + k) = cs ! (i + k)"
  shows "rd16 bs i = rd16 cs i"
  using assms [of 0] assms [of 1] by (simp add: rd16_def)

lemma rd32_wr32_other: "j + 4 \<le> i \<or> i + 4 \<le> j \<Longrightarrow> rd32 (wr32 bs i v) j = rd32 bs j"
  by (rule rd32_cong) (auto simp: nth_wr32_out)

lemma rd32_wr16_other: "j + 4 \<le> i \<or> i + 2 \<le> j \<Longrightarrow> rd32 (wr16 bs i v) j = rd32 bs j"
  by (rule rd32_cong) (auto simp: nth_wr16_out)

lemma rd16_wr32_other: "j + 2 \<le> i \<or> i + 4 \<le> j \<Longrightarrow> rd16 (wr32 bs i v) j = rd16 bs j"
  by (rule rd16_cong) (auto simp: nth_wr32_out)

lemma rd16_wr16_other: "j + 2 \<le> i \<or> i + 2 \<le> j \<Longrightarrow> rd16 (wr16 bs i v) j = rd16 bs j"
  by (rule rd16_cong) (auto simp: nth_wr16_out)

lemmas rdwr_simps = rd32_wr32_other rd32_wr16_other rd16_wr32_other rd16_wr16_other

subsection \<open>Byte memories\<close>

type_synonym memory = "uint \<Rightarrow> uchar"

definition ld32 :: "memory \<Rightarrow> uint \<Rightarrow> uint" where
  "ld32 m a = le32 (m a) (m (a + 1)) (m (a + 2)) (m (a + 3))"

definition st32 :: "memory \<Rightarrow> uint \<Rightarrow> uint \<Rightarrow> memory" where
  "st32 m a v = m(a := byte_of 0 v, a + 1 := byte_of 1 v, a + 2 := byte_of 2 v,
                  a + 3 := byte_of 3 v)"

lemma ld32_st32_same [simp]: "ld32 (st32 m a v) a = v"
  by (simp add: ld32_def st32_def)

lemma st32_out: "x - a \<ge> 4 \<Longrightarrow> st32 m a v x = m x"
  by (auto simp: st32_def word_le_nat_alt)

end
