(* ===== verification/CString.thy ===== *)
theory CString
  imports Prelude
begin

text \<open>
  \<open>string.c\<close> on byte memories: pointers are 32-bit addresses, \<open>stosb\<close> and \<open>stosl\<close> are
  the string instructions of \<open>x86.h\<close>. The lemmas give each routine's effect on every
  address, overlap and address wrap-around included, and relate the string comparison
  and copy to the byte-list versions the file system theories use.
\<close>

section \<open>Definitions\<close>

primrec stosb :: "memory \<Rightarrow> uint \<Rightarrow> uchar \<Rightarrow> nat \<Rightarrow> memory" where
  "stosb m a d 0 = m"
| "stosb m a d (Suc cnt) = stosb (m(a := d)) (a + 1) d cnt"

primrec stosl :: "memory \<Rightarrow> uint \<Rightarrow> uint \<Rightarrow> nat \<Rightarrow> memory" where
  "stosl m a d 0 = m"
| "stosl m a d (Suc cnt) = stosl (st32 m a d) (a + 4) d cnt"

definition memset :: "memory \<Rightarrow> uint \<Rightarrow> uint \<Rightarrow> uint \<Rightarrow> memory" where
  "memset m dst c n =
     (if dst mod 4 = 0 \<and> n mod 4 = 0
      then (let c = c AND 0xFF
            in stosl m dst (push_bit 24 c OR push_bit 16 c OR push_bit 8 c OR c) (unat (n div 4)))
      else stosb m dst (ucast c) (unat n))"

primrec memcmp :: "memory \<Rightarrow> uint \<Rightarrow> uint \<Rightarrow> nat \<Rightarrow> int" where
  "memcmp m s1 s2 0 = 0"
| "memcmp m s1 s2 (Suc n) =
     (if m s1 \<noteq> m s2 then uint (m s1) - uint (m s2)
      else memcmp m (s1 + 1) (s2 + 1) n)"

primrec copy_up :: "memory \<Rightarrow> uint \<Rightarrow> uint \<Rightarrow> nat \<Rightarrow> memory" where
  "copy_up m d s 0 = m"
| "copy_up m d s (Suc n) = copy_up (m(d := m s)) (d + 1) (s + 1) n"

primrec copy_down :: "memory \<Rightarrow> uint \<Rightarrow> uint \<Rightarrow> nat \<Rightarrow> memory" where
  "copy_down m d s 0 = m"
| "copy_down m d s (Suc n) = copy_down (m(d - 1 := m (s - 1))) (d - 1) (s - 1) n"

definition memmove :: "memory \<Rightarrow> uint \<Rightarrow> uint \<Rightarrow> uint \<Rightarrow> memory" where
  "memmove m dst src n =
     (if src < dst \<and> src + n > dst then copy_down m (dst + n) (src + n) (unat n)
      else copy_up m dst src (unat n))"

primrec strncmp :: "memory \<Rightarrow> uint \<Rightarrow> uint \<Rightarrow> nat \<Rightarrow> int" where
  "strncmp m p q 0 = 0"
| "strncmp m p q (Suc n) =
     (if m p \<noteq> 0 \<and> m p = m q then strncmp m (p + 1) (q + 1) n
      else uint (m p) - uint (m q))"

primrec strncpy_pad :: "memory \<Rightarrow> uint \<Rightarrow> nat \<Rightarrow> memory" where
  "strncpy_pad m s 0 = m"
| "strncpy_pad m s (Suc n) = strncpy_pad (m(s := 0)) (s + 1) n"

primrec strncpy :: "memory \<Rightarrow> uint \<Rightarrow> uint \<Rightarrow> nat \<Rightarrow> memory" where
  "strncpy m s t 0 = m"
| "strncpy m s t (Suc n) =
     (if m t \<noteq> 0 then strncpy (m(s := m t)) (s + 1) (t + 1) n
      else strncpy_pad (m(s := m t)) (s + 1) n)"

primrec safestrcpy_loop :: "memory \<Rightarrow> uint \<Rightarrow> uint \<Rightarrow> nat \<Rightarrow> memory" where
  "safestrcpy_loop m s t 0 = m(s := 0)"
| "safestrcpy_loop m s t (Suc n) =
     (if m t \<noteq> 0 then safestrcpy_loop (m(s := m t)) (s + 1) (t + 1) n
      else (m(s := m t))(s + 1 := 0))"

definition safestrcpy :: "memory \<Rightarrow> uint \<Rightarrow> uint \<Rightarrow> int \<Rightarrow> memory" where
  "safestrcpy m s t n = (if n \<le> 0 then m else safestrcpy_loop m s t (nat (n - 1)))"

partial_function (option) strlen_from :: "memory \<Rightarrow> uint \<Rightarrow> nat \<Rightarrow> nat option" where
  "strlen_from m s n = (if m (s + of_nat n) = 0 then Some n else strlen_from m s (Suc n))"

definition strlen :: "memory \<Rightarrow> uint \<Rightarrow> nat option" where
  "strlen m s = strlen_from m s 0"

text \<open>Byte lists: \<open>bytes_at m a n\<close> is the array \<open>a[0..n)\<close>; the end of a list reads as NUL.\<close>

definition bytes_at :: "memory \<Rightarrow> uint \<Rightarrow> nat \<Rightarrow> uchar list" where
  "bytes_at m a n = map (\<lambda>i. m (a + of_nat i)) [0..<n]"

definition cstr :: "uchar list \<Rightarrow> uchar list" where
  "cstr xs = takeWhile (\<lambda>c. c \<noteq> 0) xs"

fun strncmp_l :: "uchar list \<Rightarrow> uchar list \<Rightarrow> nat \<Rightarrow> int" where
  "strncmp_l xs ys 0 = 0"
| "strncmp_l xs ys (Suc n) =
     (let p = (case xs of [] \<Rightarrow> 0 | x # _ \<Rightarrow> x); q = (case ys of [] \<Rightarrow> 0 | y # _ \<Rightarrow> y)
      in if p \<noteq> 0 \<and> p = q then strncmp_l (tl xs) (tl ys) n
         else uint p - uint q)"

definition strncpy_l :: "uchar list \<Rightarrow> nat \<Rightarrow> uchar list" where
  "strncpy_l t n = (let c = take n (cstr t) in c @ replicate (n - length c) 0)"

section \<open>Fills\<close>

lemma stosb_off:
  "k \<le> 2 ^ 32 \<Longrightarrow> stosb m a d k (a + y) = (if unat y < k then d else m (a + y))"
proof (induction k arbitrary: m a y)
  case 0
  then show ?case by simp
next
  case (Suc k)
  have y: "a + y = (a + 1) + (y - 1)" by simp
  show ?case
  proof (cases "y = 0")
    case True
    have "stosb (m(a := d)) (a + 1) d k (a + 1 + - 1) = d"
      using Suc.prems by (subst Suc.IH) simp_all
    with True show ?thesis by simp
  next
    case False
    then have "unat (y - 1) = unat y - 1" and "0 < unat y"
      by (simp_all add: unat_minus_one unat_gt_0)
    then have "stosb (m(a := d)) (a + 1) d k (a + 1 + (y - 1)) =
        (if unat y < Suc k then d else m (a + y))"
      using Suc.prems False by (subst Suc.IH) auto
    then show ?thesis by simp
  qed
qed

lemma unat_less_4_cases: "unat (y :: uint) < 4 \<Longrightarrow> y = 0 \<or> y = 1 \<or> y = 2 \<or> y = 3"
proof -
  assume "unat y < 4"
  then have "unat y = 0 \<or> unat y = 1 \<or> unat y = 2 \<or> unat y = 3" by auto
  then have "unat y = unat (0 :: uint) \<or> unat y = unat (1 :: uint) \<or>
      unat y = unat (2 :: uint) \<or> unat y = unat (3 :: uint)" by simp
  then show ?thesis by (simp only: word_unat_eq_iff [symmetric])
qed

lemma st32_off:
  "st32 m a v (a + y) = (if unat y < 4 then byte_of (unat y) v else m (a + y))"
proof (cases "unat y < 4")
  case True
  from unat_less_4_cases [OF True] show ?thesis by (auto simp: st32_def)
next
  case False
  then show ?thesis by (simp add: st32_out word_le_nat_alt)
qed

lemma stosl_off:
  "4 * k \<le> 2 ^ 32 \<Longrightarrow>
   stosl m a d k (a + y) = (if unat y < 4 * k then byte_of (unat y mod 4) d else m (a + y))"
proof (induction k arbitrary: m a y)
  case 0
  then show ?case by simp
next
  case (Suc k)
  have y: "a + y = (a + 4) + (y - 4)" by simp
  show ?case
  proof (cases "unat y < 4")
    case True
    then have "\<not> unat (y - 4) < 4 * k"
      using Suc.prems unat_less_4_cases [OF True] by auto
    with Suc.prems True Suc.IH [of "st32 m a d" "a + 4" "y - 4"] show ?thesis
      by (simp add: st32_off [of m a d y])
  next
    case False
    then have u: "unat (y - 4) = unat y - 4"
      using unat_sub [of 4 y] by (simp add: word_le_nat_alt)
    have "(unat y - 4) mod 4 = unat y mod 4"
      using False by (simp add: le_mod_geq)
    with u False Suc.prems Suc.IH [of "st32 m a d" "a + 4" "y - 4"] show ?thesis
      by (auto simp: st32_off [of m a d y])
  qed
qed

lemma byte_of_splat:
  assumes "i < 4"
  shows "byte_of i (push_bit 24 (c AND 0xFF) OR push_bit 16 (c AND 0xFF) OR
           push_bit 8 (c AND 0xFF) OR (c AND 0xFF)) = ucast c"
proof -
  have i: "i = 0 \<or> i = 1 \<or> i = 2 \<or> i = 3" using assms by auto
  have m: "0xFF = (mask 8 :: uint)" by (simp add: mask_eq_exp_minus_1)
  show ?thesis unfolding m using i
    by (elim disjE; simp only:; intro bit_word_eqI) (auto simp: byte_of_def bit_simps)
qed

lemma memset_off:
  "memset m dst c n (dst + y) = (if y < n then ucast c else m (dst + y))"
proof (cases "dst mod 4 = 0 \<and> n mod 4 = 0")
  case True
  then have "unat n mod 4 = unat (0 :: uint)"
    using unat_mod [of n 4] by simp
  then have eq: "4 * unat (n div 4) = unat n"
    by (simp add: unat_div) presburger
  have "4 * unat (n div 4) \<le> 2 ^ 32"
    unfolding eq using less_imp_le [OF unat_uint_bound [of n]] by simp
  then have "memset m dst c n (dst + y) = (if unat y < unat n
      then byte_of (unat y mod 4) (push_bit 24 (c AND 0xFF) OR push_bit 16 (c AND 0xFF) OR
             push_bit 8 (c AND 0xFF) OR (c AND 0xFF)) else m (dst + y))"
    unfolding memset_def Let_def if_P [OF True] by (subst stosl_off) (simp_all only: eq)
  then show ?thesis
    by (simp only: byte_of_splat [OF mod_less_divisor] word_less_nat_alt zero_less_numeral)
next
  case False
  show ?thesis
    unfolding memset_def if_not_P [OF False]
    using less_imp_le [OF unat_uint_bound [of n]] by (subst stosb_off) (simp_all add: word_less_nat_alt)
qed

section \<open>Copies\<close>

text \<open>
  A source range read upwards is not disturbed by the writes already made when the
  destination starts at or below it, or lies wholly above it.
\<close>

lemma copy_up_off:
  assumes "k \<le> 2 ^ 32" and "\<forall>i<k. \<forall>j<i. d + of_nat j \<noteq> s + of_nat i"
  shows "copy_up m d s k (d + y) = (if unat y < k then m (s + y) else m (d + y))"
  using assms
proof (induction k arbitrary: m d s y)
  case 0
  then show ?case by simp
next
  case (Suc k)
  let ?m = "m(d := m s)"
  have un: "?m (s + of_nat i) = m (s + of_nat i)" if "i < Suc k" for i
    using Suc.prems(2) that by (cases i) force+
  have "\<forall>i<k. \<forall>j<i. d + 1 + of_nat j \<noteq> s + 1 + of_nat i"
  proof (intro allI impI)
    fix i j
    assume "i < k" "j < i"
    then have "d + of_nat (Suc j) \<noteq> s + of_nat (Suc i)"
      using Suc.prems(2) by blast
    then show "d + 1 + of_nat j \<noteq> s + 1 + of_nat i" by (simp add: algebra_simps)
  qed
  then have IH: "copy_up ?m (d + 1) (s + 1) k (d + 1 + (y - 1)) =
      (if unat (y - 1) < k then ?m (s + 1 + (y - 1)) else ?m (d + 1 + (y - 1)))"
    using Suc.prems(1) by (subst Suc.IH) auto
  show ?case
  proof (cases "y = 0")
    case True
    with IH Suc.prems(1) show ?thesis by simp
  next
    case False
    then have u: "unat (y - 1) = unat y - 1" "0 < unat y"
      by (simp_all add: unat_minus_one unat_gt_0)
    have "?m (s + y) = m (s + y)" if "unat y < Suc k"
      using un [OF that] by simp
    with IH u False show ?thesis by auto
  qed
qed

lemma copy_down_off:
  assumes "k \<le> 2 ^ 32" and "\<forall>j<k. \<forall>i<j. d + of_nat j \<noteq> s + of_nat i"
  shows "copy_down m (d + of_nat k) (s + of_nat k) k (d + y) =
    (if unat y < k then m (s + y) else m (d + y))"
  using assms
proof (induction k arbitrary: m)
  case 0
  then show ?case by simp
next
  case (Suc k)
  let ?m = "m(d + of_nat k := m (s + of_nat k))"
  have "copy_down m (d + of_nat (Suc k)) (s + of_nat (Suc k)) (Suc k) (d + y) =
      copy_down ?m (d + of_nat k) (s + of_nat k) k (d + y)"
    by (simp add: algebra_simps)
  also have "\<dots> = (if unat y < k then ?m (s + y) else ?m (d + y))"
    using Suc.prems by (intro Suc.IH) auto
  also have "\<dots> = (if unat y < Suc k then m (s + y) else m (d + y))"
  proof (cases "unat y < k")
    case True
    then have "d + of_nat k \<noteq> s + of_nat (unat y)" using Suc.prems(2) by blast
    with True show ?thesis by (auto simp: of_nat_unat_uint)
  next
    case False
    have "of_nat k = y \<longleftrightarrow> k = unat y"
      using Suc.prems(1) by (auto simp: unat_of_nat_uint of_nat_unat_uint)
    with False show ?thesis by (auto simp: less_Suc_eq)
  qed
  finally show ?case .
qed

lemma memmove_off:
  assumes "unat src + unat n < 2 ^ 32" and "unat dst + unat n \<le> 2 ^ 32"
  shows "memmove m dst src n (dst + y) = (if y < n then m (src + y) else m (dst + y))"
proof -
  have us: "unat (src + of_nat i) = unat src + i" if "i \<le> unat n" for i
    using assms(1) that by (simp add: unat_add_of_nat)
  have ud: "unat (dst + of_nat i) = unat dst + i" if "i < unat n" for i
    using assms(2) that by (simp add: unat_add_of_nat)
  have usn: "unat (src + n) = unat src + unat n"
    using us [of "unat n"] by (simp add: of_nat_unat_uint)
  have k: "unat n \<le> 2 ^ 32" using less_imp_le [OF unat_uint_bound [of n]] by simp
  show ?thesis
  proof (cases "src < dst \<and> src + n > dst")
    case True
    have "\<forall>j<unat n. \<forall>i<j. dst + of_nat j \<noteq> src + of_nat i"
    proof (intro allI impI)
      fix j i
      assume "j < unat n" "i < j"
      then have "unat (src + of_nat i) = unat src + i" "unat (dst + of_nat j) = unat dst + j"
        using us ud by auto
      moreover have "unat src < unat dst" using True by (simp add: word_less_nat_alt)
      ultimately have "unat (src + of_nat i) \<noteq> unat (dst + of_nat j)"
        using \<open>i < j\<close> by linarith
      then show "dst + of_nat j \<noteq> src + of_nat i" by metis
    qed
    from copy_down_off [OF k this, of m y] True show ?thesis
      by (simp add: memmove_def word_less_nat_alt of_nat_unat_uint)
  next
    case False
    have le: "unat dst \<le> unat src \<or> unat src + unat n \<le> unat dst"
      using False usn by (auto simp: word_less_nat_alt)
    have "\<forall>i<unat n. \<forall>j<i. dst + of_nat j \<noteq> src + of_nat i"
    proof (intro allI impI)
      fix i j
      assume ij: "i < unat n" "j < i"
      then have "unat (src + of_nat i) = unat src + i" "unat (dst + of_nat j) = unat dst + j"
        using us ud by auto
      with le ij have "unat (src + of_nat i) \<noteq> unat (dst + of_nat j)" by linarith
      then show "dst + of_nat j \<noteq> src + of_nat i" by metis
    qed
    from copy_up_off [OF k this, of m y] False show ?thesis
      by (auto simp: memmove_def word_less_nat_alt)
  qed
qed

section \<open>Comparisons and strings\<close>

lemma length_bytes_at [simp]: "length (bytes_at m a n) = n"
  by (simp add: bytes_at_def)

lemma bytes_at_Suc: "bytes_at m a (Suc n) = m a # bytes_at m (a + 1) n"
  by (simp add: bytes_at_def upt_conv_Cons map_Suc_upt [symmetric] comp_def algebra_simps
      del: upt_Suc)

lemma memcmp_0_iff: "memcmp m p q n = 0 \<longleftrightarrow> bytes_at m p n = bytes_at m q n"
  by (induction n arbitrary: p q) (auto simp: bytes_at_Suc word_uint_eq_iff, simp add: bytes_at_def)

lemma strncmp_bytes:
  "strncmp m p q n = strncmp_l (bytes_at m p n) (bytes_at m q n) n"
  by (induction n arbitrary: p q) (simp_all add: bytes_at_Suc Let_def)

lemma strncmp_l_0_iff:
  "strncmp_l xs ys n = 0 \<longleftrightarrow> cstr (take n xs) = cstr (take n ys)"
proof (induction xs ys n rule: strncmp_l.induct)
  case (1 xs ys)
  then show ?case by (simp add: cstr_def)
next
  case (2 xs ys n)
  then show ?case
    by (cases xs; cases ys) (auto simp: cstr_def Let_def word_uint_eq_iff [symmetric] uint_0_iff)
qed

lemma bytes_at_cong:
  "(\<And>i. i < n \<Longrightarrow> m (a + of_nat i) = m' (b + of_nat i)) \<Longrightarrow> bytes_at m a n = bytes_at m' b n"
  by (simp add: bytes_at_def)

definition disjoint_at :: "uint \<Rightarrow> nat \<Rightarrow> uint \<Rightarrow> nat \<Rightarrow> bool" where
  "disjoint_at s k t n \<longleftrightarrow> (\<forall>j<k. \<forall>i<n. s + of_nat j \<noteq> t + of_nat i)"

lemma disjoint_atI:
  assumes "unat t + k \<le> unat s" "unat s + n \<le> 2 ^ 32"
  shows "disjoint_at s n t k"
proof -
  have "s + of_nat i \<noteq> t + of_nat j" if "i < n" "j < k" for i j
  proof -
    have "unat (s + of_nat i) = unat s + i" "unat (t + of_nat j) = unat t + j"
      using that assms by (simp_all add: unat_add_of_nat)
    with that assms have "unat (t + of_nat j) < unat (s + of_nat i)" by linarith
    then show ?thesis by auto
  qed
  then show ?thesis by (auto simp: disjoint_at_def)
qed

lemma disjoint_at_Suc:
  assumes "disjoint_at s (Suc k) t (Suc n)"
  shows "disjoint_at (s + 1) k (t + 1) n" and "bytes_at (m(s := v)) (t + 1) n = bytes_at m (t + 1) n"
proof -
  have *: "s + of_nat j \<noteq> t + of_nat (Suc i)" if "j < Suc k" "i < n" for i j
    using assms that unfolding disjoint_at_def by (metis Suc_less_eq)
  show "disjoint_at (s + 1) k (t + 1) n"
    unfolding disjoint_at_def
  proof (intro allI impI)
    fix j i
    assume "j < k" "i < n"
    with * [of "Suc j" i] show "s + 1 + of_nat j \<noteq> t + 1 + of_nat i"
      by (simp add: algebra_simps)
  qed
  show "bytes_at (m(s := v)) (t + 1) n = bytes_at m (t + 1) n"
  proof (rule bytes_at_cong)
    fix i
    assume "i < n"
    with * [of 0 i] show "(m(s := v)) (t + 1 + of_nat i) = m (t + 1 + of_nat i)"
      by (auto simp: algebra_simps)
  qed
qed

lemma strncpy_pad_off:
  "k \<le> 2 ^ 32 \<Longrightarrow> strncpy_pad m s k (s + y) = (if unat y < k then 0 else m (s + y))"
proof -
  have "strncpy_pad m s k = stosb m s 0 k" for m s
    by (induction k arbitrary: m s) simp_all
  then show "k \<le> 2 ^ 32 \<Longrightarrow> strncpy_pad m s k (s + y) = (if unat y < k then 0 else m (s + y))"
    by (simp add: stosb_off)
qed

lemma strncpy_pad_bytes:
  assumes "n < 2 ^ 32"
  shows "bytes_at (strncpy_pad m s n) s n = replicate n 0"
    and "strncpy_pad m (s + 1) n s = m s"
proof -
  show "bytes_at (strncpy_pad m s n) s n = replicate n 0"
    using assms
    by (intro nth_equalityI) (simp_all add: bytes_at_def strncpy_pad_off unat_of_nat_uint)
  have "strncpy_pad m (s + 1) n (s + 1 + - 1) = m s"
    using assms by (subst strncpy_pad_off) simp_all
  then show "strncpy_pad m (s + 1) n s = m s" by simp
qed

lemma strncpy_l_Cons:
  "c \<noteq> 0 \<Longrightarrow> strncpy_l (c # t) (Suc n) = c # strncpy_l t n"
  "strncpy_l (0 # t) (Suc n) = 0 # replicate n 0"
  by (simp_all add: strncpy_l_def cstr_def Let_def)

lemma strncpy_bytes_frame:
  assumes "n < 2 ^ 32" and "disjoint_at s n t n"
  shows "bytes_at (strncpy m s t n) s n = strncpy_l (bytes_at m t n) n
    \<and> (\<forall>y. n \<le> unat y \<longrightarrow> strncpy m s t n (s + y) = m (s + y))"
  using assms
proof (induction n arbitrary: m s t)
  case 0
  then show ?case by (simp add: bytes_at_def strncpy_l_def)
next
  case (Suc n)
  let ?m = "m(s := m t)"
  note d = disjoint_at_Suc [OF Suc.prems(2)]
  have y: "unat (y - 1) = unat y - 1 \<and> s \<noteq> s + y" if "Suc n \<le> unat y" for y :: uint
    using that by (metis Suc_le_D add_cancel_right_right nat.distinct(1) unat_0 unat_minus_one One_nat_def)
  show ?case
  proof (cases "m t = 0")
    case True
    have "bytes_at (strncpy_pad ?m (s + 1) n) s (Suc n) = 0 # replicate n 0"
      using Suc.prems(1) True by (simp add: bytes_at_Suc strncpy_pad_bytes)
    moreover have "strncpy_pad ?m (s + 1) n (s + 1 + (y - 1)) = m (s + y)"
      if "Suc n \<le> unat y" for y
      using Suc.prems(1) that y [OF that] by (subst strncpy_pad_off) auto
    ultimately show ?thesis using True by (simp add: bytes_at_Suc strncpy_l_Cons)
  next
    case False
    have "bytes_at (strncpy ?m (s + 1) (t + 1) n) (s + 1) n = strncpy_l (bytes_at ?m (t + 1) n) n
      \<and> (\<forall>y. n \<le> unat y \<longrightarrow> strncpy ?m (s + 1) (t + 1) n (s + 1 + y) = ?m (s + 1 + y))"
      using Suc.prems(1) by (intro Suc.IH d(1)) simp
    then have IH: "bytes_at (strncpy ?m (s + 1) (t + 1) n) (s + 1) n = strncpy_l (bytes_at ?m (t + 1) n) n"
      "\<And>y. n \<le> unat y \<Longrightarrow> strncpy ?m (s + 1) (t + 1) n (s + 1 + y) = ?m (s + 1 + y)"
      by blast+
    have "strncpy ?m (s + 1) (t + 1) n s = m t"
      using IH(2) [of "- 1"] Suc.prems(1) by simp
    with IH(1) False have "bytes_at (strncpy m s t (Suc n)) s (Suc n) =
        strncpy_l (bytes_at m t (Suc n)) (Suc n)"
      by (simp add: bytes_at_Suc d(2) strncpy_l_Cons)
    moreover have "strncpy m s t (Suc n) (s + y) = m (s + y)" if "Suc n \<le> unat y" for y
      using IH(2) [of "y - 1"] that y [OF that] False by simp
    ultimately show ?thesis by blast
  qed
qed

lemma safestrcpy_loop_spec:
  assumes "n < 2 ^ 32 - 1" and "disjoint_at s (Suc n) t n"
  shows "cstr (bytes_at (safestrcpy_loop m s t n) s (Suc n)) = cstr (bytes_at m t n)
    \<and> (\<forall>y. Suc n \<le> unat y \<longrightarrow> safestrcpy_loop m s t n (s + y) = m (s + y))"
  using assms
proof (induction n arbitrary: m s t)
  case 0
  then show ?case by (auto simp: bytes_at_Suc cstr_def, auto simp: bytes_at_def)
next
  case (Suc n)
  let ?m = "m(s := m t)"
  note d = disjoint_at_Suc [OF Suc.prems(2)]
  have y: "unat (y - 1) = unat y - 1 \<and> s \<noteq> s + y" if "Suc (Suc n) \<le> unat y" for y :: uint
    using that by (metis Suc_le_D add_cancel_right_right nat.distinct(1) unat_0 unat_minus_one One_nat_def)
  show ?case
  proof (cases "m t = 0")
    case True
    have "s + 1 \<noteq> s + y" if "Suc (Suc n) \<le> unat y" for y :: uint
      using that by (metis add_left_cancel not_less_eq_eq unat_1 One_nat_def le0)
    with True y show ?thesis by (auto simp: bytes_at_Suc cstr_def)
  next
    case False
    have "cstr (bytes_at (safestrcpy_loop ?m (s + 1) (t + 1) n) (s + 1) (Suc n)) =
        cstr (bytes_at ?m (t + 1) n)
      \<and> (\<forall>y. Suc n \<le> unat y \<longrightarrow>
            safestrcpy_loop ?m (s + 1) (t + 1) n (s + 1 + y) = ?m (s + 1 + y))"
      using Suc.prems(1) by (intro Suc.IH d(1)) simp
    then have IH: "cstr (bytes_at (safestrcpy_loop ?m (s + 1) (t + 1) n) (s + 1) (Suc n)) =
        cstr (bytes_at ?m (t + 1) n)"
      "\<And>y. Suc n \<le> unat y \<Longrightarrow> safestrcpy_loop ?m (s + 1) (t + 1) n (s + 1 + y) = ?m (s + 1 + y)"
      by blast+
    have "safestrcpy_loop ?m (s + 1) (t + 1) n s = m t"
      using IH(2) [of "- 1"] Suc.prems(1) by simp
    with IH(1) False have "cstr (bytes_at (safestrcpy_loop m s t (Suc n)) s (Suc (Suc n))) =
        cstr (bytes_at m t (Suc n))"
      by (simp add: bytes_at_Suc d(2) cstr_def)
    moreover have "safestrcpy_loop m s t (Suc n) (s + y) = m (s + y)"
      if "Suc (Suc n) \<le> unat y" for y
      using IH(2) [of "y - 1"] that y [OF that] False by simp
    ultimately show ?thesis by blast
  qed
qed

lemma strlen_from_cstring:
  "\<forall>i<k. m (s + of_nat (n + i)) \<noteq> 0 \<Longrightarrow> m (s + of_nat (n + k)) = 0 \<Longrightarrow>
   strlen_from m s n = Some (n + k)"
proof (induction k arbitrary: n)
  case 0
  then show ?case by (subst strlen_from.simps) simp
next
  case (Suc k)
  from Suc.prems(1) have "m (s + of_nat n) \<noteq> 0"
    by (metis add.right_neutral zero_less_Suc)
  moreover have "strlen_from m s (Suc n) = Some (Suc n + k)"
    using Suc.prems(1) [THEN spec, of "Suc i" for i] Suc.prems(2)
    by (intro Suc.IH) (auto simp del: of_nat_add of_nat_Suc)
  ultimately show ?case by (subst strlen_from.simps) simp
qed

section \<open>Properties\<close>

text \<open>
  C21. \<open>memset\<close> fills exactly the \<open>n\<close> bytes from \<open>dst\<close> with the low byte of \<open>c\<close> and
  changes nothing else, whether it takes the word-wise \<open>stosl\<close> path or the \<open>stosb\<close> path,
  and also when the range wraps around the address space.
\<close>

theorem memset_effect:
  "memset m dst c n a = (if a - dst < n then ucast c else m a)"
  using memset_off [of m dst c n "a - dst"] by simp

text \<open>
  C22. \<open>memmove\<close> copies correctly between overlapping ranges, in either direction: every
  byte of the destination gets the value its source byte had before the call, and no other
  byte changes. The ranges must not run past the end of the address space.
\<close>

theorem memmove_effect:
  assumes "unat src + unat n < 2 ^ 32" and "unat dst + unat n \<le> 2 ^ 32"
  shows "memmove m dst src n a = (if a - dst < n then m (src + (a - dst)) else m a)"
  using memmove_off [OF assms, of m "a - dst"] by simp

theorem memmove_effect_witness:
  "bytes_at (memmove (\<lambda>a. ucast a) 0x1002 0x1000 4) 0x1000 8 = [0, 1, 0, 1, 2, 3, 6, 7] \<and>
   memmove (\<lambda>a. ucast a) 0x1002 0x1000 4 0x1005 = 3"
proof
  show "memmove (\<lambda>a. ucast a) 0x1002 0x1000 4 0x1005 = 3"
    by (subst memmove_effect) simp_all
  have "memmove (\<lambda>a. ucast a) 0x1002 0x1000 4 a =
      (if a - 0x1002 < 4 then ucast (0x1000 + (a - 0x1002)) else ucast a)" for a
    by (rule memmove_effect) simp_all
  then show "bytes_at (memmove (\<lambda>a. ucast a) 0x1002 0x1000 4) 0x1000 8 = [0, 1, 0, 1, 2, 3, 6, 7]"
    by (simp add: bytes_at_def upt_rec)
qed

text \<open>
  C23. \<open>safestrcpy(s, t, n)\<close> with \<open>0 < n\<close> and disjoint buffers leaves a NUL-terminated
  string inside the \<open>n\<close> bytes of \<open>s\<close>: the string at \<open>t\<close> cut to \<open>n - 1\<close> characters.
  Bytes outside the \<open>n\<close> bytes keep their value.
\<close>

theorem safestrcpy_spec:
  assumes "0 < n" and "n < 2 ^ 31" and "disjoint_at s (nat n) t (nat (n - 1))"
  shows "cstr (bytes_at (safestrcpy m s t n) s (nat n)) = cstr (bytes_at m t (nat (n - 1))) \<and>
    length (cstr (bytes_at m t (nat (n - 1)))) < nat n \<and>
    (\<forall>a. nat n \<le> unat (a - s) \<longrightarrow> safestrcpy m s t n a = m a)"
proof -
  define k where "k = nat (n - 1)"
  have n: "nat n = Suc k" using assms(1) by (simp add: k_def)
  have "k < 2 ^ 32 - 1" using assms(1,2) by (simp add: k_def)
  from safestrcpy_loop_spec [OF this, of s t m] assms(3)
  have "cstr (bytes_at (safestrcpy_loop m s t k) s (Suc k)) = cstr (bytes_at m t k)"
    and fr: "\<And>y. Suc k \<le> unat y \<Longrightarrow> safestrcpy_loop m s t k (s + y) = m (s + y)"
    by (simp_all add: n k_def)
  moreover have "length (cstr (bytes_at m t k)) < Suc k"
    unfolding cstr_def using length_takeWhile_le [of _ "bytes_at m t k"]
    by (simp add: less_Suc_eq_le)
  moreover have "safestrcpy_loop m s t k a = m a" if "Suc k \<le> unat (a - s)" for a
    using fr [OF that] by simp
  ultimately show ?thesis
    using assms(1) by (simp add: safestrcpy_def n flip: k_def)
qed

definition wit_str :: memory where
  "wit_str = (\<lambda>_. 7)(0x100 := 104, 0x101 := 105, 0x102 := 106, 0x103 := 0)"

theorem safestrcpy_spec_witness:
  "cstr (bytes_at (safestrcpy wit_str 0x200 0x100 3) 0x200 3) = [104, 105]"
proof -
  have "disjoint_at 0x200 (nat 3) 0x100 (nat (3 - 1))"
    by (rule disjoint_atI) simp_all
  from safestrcpy_spec [OF _ _ this, of wit_str]
  have "cstr (bytes_at (safestrcpy wit_str 0x200 0x100 3) 0x200 (nat 3)) =
      cstr (bytes_at wit_str 0x100 (nat (3 - 1)))" by simp
  then show ?thesis by (simp add: bytes_at_def wit_str_def cstr_def upt_rec)
qed

end
