(* ===== verification/Spinlock.thy ===== *)
theory Spinlock
  imports Prelude
begin

text \<open>
  \<open>spinlock.c\<close> twice. First on a machine with any number of CPUs: the locks' words, the
  per-CPU \<open>ncli\<close>/\<open>intena\<close> and interrupt flag, and a step relation in which the CPUs
  interleave between the separate memory accesses of \<open>acquire\<close> and \<open>release\<close>; mutual
  exclusion and "interrupts are off in a critical section" are invariants of its reachable
  states. Second as one CPU sees it: the locks it holds and its \<open>ncli\<close>. The rest of the
  development uses the second form, which the last section proves to be simulated by the
  first on every uncontended lock.
\<close>

section \<open>Locks and CPUs\<close>

text \<open>The spin locks of the kernel, by the variable that holds them.\<close>

datatype lockid =
    LK_ptable | LK_kmem | LK_bcache | LK_ide | LK_log | LK_icache | LK_ftable | LK_cons
  | LK_pipe uint

record spinlock =
  locked :: uint
  lcpu :: "nat option"

record cpust =
  c_ncli :: int
  c_intena :: bool
  c_if :: bool

record smp =
  slocks :: "lockid \<Rightarrow> spinlock"
  scpus :: "nat \<Rightarrow> cpust"

definition sp_initlock :: "lockid \<Rightarrow> (smp, unit) kop" where
  "sp_initlock lk = kmod (\<lambda>s. s\<lparr>slocks := (slocks s)(lk := \<lparr>locked = 0, lcpu = None\<rparr>)\<rparr>)"

definition sp_holding :: "nat \<Rightarrow> lockid \<Rightarrow> smp \<Rightarrow> bool" where
  "sp_holding c lk s \<longleftrightarrow> locked (slocks s lk) \<noteq> 0 \<and> lcpu (slocks s lk) = Some c"

definition pushcli :: "nat \<Rightarrow> (smp, unit) kop" where
  "pushcli c = kmod (\<lambda>s. let p = scpus s c in
     s\<lparr>scpus := (scpus s)(c := p\<lparr>c_ncli := c_ncli p + 1,
                               c_intena := (if c_ncli p = 0 then c_if p else c_intena p),
                               c_if := False\<rparr>)\<rparr>)"

definition popcli :: "nat \<Rightarrow> (smp, unit) kop" where
  "popcli c =
     kbind (kget (\<lambda>s. scpus s c)) (\<lambda>p.
     kthen (kguard (c_if p) ''popcli - interruptible'') (
     kthen (kguard (c_ncli p - 1 < 0) ''popcli'')
       (kmod (\<lambda>s. s\<lparr>scpus := (scpus s)(c := p\<lparr>c_ncli := c_ncli p - 1,
                  c_if := (if c_ncli p - 1 = 0 \<and> c_intena p then True else c_if p)\<rparr>)\<rparr>))))"

definition xchg :: "lockid \<Rightarrow> uint \<Rightarrow> (smp, uint) kop" where
  "xchg lk v =
     kbind (kget (\<lambda>s. locked (slocks s lk))) (\<lambda>old.
     kthen (kmod (\<lambda>s. s\<lparr>slocks := (slocks s)(lk := (slocks s lk)\<lparr>locked := v\<rparr>)\<rparr>)) (kret old))"

definition set_lcpu :: "lockid \<Rightarrow> nat option \<Rightarrow> (smp, unit) kop" where
  "set_lcpu lk c = kmod (\<lambda>s. s\<lparr>slocks := (slocks s)(lk := (slocks s lk)\<lparr>lcpu := c\<rparr>)\<rparr>)"

text \<open>\<open>acquire\<close> up to the spin loop, and the whole of it when nobody else runs.\<close>

definition acquire_enter :: "nat \<Rightarrow> lockid \<Rightarrow> (smp, unit) kop" where
  "acquire_enter c lk =
     kthen (pushcli c) (kbind (kget (sp_holding c lk)) (\<lambda>h. kguard h ''acquire''))"

definition sp_acquire :: "nat \<Rightarrow> lockid \<Rightarrow> (smp, unit) kop" where
  "sp_acquire c lk =
     kthen (acquire_enter c lk) (
     kbind (xchg lk 1) (\<lambda>old.
     if old \<noteq> 0 then (\<lambda>_. Hang) else set_lcpu lk (Some c)))"

definition release_enter :: "nat \<Rightarrow> lockid \<Rightarrow> (smp, unit) kop" where
  "release_enter c lk =
     kbind (kget (sp_holding c lk)) (\<lambda>h.
     kthen (kguard (\<not> h) ''release'') (set_lcpu lk None))"

definition release_leave :: "nat \<Rightarrow> lockid \<Rightarrow> (smp, unit) kop" where
  "release_leave c lk = kbind (xchg lk 0) (\<lambda>_. popcli c)"

definition sp_release :: "nat \<Rightarrow> lockid \<Rightarrow> (smp, unit) kop" where
  "sp_release c lk = kthen (release_enter c lk) (release_leave c lk)"

text \<open>\<open>getcallerpcs\<close> walks the saved frame pointers; \<open>ebp\<close> is a \<open>uint*\<close>.\<close>

primrec pcs_from :: "memory \<Rightarrow> uint \<Rightarrow> nat \<Rightarrow> uint list" where
  "pcs_from m ebp 0 = []"
| "pcs_from m ebp (Suc k) =
     (if ebp = 0 \<or> ebp < 0x80000000 \<or> ebp = 0xFFFFFFFF then replicate (Suc k) 0
      else ld32 m (ebp + 4) # pcs_from m (ld32 m ebp) k)"

definition getcallerpcs :: "memory \<Rightarrow> uint \<Rightarrow> uint list" where
  "getcallerpcs m v = pcs_from m (v - 8) 10"

section \<open>Interleavings of several CPUs\<close>

text \<open>
  Where each CPU is: outside the lock code, spinning in \<open>acquire\<close>, past the successful
  \<open>xchg\<close> but before it has written \<open>lk->cpu\<close>, or in \<open>release\<close> between clearing
  \<open>lk->cpu\<close> and the final \<open>xchg\<close>. \<open>extra\<close> counts the CPU's open \<open>pushcli\<close> calls that
  do not belong to a lock (\<open>switchuvm\<close> makes them).
\<close>

datatype lpc = Run | Spin lockid | Got lockid | Rel lockid

record mach =
  sm :: smp
  lpcs :: "nat \<Rightarrow> lpc"
  extra :: "nat \<Rightarrow> nat"

inductive mstep :: "mach \<Rightarrow> mach \<Rightarrow> bool" where
  m_acquire: "lpcs s c = Run \<Longrightarrow> acquire_enter c lk (sm s) = Ok () t \<Longrightarrow>
     mstep s (s\<lparr>sm := t, lpcs := (lpcs s)(c := Spin lk)\<rparr>)"
| m_xchg: "lpcs s c = Spin lk \<Longrightarrow> xchg lk 1 (sm s) = Ok old t \<Longrightarrow>
     mstep s (s\<lparr>sm := t, lpcs := (lpcs s)(c := if old \<noteq> 0 then Spin lk else Got lk)\<rparr>)"
| m_setcpu: "lpcs s c = Got lk \<Longrightarrow> set_lcpu lk (Some c) (sm s) = Ok () t \<Longrightarrow>
     mstep s (s\<lparr>sm := t, lpcs := (lpcs s)(c := Run)\<rparr>)"
| m_release: "lpcs s c = Run \<Longrightarrow> release_enter c lk (sm s) = Ok () t \<Longrightarrow>
     mstep s (s\<lparr>sm := t, lpcs := (lpcs s)(c := Rel lk)\<rparr>)"
| m_leave: "lpcs s c = Rel lk \<Longrightarrow> release_leave c lk (sm s) = Ok () t \<Longrightarrow>
     mstep s (s\<lparr>sm := t, lpcs := (lpcs s)(c := Run)\<rparr>)"
| m_pushcli: "lpcs s c = Run \<Longrightarrow> pushcli c (sm s) = Ok () t \<Longrightarrow>
     mstep s (s\<lparr>sm := t, extra := (extra s)(c := Suc (extra s c))\<rparr>)"
| m_popcli: "lpcs s c = Run \<Longrightarrow> 0 < extra s c \<Longrightarrow> popcli c (sm s) = Ok () t \<Longrightarrow>
     mstep s (s\<lparr>sm := t, extra := (extra s)(c := extra s c - 1)\<rparr>)"
| m_intr: "c_ncli (scpus (sm s) c) = 0 \<Longrightarrow>
     mstep s (s\<lparr>sm := (sm s)\<lparr>scpus := (scpus (sm s))(c := (scpus (sm s) c)\<lparr>c_if := b\<rparr>)\<rparr>\<rparr>)"

definition mach_init :: "mach \<Rightarrow> bool" where
  "mach_init s \<longleftrightarrow>
     (\<forall>lk. slocks (sm s) lk = \<lparr>locked = 0, lcpu = None\<rparr>) \<and>
     (\<forall>c. c_ncli (scpus (sm s) c) = 0 \<and> lpcs s c = Run \<and> extra s c = 0)"

text \<open>CPU \<open>c\<close> is between the \<open>xchg\<close> that took the lock and the one that gives it back.\<close>

definition in_cs :: "mach \<Rightarrow> nat \<Rightarrow> lockid \<Rightarrow> bool" where
  "in_cs s c lk \<longleftrightarrow> lpcs s c = Got lk \<or> lpcs s c = Rel lk \<or> lcpu (slocks (sm s) lk) = Some c"

definition in_flight :: "mach \<Rightarrow> nat \<Rightarrow> lockid set" where
  "in_flight s c = {lk. in_cs s c lk \<or> lpcs s c = Spin lk}"

text \<open>
  The invariant. Mutual exclusion alone is not inductive: the \<open>lk->cpu\<close> field must agree
  with the program counters, and \<open>ncli\<close> must count the locks a CPU is using, so that the
  \<open>popcli\<close> of a \<open>release\<close> cannot turn interrupts on while another lock is held.
\<close>

definition lock_inv :: "mach \<Rightarrow> bool" where
  "lock_inv s \<longleftrightarrow>
     (\<forall>c lk. in_cs s c lk \<longrightarrow> locked (slocks (sm s) lk) \<noteq> 0) \<and>
     (\<forall>c d lk. in_cs s c lk \<longrightarrow> in_cs s d lk \<longrightarrow> c = d) \<and>
     (\<forall>c lk. lpcs s c \<in> {Spin lk, Got lk, Rel lk} \<longrightarrow> lcpu (slocks (sm s) lk) \<noteq> Some c)"

definition cli_inv :: "mach \<Rightarrow> bool" where
  "cli_inv s \<longleftrightarrow>
     (\<forall>c. finite (in_flight s c) \<and>
          c_ncli (scpus (sm s) c) = int (card (in_flight s c)) + int (extra s c)) \<and>
     (\<forall>c. c_if (scpus (sm s) c) \<longrightarrow> c_ncli (scpus (sm s) c) = 0)"

lemmas lock_op_defs = acquire_enter_def release_enter_def release_leave_def pushcli_def
  popcli_def xchg_def set_lcpu_def sp_holding_def

text \<open>What each operation leaves, field by field.\<close>

lemma acquire_enter_Ok:
  assumes "acquire_enter c lk s = Ok u t"
  shows "slocks t = slocks s" and "\<not> (locked (slocks s lk) \<noteq> 0 \<and> lcpu (slocks s lk) = Some c)"
    and "c_ncli (scpus t c) = c_ncli (scpus s c) + 1" and "\<not> c_if (scpus t c)"
    and "d \<noteq> c \<Longrightarrow> scpus t d = scpus s d"
  using assms by (auto simp: lock_op_defs Let_def kthen_Ok_iff kbind_Ok_iff split: if_splits)

lemma pushcli_Ok:
  assumes "pushcli c s = Ok u t"
  shows "slocks t = slocks s" and "c_ncli (scpus t c) = c_ncli (scpus s c) + 1"
    and "\<not> c_if (scpus t c)" and "d \<noteq> c \<Longrightarrow> scpus t d = scpus s d"
  using assms by (auto simp: lock_op_defs Let_def)

lemma popcli_Ok:
  assumes "popcli c s = Ok u t"
  shows "slocks t = slocks s" and "c_ncli (scpus t c) = c_ncli (scpus s c) - 1"
    and "c_if (scpus t c) \<Longrightarrow> c_ncli (scpus s c) = 1" and "d \<noteq> c \<Longrightarrow> scpus t d = scpus s d"
  using assms by (auto simp: lock_op_defs Let_def kthen_Ok_iff kbind_Ok_iff split: if_splits)

lemma xchg_Ok:
  assumes "xchg lk v s = Ok old t"
  shows "old = locked (slocks s lk)" and "scpus t = scpus s"
    and "slocks t = (slocks s)(lk := (slocks s lk)\<lparr>locked := v\<rparr>)"
  using assms by (auto simp: xchg_def)

lemma set_lcpu_Ok:
  assumes "set_lcpu lk p s = Ok u t"
  shows "scpus t = scpus s" and "slocks t = (slocks s)(lk := (slocks s lk)\<lparr>lcpu := p\<rparr>)"
  using assms by (auto simp: set_lcpu_def)

lemma release_enter_Ok:
  assumes "release_enter c lk s = Ok u t"
  shows "locked (slocks s lk) \<noteq> 0" "lcpu (slocks s lk) = Some c" and "scpus t = scpus s"
    and "slocks t = (slocks s)(lk := (slocks s lk)\<lparr>lcpu := None\<rparr>)"
  using assms by (auto simp: lock_op_defs kthen_Ok_iff kbind_Ok_iff split: if_splits)

lemma release_leave_Ok:
  assumes "release_leave c lk s = Ok u t"
  shows "slocks t = (slocks s)(lk := (slocks s lk)\<lparr>locked := 0\<rparr>)"
    and "c_ncli (scpus t c) = c_ncli (scpus s c) - 1"
    and "c_if (scpus t c) \<Longrightarrow> c_ncli (scpus s c) = 1" and "d \<noteq> c \<Longrightarrow> scpus t d = scpus s d"
proof -
  from assms obtain old r where "xchg lk 0 s = Ok old r" and p: "popcli c r = Ok u t"
    by (auto simp: release_leave_def kbind_Ok_iff)
  note xchg_Ok [OF this(1)] popcli_Ok [OF p]
  then show "slocks t = (slocks s)(lk := (slocks s lk)\<lparr>locked := 0\<rparr>)"
    and "c_ncli (scpus t c) = c_ncli (scpus s c) - 1"
    and "c_if (scpus t c) \<Longrightarrow> c_ncli (scpus s c) = 1" and "d \<noteq> c \<Longrightarrow> scpus t d = scpus s d"
    by auto
qed

text \<open>Who is in a critical section after each step.\<close>

lemma in_cs_simp:
  "in_cs (s\<lparr>sm := t, lpcs := P\<rparr>) d l \<longleftrightarrow>
     P d = Got l \<or> P d = Rel l \<or> lcpu (slocks t l) = Some d"
  by (simp add: in_cs_def)

lemma lock_invD:
  assumes "lock_inv s"
  shows "in_cs s c lk \<Longrightarrow> locked (slocks (sm s) lk) \<noteq> 0"
    and "in_cs s c lk \<Longrightarrow> in_cs s d lk \<Longrightarrow> c = d"
    and "lpcs s c = Spin lk \<or> lpcs s c = Got lk \<or> lpcs s c = Rel lk \<Longrightarrow>
         lcpu (slocks (sm s) lk) \<noteq> Some c"
  using assms unfolding lock_inv_def by blast+

lemma lock_inv_cong:
  "lock_inv s \<Longrightarrow> slocks (sm t) = slocks (sm s) \<Longrightarrow> lpcs t = lpcs s \<Longrightarrow> lock_inv t"
  by (simp add: lock_inv_def in_cs_def)

lemma in_cs_acquire:
  assumes "lpcs s c = Run" "acquire_enter c lk (sm s) = Ok () t"
  shows "in_cs (s\<lparr>sm := t, lpcs := (lpcs s)(c := Spin lk)\<rparr>) d l \<longleftrightarrow> in_cs s d l"
  using assms(1) acquire_enter_Ok(1) [OF assms(2)] by (auto simp: in_cs_def)

lemma in_cs_xchg:
  assumes "lpcs s c = Spin lk" "xchg lk 1 (sm s) = Ok old t"
  shows "in_cs (s\<lparr>sm := t, lpcs := (lpcs s)(c := if old \<noteq> 0 then Spin lk else Got lk)\<rparr>) d l \<longleftrightarrow>
    in_cs s d l \<or> d = c \<and> l = lk \<and> old = 0"
  using assms(1) xchg_Ok [OF assms(2)] by (auto simp: in_cs_def)

lemma in_cs_setcpu:
  assumes inv: "lock_inv s" and "lpcs s c = Got lk" "set_lcpu lk (Some c) (sm s) = Ok () t"
  shows "in_cs (s\<lparr>sm := t, lpcs := (lpcs s)(c := Run)\<rparr>) d l \<longleftrightarrow> in_cs s d l"
proof -
  have c: "in_cs s c lk" using assms(2) by (simp add: in_cs_def)
  have "lpcs s d \<noteq> Got lk \<and> lpcs s d \<noteq> Rel lk \<and> lcpu (slocks (sm s) lk) \<noteq> Some d"
    if "d \<noteq> c" for d
    using lock_invD(2) [OF inv c, of d] that unfolding in_cs_def by blast
  with assms(2) set_lcpu_Ok [OF assms(3)] show ?thesis
    by (cases "d = c"; cases "l = lk") (simp_all add: in_cs_def)
qed

lemma in_cs_release:
  assumes "lpcs s c = Run" "release_enter c lk (sm s) = Ok () t"
  shows "in_cs (s\<lparr>sm := t, lpcs := (lpcs s)(c := Rel lk)\<rparr>) d l \<longleftrightarrow> in_cs s d l"
  using assms(1) release_enter_Ok [OF assms(2)] by (auto simp: in_cs_def)

lemma in_cs_leave:
  assumes inv: "lock_inv s" and "lpcs s c = Rel lk" "release_leave c lk (sm s) = Ok () t"
  shows "in_cs (s\<lparr>sm := t, lpcs := (lpcs s)(c := Run)\<rparr>) d l \<longleftrightarrow> in_cs s d l \<and> l \<noteq> lk"
proof -
  have c: "in_cs s c lk" using assms(2) by (simp add: in_cs_def)
  have "lcpu (slocks (sm s) lk) \<noteq> Some d" for d
    using lock_invD(2) [OF inv c, of d] lock_invD(3) [OF inv, of c lk] assms(2)
    by (auto simp: in_cs_def)
  moreover have "lpcs s d \<noteq> Got lk \<and> lpcs s d \<noteq> Rel lk" if "d \<noteq> c" for d
    using lock_invD(2) [OF inv c, of d] that unfolding in_cs_def by blast
  ultimately show ?thesis
    using assms(2) release_leave_Ok(1) [OF assms(3)]
    by (cases "d = c"; cases "l = lk") (simp_all add: in_cs_def)
qed

lemma lock_invI:
  assumes "\<And>d l. in_cs t d l \<Longrightarrow> locked (slocks (sm t) l) \<noteq> 0"
    and "\<And>d e l. in_cs t d l \<Longrightarrow> in_cs t e l \<Longrightarrow> d = e"
    and "\<And>d l. lpcs t d \<in> {Spin l, Got l, Rel l} \<Longrightarrow> lcpu (slocks (sm t) l) \<noteq> Some d"
  shows "lock_inv t"
  using assms unfolding lock_inv_def by blast

lemma lock_inv_acquire:
  assumes "lock_inv s" "lpcs s c = Run" "acquire_enter c lk (sm s) = Ok () t"
  shows "lock_inv (s\<lparr>sm := t, lpcs := (lpcs s)(c := Spin lk)\<rparr>)"
proof (rule lock_invI)
  note a = acquire_enter_Ok [OF assms(3)]
  have "lcpu (slocks (sm s) lk) \<noteq> Some c"
    using a(2) lock_invD(1) [OF assms(1), of c lk] by (auto simp: in_cs_def)
  then show "lcpu (slocks (sm (s\<lparr>sm := t, lpcs := (lpcs s)(c := Spin lk)\<rparr>)) l) \<noteq> Some d"
    if "lpcs (s\<lparr>sm := t, lpcs := (lpcs s)(c := Spin lk)\<rparr>) d \<in> {Spin l, Got l, Rel l}" for d l
    using that lock_invD(3) [OF assms(1), of d l] a(1) by (cases "d = c") auto
qed (use in_cs_acquire [OF assms(2,3)] acquire_enter_Ok(1) [OF assms(3)] lock_invD [OF assms(1)]
     in auto)

lemma lock_inv_xchg:
  assumes "lock_inv s" "lpcs s c = Spin lk" "xchg lk 1 (sm s) = Ok old t"
  shows "lock_inv (s\<lparr>sm := t, lpcs := (lpcs s)(c := if old \<noteq> 0 then Spin lk else Got lk)\<rparr>)"
    (is "lock_inv ?t")
proof (rule lock_invI)
  note x = xchg_Ok [OF assms(3)] and cs = in_cs_xchg [OF assms(2,3)]
  have free: "\<not> in_cs s d lk" if "old = 0" for d
    using lock_invD(1) [OF assms(1), of d lk] that x(1) by auto
  show "locked (slocks (sm ?t) l) \<noteq> 0" if "in_cs ?t d l" for d l
    using that lock_invD(1) [OF assms(1), of d l] x(3) unfolding cs by auto
  show "d = e" if "in_cs ?t d l" "in_cs ?t e l" for d e l
    using that lock_invD(2) [OF assms(1), of d l e] free unfolding cs by blast
  show "lcpu (slocks (sm ?t) l) \<noteq> Some d" if "lpcs ?t d \<in> {Spin l, Got l, Rel l}" for d l
    using that lock_invD(3) [OF assms(1), of d l] assms(2) x(3)
    by (cases "d = c"; cases "l = lk") (simp_all split: if_splits)
qed

lemma lock_inv_setcpu:
  assumes "lock_inv s" "lpcs s c = Got lk" "set_lcpu lk (Some c) (sm s) = Ok () t"
  shows "lock_inv (s\<lparr>sm := t, lpcs := (lpcs s)(c := Run)\<rparr>)" (is "lock_inv ?t")
proof (rule lock_invI)
  note x = set_lcpu_Ok [OF assms(3)] and cs = in_cs_setcpu [OF assms]
  show "locked (slocks (sm ?t) l) \<noteq> 0" if "in_cs ?t d l" for d l
    using that lock_invD(1) [OF assms(1), of d l] x(2) unfolding cs by auto
  show "d = e" if "in_cs ?t d l" "in_cs ?t e l" for d e l
    using that lock_invD(2) [OF assms(1), of d l e] unfolding cs by blast
  show "lcpu (slocks (sm ?t) l) \<noteq> Some d" if "lpcs ?t d \<in> {Spin l, Got l, Rel l}" for d l
    using that lock_invD(3) [OF assms(1), of d l] x(2) by (cases "d = c"; cases "l = lk") simp_all
qed

lemma lock_inv_release:
  assumes "lock_inv s" "lpcs s c = Run" "release_enter c lk (sm s) = Ok () t"
  shows "lock_inv (s\<lparr>sm := t, lpcs := (lpcs s)(c := Rel lk)\<rparr>)" (is "lock_inv ?t")
proof (rule lock_invI)
  note x = release_enter_Ok [OF assms(3)] and cs = in_cs_release [OF assms(2,3)]
  show "locked (slocks (sm ?t) l) \<noteq> 0" if "in_cs ?t d l" for d l
    using that lock_invD(1) [OF assms(1), of d l] x(4) unfolding cs by auto
  show "d = e" if "in_cs ?t d l" "in_cs ?t e l" for d e l
    using that lock_invD(2) [OF assms(1), of d l e] unfolding cs by blast
  show "lcpu (slocks (sm ?t) l) \<noteq> Some d" if "lpcs ?t d \<in> {Spin l, Got l, Rel l}" for d l
    using that lock_invD(3) [OF assms(1), of d l] x(4) by (cases "d = c"; cases "l = lk") simp_all
qed

lemma lock_inv_leave:
  assumes "lock_inv s" "lpcs s c = Rel lk" "release_leave c lk (sm s) = Ok () t"
  shows "lock_inv (s\<lparr>sm := t, lpcs := (lpcs s)(c := Run)\<rparr>)" (is "lock_inv ?t")
proof (rule lock_invI)
  note x = release_leave_Ok [OF assms(3)] and cs = in_cs_leave [OF assms]
  show "locked (slocks (sm ?t) l) \<noteq> 0" if "in_cs ?t d l" for d l
    using that lock_invD(1) [OF assms(1), of d l] x(1) unfolding cs by auto
  show "d = e" if "in_cs ?t d l" "in_cs ?t e l" for d e l
    using that lock_invD(2) [OF assms(1), of d l e] unfolding cs by blast
  show "lcpu (slocks (sm ?t) l) \<noteq> Some d" if "lpcs ?t d \<in> {Spin l, Got l, Rel l}" for d l
    using that lock_invD(3) [OF assms(1), of d l] x(1) by (cases "d = c"; cases "l = lk") simp_all
qed

lemma lock_inv_step: "lock_inv s \<Longrightarrow> mstep s t \<Longrightarrow> lock_inv t"
  by (erule mstep.cases)
     (simp_all add: lock_inv_acquire lock_inv_xchg lock_inv_setcpu lock_inv_release lock_inv_leave
        lock_inv_cong [of s] pushcli_Ok popcli_Ok)

text \<open>
  The interrupt invariant: a CPU that is given the same locks in flight plus or minus one,
  with \<open>ncli\<close> moved the same way, keeps the count.
\<close>

lemma cli_invD:
  assumes "cli_inv s"
  shows "finite (in_flight s c)"
    and "c_ncli (scpus (sm s) c) = int (card (in_flight s c)) + int (extra s c)"
    and "c_if (scpus (sm s) c) \<Longrightarrow> c_ncli (scpus (sm s) c) = 0"
  using assms unfolding cli_inv_def by blast+

lemma cli_invI:
  assumes inv: "cli_inv s"
    and F: "\<And>d. d \<noteq> c \<Longrightarrow> in_flight t d = in_flight s d"
    and x: "\<And>d. d \<noteq> c \<Longrightarrow> extra t d = extra s d"
    and p: "\<And>d. d \<noteq> c \<Longrightarrow> scpus (sm t) d = scpus (sm s) d"
    and fin: "finite (in_flight t c)"
    and n: "c_ncli (scpus (sm t) c) = int (card (in_flight t c)) + int (extra t c)"
    and i: "c_if (scpus (sm t) c) \<Longrightarrow> c_ncli (scpus (sm t) c) = 0"
  shows "cli_inv t"
  unfolding cli_inv_def
proof (intro conjI allI impI)
  fix d
  show "finite (in_flight t d)" using fin F cli_invD(1) [OF inv] by (cases "d = c") auto
  show "c_ncli (scpus (sm t) d) = int (card (in_flight t d)) + int (extra t d)"
    using n F x p cli_invD(2) [OF inv] by (cases "d = c") auto
  show "c_ncli (scpus (sm t) d) = 0" if "c_if (scpus (sm t) d)"
    using that i p cli_invD(3) [OF inv] by (cases "d = c") auto
qed

lemma acquire_not_in_cs:
  assumes "lock_inv s" "lpcs s c = Run" "acquire_enter c lk (sm s) = Ok () t"
  shows "\<not> in_cs s c lk"
proof
  assume c: "in_cs s c lk"
  with assms(2) have "lcpu (slocks (sm s) lk) = Some c" by (simp add: in_cs_def)
  with lock_invD(1) [OF assms(1) c] acquire_enter_Ok(2) [OF assms(3)] show False by blast
qed

lemma cli_inv_acquire:
  assumes inv: "lock_inv s" "cli_inv s" and run: "lpcs s c = Run"
    and op: "acquire_enter c lk (sm s) = Ok () t"
  shows "cli_inv (s\<lparr>sm := t, lpcs := (lpcs s)(c := Spin lk)\<rparr>)" (is "cli_inv ?t")
proof -
  note a = acquire_enter_Ok [OF op] and cs = in_cs_acquire [OF run op]
  have "in_flight ?t c = insert lk (in_flight s c)" "lk \<notin> in_flight s c"
    using run cs acquire_not_in_cs [OF inv(1) run op] by (auto simp: in_flight_def)
  moreover have "in_flight ?t d = in_flight s d" if "d \<noteq> c" for d
    using that cs by (simp add: in_flight_def)
  ultimately show ?thesis
    using a cli_invD [OF inv(2), of c] by (intro cli_invI [OF inv(2), of c]) auto
qed

lemma cli_inv_same:
  assumes inv: "cli_inv s" and "\<And>d. in_flight t d = in_flight s d"
    and "scpus (sm t) = scpus (sm s)" "extra t = extra s"
  shows "cli_inv t"
  using inv unfolding cli_inv_def assms(2-4) .

lemma cli_inv_xchg:
  assumes inv: "cli_inv s" and pc: "lpcs s c = Spin lk" and op: "xchg lk 1 (sm s) = Ok old t"
  shows "cli_inv (s\<lparr>sm := t, lpcs := (lpcs s)(c := if old \<noteq> 0 then Spin lk else Got lk)\<rparr>)"
    (is "cli_inv ?t")
proof (rule cli_inv_same [OF inv])
  show "in_flight ?t d = in_flight s d" for d
    using pc in_cs_xchg [OF pc op] by (cases "d = c") (auto simp: in_flight_def)
qed (simp_all add: xchg_Ok [OF op])

lemma cli_inv_setcpu:
  assumes inv: "lock_inv s" "cli_inv s" and pc: "lpcs s c = Got lk"
    and op: "set_lcpu lk (Some c) (sm s) = Ok () t"
  shows "cli_inv (s\<lparr>sm := t, lpcs := (lpcs s)(c := Run)\<rparr>)" (is "cli_inv ?t")
proof (rule cli_inv_same [OF inv(2)])
  show "in_flight ?t d = in_flight s d" for d
    using pc in_cs_setcpu [OF inv(1) pc op] by (cases "d = c") (auto simp: in_flight_def)
qed (simp_all add: set_lcpu_Ok [OF op])

lemma cli_inv_release:
  assumes inv: "cli_inv s" and pc: "lpcs s c = Run" and op: "release_enter c lk (sm s) = Ok () t"
  shows "cli_inv (s\<lparr>sm := t, lpcs := (lpcs s)(c := Rel lk)\<rparr>)" (is "cli_inv ?t")
proof (rule cli_inv_same [OF inv])
  show "in_flight ?t d = in_flight s d" for d
    using pc in_cs_release [OF pc op] by (cases "d = c") (auto simp: in_flight_def)
qed (simp_all add: release_enter_Ok [OF op])

lemma cli_inv_leave:
  assumes inv: "lock_inv s" "cli_inv s" and pc: "lpcs s c = Rel lk"
    and op: "release_leave c lk (sm s) = Ok () t"
  shows "cli_inv (s\<lparr>sm := t, lpcs := (lpcs s)(c := Run)\<rparr>)" (is "cli_inv ?t")
proof -
  note r = release_leave_Ok [OF op] and cs = in_cs_leave [OF inv(1) pc op]
  have c: "in_cs s c lk" using pc by (simp add: in_cs_def)
  have F: "in_flight ?t c = in_flight s c - {lk}" and lk: "lk \<in> in_flight s c"
    using pc cs c by (auto simp: in_flight_def)
  have other: "in_flight ?t d = in_flight s d" if "d \<noteq> c" for d
    using that cs lock_invD(2) [OF inv(1) c, of d] by (auto simp: in_flight_def)
  have "card (in_flight s c) = Suc (card (in_flight ?t c))"
    unfolding F by (rule card.remove [OF cli_invD(1) [OF inv(2)] lk])
  then have n: "int (card (in_flight s c)) = int (card (in_flight ?t c)) + 1" by linarith
  have fin: "finite (in_flight ?t c)" unfolding F using cli_invD(1) [OF inv(2)] by blast
  show ?thesis
  proof (rule cli_invI [OF inv(2) other])
    show "c_ncli (scpus (sm ?t) c) = int (card (in_flight ?t c)) + int (extra ?t c)"
      using r(2) cli_invD(2) [OF inv(2), of c] n by simp
    show "c_ncli (scpus (sm ?t) c) = 0" if "c_if (scpus (sm ?t) c)"
      using that r(2,3) by simp
  qed (use fin r(4) in simp_all)
qed

lemma cli_inv_pushcli:
  assumes inv: "cli_inv s" and op: "pushcli c (sm s) = Ok () t"
  shows "cli_inv (s\<lparr>sm := t, extra := (extra s)(c := Suc (extra s c))\<rparr>)" (is "cli_inv ?t")
proof -
  note p = pushcli_Ok [OF op]
  have "in_flight ?t d = in_flight s d" for d
    by (simp add: in_flight_def in_cs_def p)
  then show ?thesis
    using p cli_invD [OF inv, of c] by (intro cli_invI [OF inv, of c]) auto
qed

lemma cli_inv_popcli:
  assumes inv: "cli_inv s" and x: "0 < extra s c" and op: "popcli c (sm s) = Ok () t"
  shows "cli_inv (s\<lparr>sm := t, extra := (extra s)(c := extra s c - 1)\<rparr>)" (is "cli_inv ?t")
proof -
  note p = popcli_Ok [OF op]
  have "in_flight ?t d = in_flight s d" for d
    by (simp add: in_flight_def in_cs_def p)
  then show ?thesis
    using x p cli_invD [OF inv, of c] by (intro cli_invI [OF inv, of c]) auto
qed

lemma cli_inv_intr:
  assumes inv: "cli_inv s" and n: "c_ncli (scpus (sm s) c) = 0"
  shows "cli_inv (s\<lparr>sm := (sm s)\<lparr>scpus := (scpus (sm s))(c := (scpus (sm s) c)\<lparr>c_if := b\<rparr>)\<rparr>\<rparr>)"
    (is "cli_inv ?t")
proof -
  have "in_flight ?t d = in_flight s d" for d
    by (simp add: in_flight_def in_cs_def)
  then show ?thesis
    using n cli_invD [OF inv, of c] by (intro cli_invI [OF inv, of c]) auto
qed

lemma cli_inv_step:
  assumes "mstep s t" "lock_inv s" "cli_inv s"
  shows "cli_inv t"
  using assms(1)
proof cases
  case m_acquire
  with assms show ?thesis by (simp only: cli_inv_acquire)
next
  case m_xchg
  with assms show ?thesis by (simp only: cli_inv_xchg)
next
  case m_setcpu
  with assms show ?thesis by (simp only: cli_inv_setcpu)
next
  case m_release
  with assms show ?thesis by (simp only: cli_inv_release)
next
  case m_leave
  with assms show ?thesis by (simp only: cli_inv_leave)
next
  case m_pushcli
  with assms show ?thesis by (simp only: cli_inv_pushcli)
next
  case m_popcli
  with assms show ?thesis by (simp only: cli_inv_popcli)
next
  case m_intr
  with assms show ?thesis by (simp only: cli_inv_intr)
qed

definition mach_inv :: "mach \<Rightarrow> bool" where
  "mach_inv s \<longleftrightarrow> lock_inv s \<and> cli_inv s"

interpretation sl: machine_invariant mach_init mstep mach_inv
proof
  show "mach_inv s" if "mach_init s" for s
    using that
    by (simp add: mach_init_def mach_inv_def lock_inv_def cli_inv_def in_flight_def in_cs_def)
  show "mach_inv t" if "mach_inv s" "mstep s t" for s t
    using that lock_inv_step [of s t] cli_inv_step [of s t] unfolding mach_inv_def by simp
qed

text \<open>
  The \<open>popcli\<close> inside \<open>release\<close> never panics: a CPU that reached it has interrupts off and
  a positive \<open>ncli\<close>.
\<close>

lemma release_leave_returns:
  assumes "mach_inv s" "lpcs s c = Rel lk"
  shows "\<exists>t. release_leave c lk (sm s) = Ok () t"
proof -
  have "lk \<in> in_flight s c" using assms(2) by (simp add: in_flight_def in_cs_def)
  then have "0 < card (in_flight s c)"
    using cli_invD(1) [of s c] assms(1) unfolding mach_inv_def by (auto simp: card_gt_0_iff)
  then have "0 < c_ncli (scpus (sm s) c)" and "\<not> c_if (scpus (sm s) c)"
    using cli_invD(2,3) [of s c] assms(1) unfolding mach_inv_def by auto
  then show ?thesis by (auto simp: release_leave_def xchg_def popcli_def kbind_def kthen_def)
qed

inductive_cases mstepE: "mstep s t"

text \<open>A run to evaluate the theorems on: CPU 0 takes \<open>kmem.lock\<close> while CPU 1 spins on it.\<close>

definition wit_cpu :: "int \<Rightarrow> bool \<Rightarrow> cpust" where
  "wit_cpu n ena = \<lparr>c_ncli = n, c_intena = ena, c_if = n = 0\<rparr>"

definition wit_m0 :: mach where
  "wit_m0 = \<lparr>sm = \<lparr>slocks = \<lambda>_. \<lparr>locked = 0, lcpu = None\<rparr>, scpus = \<lambda>_. wit_cpu 0 True\<rparr>,
            lpcs = \<lambda>_. Run, extra = \<lambda>_. 0\<rparr>"

definition wit_m1 :: mach where
  "wit_m1 = \<lparr>sm = \<lparr>slocks = (\<lambda>_. \<lparr>locked = 0, lcpu = None\<rparr>)(LK_kmem := \<lparr>locked = 1, lcpu = Some 0\<rparr>),
                  scpus = (\<lambda>_. wit_cpu 0 True)(0 := wit_cpu 1 True, 1 := wit_cpu 1 True)\<rparr>,
            lpcs = (\<lambda>_. Run)(1 := Spin LK_kmem), extra = \<lambda>_. 0\<rparr>"

definition wit_m2 :: mach where
  "wit_m2 = wit_m1\<lparr>sm := (sm wit_m1)\<lparr>slocks := (slocks (sm wit_m1))(LK_kmem := \<lparr>locked = 1, lcpu = None\<rparr>)\<rparr>,
                   lpcs := (lpcs wit_m1)(0 := Rel LK_kmem)\<rparr>"

lemma reach_mstep_eq:
  "reachable mach_init mstep s \<Longrightarrow> mstep s u \<Longrightarrow> u = t \<Longrightarrow> reachable mach_init mstep t"
  by (auto intro: reach_step)

lemma wit_m1_reachable: "reachable mach_init mstep wit_m1"
proof -
  let ?st = "\<lambda>lk p0 p1 q0 q1. \<lparr>sm = \<lparr>slocks = (\<lambda>_. \<lparr>locked = 0, lcpu = None\<rparr>)(LK_kmem := lk),
       scpus = (\<lambda>_. wit_cpu 0 True)(0 := p0, 1 := p1)\<rparr>,
       lpcs = (\<lambda>_. Run)(0 := q0, 1 := q1), extra = \<lambda>_. 0\<rparr> :: mach"
  let ?off = "wit_cpu 1 True" and ?on = "wit_cpu 0 True" and ?Spin = "Spin LK_kmem"
  have 0: "?st \<lparr>locked = 0, lcpu = None\<rparr> ?on ?on Run Run = wit_m0"
    by (simp add: wit_m0_def fun_eq_iff)
  have "reachable mach_init mstep wit_m0"
    by (rule reach_init) (simp add: mach_init_def wit_m0_def wit_cpu_def)
  then have r: "reachable mach_init mstep (?st \<lparr>locked = 0, lcpu = None\<rparr> ?on ?on Run Run)"
    unfolding 0 .
  have r: "reachable mach_init mstep (?st \<lparr>locked = 0, lcpu = None\<rparr> ?off ?on ?Spin Run)"
    by (rule reach_mstep_eq [OF r], rule m_acquire [of _ 0 LK_kmem], simp, simp add: lock_op_defs)
       (auto simp: wit_cpu_def Let_def fun_eq_iff)
  have r: "reachable mach_init mstep (?st \<lparr>locked = 0, lcpu = None\<rparr> ?off ?off ?Spin ?Spin)"
    by (rule reach_mstep_eq [OF r], rule m_acquire [of _ 1 LK_kmem], simp, simp add: lock_op_defs)
       (auto simp: wit_cpu_def Let_def fun_eq_iff)
  have r: "reachable mach_init mstep (?st \<lparr>locked = 1, lcpu = None\<rparr> ?off ?off (Got LK_kmem) ?Spin)"
    by (rule reach_mstep_eq [OF r], rule m_xchg [of _ 0 LK_kmem], simp, simp add: lock_op_defs)
       (auto simp: wit_cpu_def Let_def fun_eq_iff)
  have r: "reachable mach_init mstep (?st \<lparr>locked = 1, lcpu = Some 0\<rparr> ?off ?off Run ?Spin)"
    by (rule reach_mstep_eq [OF r], rule m_setcpu [of _ 0 LK_kmem], simp, simp add: lock_op_defs)
       (auto simp: wit_cpu_def Let_def fun_eq_iff)
  have "?st \<lparr>locked = 1, lcpu = Some 0\<rparr> ?off ?off Run ?Spin = wit_m1"
    by (simp add: wit_m1_def fun_eq_iff)
  with r show ?thesis by simp
qed

lemma wit_m2_reachable: "reachable mach_init mstep wit_m2"
  by (rule reach_mstep_eq [OF wit_m1_reachable], rule m_release [of _ 0 LK_kmem])
     (simp add: wit_m1_def, simp add: lock_op_defs wit_m1_def, simp add: wit_m1_def wit_m2_def)

text \<open>
  C5. Mutual exclusion: in every state that any interleaving of the CPUs' \<open>acquire\<close>,
  \<open>release\<close>, \<open>pushcli\<close> and \<open>popcli\<close> steps reaches, at most one CPU is between taking a
  lock and giving it back, and the lock's word is then set.
\<close>

theorem spinlock_mutual_exclusion:
  assumes "reachable mach_init mstep s" and "in_cs s c lk"
  shows "{d. in_cs s d lk} = {c} \<and> locked (slocks (sm s) lk) \<noteq> 0"
  using sl.reachable_inv [OF assms(1)] assms(2) lock_invD(1,2) unfolding mach_inv_def by blast

theorem spinlock_mutual_exclusion_witness:
  "in_cs wit_m1 0 LK_kmem \<and> lpcs wit_m1 1 = Spin LK_kmem \<and> {d. in_cs wit_m1 d LK_kmem} = {0}"
proof -
  have "in_cs wit_m1 0 LK_kmem" "lpcs wit_m1 1 = Spin LK_kmem"
    by (simp_all add: wit_m1_def in_cs_def)
  with spinlock_mutual_exclusion [OF wit_m1_reachable, of 0 LK_kmem] show ?thesis by simp
qed

text \<open>
  C19. A CPU inside a critical section has interrupts off and a positive \<open>ncli\<close>, and when
  it reaches the end of \<open>release\<close> the final \<open>xchg\<close> and \<open>popcli\<close> return: neither of
  \<open>popcli\<close>'s panics is reachable from \<open>release\<close>.
\<close>

theorem critical_section_interrupts_off:
  assumes "reachable mach_init mstep s" and "in_cs s c lk"
  shows "\<not> c_if (scpus (sm s) c) \<and> 0 < c_ncli (scpus (sm s) c) \<and>
    (lpcs s c = Rel lk \<longrightarrow> (\<exists>t. release_leave c lk (sm s) = Ok () t))"
proof -
  have inv: "mach_inv s" by (rule sl.reachable_inv [OF assms(1)])
  have "lk \<in> in_flight s c" using assms(2) by (simp add: in_flight_def)
  then have "0 < card (in_flight s c)"
    using cli_invD(1) [of s c] inv unfolding mach_inv_def by (auto simp: card_gt_0_iff)
  then show ?thesis
    using cli_invD(2,3) [of s c] inv release_leave_returns [OF inv] unfolding mach_inv_def by auto
qed

theorem critical_section_interrupts_off_witness:
  "\<not> c_if (scpus (sm wit_m2) 0) \<and> (\<exists>t. release_leave 0 LK_kmem (sm wit_m2) = Ok () t)"
proof -
  have "in_cs wit_m2 0 LK_kmem" "lpcs wit_m2 0 = Rel LK_kmem"
    by (simp_all add: wit_m2_def in_cs_def)
  with critical_section_interrupts_off [OF wit_m2_reachable, of 0 LK_kmem] show ?thesis by simp
qed

section \<open>Locks as one CPU sees them\<close>

text \<open>
  The state at the bottom of every later component: the locks this CPU holds, latest first.
  By \<open>cli_inv\<close> the length of the list is \<open>cpu->ncli\<close>, and interrupts are enabled only if
  it is empty.
\<close>

record kcpu =
  held :: "lockid list"

definition acquire :: "lockid \<Rightarrow> ('x kcpu_scheme, unit) kop" where
  "acquire lk s = (if lk \<in> set (held s) then Panic ''acquire'' else Ok () (s\<lparr>held := lk # held s\<rparr>))"

definition release :: "lockid \<Rightarrow> ('x kcpu_scheme, unit) kop" where
  "release lk s = (if lk \<notin> set (held s) then Panic ''release''
                   else Ok () (s\<lparr>held := remove1 lk (held s)\<rparr>))"

definition holding :: "lockid \<Rightarrow> 'x kcpu_scheme \<Rightarrow> bool" where
  "holding lk s \<longleftrightarrow> lk \<in> set (held s)"

lemma acquire_apply [simp]:
  "lk \<notin> set (held s) \<Longrightarrow> acquire lk s = Ok () (s\<lparr>held := lk # held s\<rparr>)"
  by (simp add: acquire_def)

lemma release_apply [simp]:
  "lk \<in> set (held s) \<Longrightarrow> release lk s = Ok () (s\<lparr>held := remove1 lk (held s)\<rparr>)"
  by (simp add: release_def)

lemma runs_acquire [simp]:
  "runs (acquire lk) s Q \<longleftrightarrow> lk \<notin> set (held s) \<and> Q () (s\<lparr>held := lk # held s\<rparr>)"
  by (simp add: acquire_def runs_def)

lemma runs_release [simp]:
  "runs (release lk) s Q \<longleftrightarrow> lk \<in> set (held s) \<and> Q () (s\<lparr>held := remove1 lk (held s)\<rparr>)"
  by (simp add: release_def runs_def)

lemma ends_acquire [simp]:
  "ends (acquire lk) s Q B \<longleftrightarrow> (lk \<notin> set (held s) \<longrightarrow> Q () (s\<lparr>held := lk # held s\<rparr>))"
  by (simp add: acquire_def ends_def)

lemma ends_release [simp]:
  "ends (release lk) s Q B \<longleftrightarrow> (lk \<in> set (held s) \<longrightarrow> Q () (s\<lparr>held := remove1 lk (held s)\<rparr>))"
  by (simp add: release_def ends_def)

lemma noblock_acquire: "noblock (acquire lk)" and noblock_release: "noblock (release lk)"
  by (auto simp: noblock_def acquire_def release_def)

text \<open>The SMP state as CPU \<open>c\<close> sees it while no other CPU holds a lock.\<close>

definition cpu_view :: "nat \<Rightarrow> smp \<Rightarrow> kcpu \<Rightarrow> bool" where
  "cpu_view c s k \<longleftrightarrow> distinct (held k) \<and>
     (\<forall>lk. slocks s lk = (if lk \<in> set (held k) then \<lparr>locked = 1, lcpu = Some c\<rparr>
                          else \<lparr>locked = 0, lcpu = None\<rparr>)) \<and>
     c_ncli (scpus s c) = int (length (held k)) \<and>
     (c_if (scpus s c) \<longrightarrow> held k = [])"

definition same_outcome :: "('s \<Rightarrow> 't \<Rightarrow> bool) \<Rightarrow> (unit, 's) kres \<Rightarrow> (unit, 't) kres \<Rightarrow> bool" where
  "same_outcome R a b \<longleftrightarrow> (case b of
      Ok u t \<Rightarrow> (\<exists>s. a = Ok () s \<and> R s t)
    | Panic e \<Rightarrow> a = Panic e | Block t \<Rightarrow> (\<exists>s. a = Block s \<and> R s t) | Hang \<Rightarrow> a = Hang)"

lemma remove1_single: "length xs = Suc 0 \<Longrightarrow> x \<in> set xs \<Longrightarrow> remove1 x xs = []"
  by (cases xs) auto

lemma int_length_remove1: "x \<in> set xs \<Longrightarrow> int (length (remove1 x xs)) = int (length xs) - 1"
  using length_pos_if_in_set [of x xs] by (simp add: length_remove1 of_nat_diff Suc_le_eq)

text \<open>
  C20. The one-CPU view is implemented by \<open>spinlock.c\<close>: from related states \<open>acquire\<close> and
  \<open>release\<close> panic with the same message or return in related states, where \<open>ncli\<close> is the
  number of locks held.
\<close>

theorem spinlock_refines_view:
  assumes "cpu_view c s k"
  shows "same_outcome (cpu_view c) (sp_acquire c lk s) (acquire lk k) \<and>
         same_outcome (cpu_view c) (sp_release c lk s) (release lk k)"
proof
  show "same_outcome (cpu_view c) (sp_acquire c lk s) (acquire lk k)"
    using assms
    by (auto simp: same_outcome_def cpu_view_def sp_acquire_def acquire_def lock_op_defs Let_def)
  show "same_outcome (cpu_view c) (sp_release c lk s) (release lk k)"
    using assms
    by (auto simp: same_outcome_def cpu_view_def sp_release_def release_def lock_op_defs Let_def
        remove1_single int_length_remove1)
qed

theorem spinlock_refines_view_witness:
  "same_outcome (cpu_view 0) (sp_acquire 0 LK_log (sm wit_m0)) (acquire LK_log \<lparr>held = []\<rparr>) \<and>
   sp_acquire 0 LK_log (sm wit_m0) \<noteq> Hang"
proof -
  have v: "cpu_view 0 (sm wit_m0) \<lparr>held = []\<rparr>"
    by (simp add: cpu_view_def wit_m0_def wit_cpu_def)
  with spinlock_refines_view [OF v, of LK_log] show ?thesis
    by (auto simp: same_outcome_def)
qed

end
