(* ===== verification/ConsoleOut.thy ===== *)
theory ConsoleOut
  imports Spinlock
begin

text \<open>
  The output half of \<open>console.c\<close> and \<open>uartputc\<close>: the CGA text memory with its cursor, the
  bytes sent to the serial port, \<open>printint\<close> and \<open>cprintf\<close>. Every later component can
  print, so this is the second layer of the kernel state.
\<close>

section \<open>State\<close>

text \<open>
  \<open>crt\<close> is the CGA memory by cell, \<open>cpos\<close> the cursor registers 14 and 15 of the CRT
  controller, \<open>uart_out\<close> what has been written to \<open>COM1\<close>, latest last.
\<close>

record kcons = kcpu +
  locking :: bool
  panicked :: bool
  uart :: bool
  uart_out :: "uchar list"
  crt :: "nat \<Rightarrow> ushort"
  cpos :: int

definition BACKSPACE :: int where
  "BACKSPACE = 0x100"

definition uartputc :: "int \<Rightarrow> ('x kcons_scheme, unit) kop" where
  "uartputc c = kmod (\<lambda>s. if uart s then s\<lparr>uart_out := uart_out s @ [word_of_int c]\<rparr> else s)"

definition crt_cell :: "int \<Rightarrow> ushort" where
  "crt_cell c = (word_of_int c AND 0xFF) OR 0x0700"

text \<open>
  The cursor registers hold 16 bits, so \<open>pos\<close> is never negative when it is read. The
  \<open>memmove\<close> and \<open>memset\<close> of the scroll are written out by cell.
\<close>

definition cga_scroll :: "int \<Rightarrow> (nat \<Rightarrow> ushort) \<Rightarrow> nat \<Rightarrow> ushort" where
  "cga_scroll pos m i =
     (if nat pos \<le> i \<and> i < 24 * 80 then 0 else if i < 23 * 80 then m (i + 80) else m i)"

definition cgaputc :: "int \<Rightarrow> ('x kcons_scheme, unit) kop" where
  "cgaputc c =
     kbind (kget cpos) (\<lambda>pos0.
     kbind (if c = 10 then kret (pos0 + (80 - pos0 mod 80))
            else if c = BACKSPACE then kret (if pos0 > 0 then pos0 - 1 else pos0)
            else kthen (kmod (\<lambda>s. s\<lparr>crt := (crt s)(nat pos0 := crt_cell c)\<rparr>)) (kret (pos0 + 1))) (\<lambda>pos.
     kthen (kguard (pos < 0 \<or> pos > 25 * 80) ''pos under/overflow'') (
     kbind (if pos div 80 \<ge> 24
            then kthen (kmod (\<lambda>s. s\<lparr>crt := cga_scroll (pos - 80) (crt s)\<rparr>)) (kret (pos - 80))
            else kret pos) (\<lambda>pos.
     kmod (\<lambda>s. s\<lparr>crt := (crt s)(nat pos := crt_cell 32), cpos := pos\<rparr>)))))"

definition consputc :: "int \<Rightarrow> ('x kcons_scheme, unit) kop" where
  "consputc c =
     kbind (kget panicked) (\<lambda>p. if p then (\<lambda>_. Hang) else
     kthen (if c = BACKSPACE then kthen (uartputc 8) (kthen (uartputc 32) (uartputc 8))
            else uartputc c)
       (cgaputc c))"

section \<open>Formatted output\<close>

definition digits :: "uchar list" where
  "digits = map (\<lambda>c. of_char c) ''0123456789abcdef''"

text \<open>The digit loop of \<open>printint\<close>: least significant digit first, at least one.\<close>

function digits_rev :: "nat \<Rightarrow> nat \<Rightarrow> uchar list" where
  "digits_rev x base =
     digits ! (x mod base) #
       (if base < 2 \<or> x div base = 0 then [] else digits_rev (x div base) base)"
  by auto
termination
  by (relation "measure fst") (auto simp: div_less_dividend intro!: div_less_dividend gr0I)

declare digits_rev.simps [simp del]

definition printint_buf :: "uint \<Rightarrow> nat \<Rightarrow> bool \<Rightarrow> uchar list" where
  "printint_buf xx base sign =
     (let neg = sign \<and> sint xx < 0; x = (if neg then - xx else xx)
      in digits_rev (unat x) base @ (if neg then [of_char CHR ''-''] else []))"

definition printint :: "uint \<Rightarrow> nat \<Rightarrow> bool \<Rightarrow> ('x kcons_scheme, unit) kop" where
  "printint xx base sign = kfor (rev (printint_buf xx base sign)) (\<lambda>b. consputc (sint b))"

text \<open>
  A variable argument is a word together with the characters up to the first NUL at that
  address, which only \<open>%s\<close> looks at. A call that supplies too few reads the zero argument.
\<close>

type_synonym carg = "uint \<times> uchar list"

definition next_arg :: "carg list \<Rightarrow> carg" where
  "next_arg as = (case as of [] \<Rightarrow> (0, []) | a # _ \<Rightarrow> a)"

definition null_str :: "uchar list" where
  "null_str = map (\<lambda>c. of_char c) ''(null)''"

fun fmt_loop :: "uchar list \<Rightarrow> carg list \<Rightarrow> ('x kcons_scheme, unit) kop" where
  "fmt_loop [] as = kret ()"
| "fmt_loop [c] as = (if c = 0 \<or> c = of_char CHR ''%'' then kret () else consputc (uint c))"
| "fmt_loop (c # d # fmt) as =
     (if c = 0 then kret ()
      else if c \<noteq> of_char CHR ''%'' then kthen (consputc (uint c)) (fmt_loop (d # fmt) as)
      else if d = 0 then kret ()
      else if d = of_char CHR ''d'' then
        kthen (printint (fst (next_arg as)) 10 True) (fmt_loop fmt (tl as))
      else if d = of_char CHR ''x'' \<or> d = of_char CHR ''p'' then
        kthen (printint (fst (next_arg as)) 16 False) (fmt_loop fmt (tl as))
      else if d = of_char CHR ''s'' then
        kthen (kfor (if fst (next_arg as) = 0 then null_str else snd (next_arg as))
                 (\<lambda>b. consputc (sint b)))
          (fmt_loop fmt (tl as))
      else if d = of_char CHR ''%'' then kthen (consputc (uint d)) (fmt_loop fmt as)
      else kthen (consputc (uint c)) (kthen (consputc (uint d)) (fmt_loop fmt as)))"

definition cprintf :: "string \<Rightarrow> carg list \<Rightarrow> ('x kcons_scheme, unit) kop" where
  "cprintf fmt as =
     kbind (kget locking) (\<lambda>lk.
     kthen (kwhen lk (acquire LK_cons)) (
     kthen (fmt_loop (map of_char fmt) as)
       (kwhen lk (release LK_cons))))"

section \<open>The cursor stays on the screen\<close>

definition cons_ok :: "'x kcons_scheme \<Rightarrow> bool" where
  "cons_ok s \<longleftrightarrow> \<not> panicked s \<and> 0 \<le> cpos s \<and> cpos s < 24 * 80"

text \<open>What a print may change: everything else of the state is the same.\<close>

definition cons_upd :: "'x kcons_scheme \<Rightarrow> uchar list \<Rightarrow> 'x kcons_scheme \<Rightarrow> bool" where
  "cons_upd s out t \<longleftrightarrow> cons_ok t \<and>
     t = s\<lparr>uart_out := uart_out s @ (if uart s then out else []), crt := crt t, cpos := cpos t\<rparr>"

lemma cons_updI:
  "cons_ok t \<Longrightarrow> t = s\<lparr>uart_out := uart_out s @ (if uart s then out else []), crt := c, cpos := p\<rparr>
   \<Longrightarrow> cons_upd s out t"
  unfolding cons_upd_def by simp

lemma cons_updE:
  assumes "cons_upd s out t"
  obtains c p where "cons_ok t"
    "t = s\<lparr>uart_out := uart_out s @ (if uart s then out else []), crt := c, cpos := p\<rparr>"
  using assms unfolding cons_upd_def by blast

lemma cons_upd_refl: "cons_ok s \<Longrightarrow> cons_upd s [] s"
  by (simp add: cons_upd_def)

lemma cons_upd_trans:
  assumes "cons_upd s xs t" "cons_upd t ys u"
  shows "cons_upd s (xs @ ys) u"
proof -
  from assms(1) obtain c p where t: "t = s\<lparr>uart_out := uart_out s @ (if uart s then xs else []), crt := c, cpos := p\<rparr>"
    by (rule cons_updE)
  from assms(2) obtain d q where u: "cons_ok u"
    "u = t\<lparr>uart_out := uart_out t @ (if uart t then ys else []), crt := d, cpos := q\<rparr>"
    by (rule cons_updE)
  show ?thesis by (rule cons_updI [OF u(1), where c = d and p = q]) (simp add: u(2) t)
qed

lemma cons_updD:
  assumes "cons_upd s out t"
  shows "cons_ok t" "held t = held s" "locking t = locking s" "uart t = uart s"
    "panicked t = panicked s" "kcons.more t = kcons.more s"
    "uart_out t = uart_out s @ (if uart s then out else [])"
proof -
  from assms obtain c p where "cons_ok t"
    and t: "t = s\<lparr>uart_out := uart_out s @ (if uart s then out else []), crt := c, cpos := p\<rparr>"
    by (rule cons_updE)
  then show "cons_ok t" by simp
  show "held t = held s" "locking t = locking s" "uart t = uart s"
    "panicked t = panicked s" "kcons.more t = kcons.more s"
    "uart_out t = uart_out s @ (if uart s then out else [])"
    by (simp_all add: t)
qed

lemma cgaputc_ok:
  fixes s :: "'a kcons_scheme"
  assumes "cons_ok s"
  shows "\<exists>m p. cgaputc c s = Ok () (s\<lparr>crt := m, cpos := p\<rparr>) \<and> 0 \<le> p \<and> p < 24 * 80"
proof -
  define pos where "pos = (if c = 10 then cpos s + (80 - cpos s mod 80)
    else if c = BACKSPACE then (if cpos s > 0 then cpos s - 1 else cpos s) else cpos s + 1)"
  define m where "m = (if c = 10 \<or> c = BACKSPACE then crt s else (crt s)(nat (cpos s) := crt_cell c))"
  have nl: "pos + (80 - pos mod 80) \<le> 1920 \<and> 0 \<le> pos + (80 - pos mod 80)"
    if "0 \<le> pos" "pos < 1920" for pos :: int
  proof -
    have "80 * (pos div 80) + pos mod 80 = pos" "pos mod 80 < 80" by simp_all
    moreover have "pos div 80 < 24" using that by (simp add: div_less_iff_less_mult)
    ultimately show ?thesis using that by linarith
  qed
  have pos: "0 \<le> pos" "pos \<le> 1920"
    using assms nl [of "cpos s"] unfolding pos_def cons_ok_def by auto
  define tail :: "int \<Rightarrow> ('a kcons_scheme, unit) kop" where "tail pos = kthen (kguard (pos < 0 \<or> pos > 25 * 80) ''pos under/overflow'') (
     kbind (if pos div 80 \<ge> 24
            then kthen (kmod (\<lambda>s. s\<lparr>crt := cga_scroll (pos - 80) (crt s)\<rparr>)) (kret (pos - 80))
            else kret pos) (\<lambda>pos.
     kmod (\<lambda>s. s\<lparr>crt := (crt s)(nat pos := crt_cell 32), cpos := pos\<rparr>)))"
    for pos :: int
  have cga: "cgaputc c s = tail pos (s\<lparr>crt := m\<rparr>)"
    unfolding cgaputc_def tail_def [symmetric] pos_def m_def
    by (cases "c = 10"; cases "c = BACKSPACE"; cases "cpos s > 0") (simp_all add: BACKSPACE_def)
  show ?thesis
  proof (cases "pos = 1920")
    case True
    then show ?thesis by (simp add: cga tail_def) (intro exI conjI, rule refl, simp_all)
  next
    case False
    with pos have "pos div 80 < 24" "\<not> pos < 0" "\<not> 2000 < pos" "pos < 1920" by linarith+
    with pos(1) show ?thesis by (simp add: cga tail_def) (intro exI conjI, rule refl, simp_all)
  qed
qed

definition putc_bytes :: "int \<Rightarrow> uchar list" where
  "putc_bytes c = (if c = BACKSPACE then [8, 32, 8] else [word_of_int c])"

lemma consputc_runs:
  assumes "cons_ok s"
  shows "runs (consputc c) s (\<lambda>_. cons_upd s (putc_bytes c))"
proof -
  let ?u = "s\<lparr>uart_out := uart_out s @ (if uart s then putc_bytes c else [])\<rparr>"
  have "cons_ok ?u" using assms by (simp add: cons_ok_def)
  from cgaputc_ok [OF this, of c] obtain m p
    where cga: "cgaputc c ?u = Ok () (?u\<lparr>crt := m, cpos := p\<rparr>)" and p: "0 \<le> p" "p < 24 * 80"
    by blast
  have "consputc c s = cgaputc c ?u"
    using assms by (simp add: consputc_def uartputc_def cons_ok_def putc_bytes_def)
  moreover have "cons_upd s (putc_bytes c) (?u\<lparr>crt := m, cpos := p\<rparr>)"
    using assms p by (intro cons_updI) (simp_all add: cons_ok_def)
  ultimately show ?thesis using cga by (simp add: runs_def)
qed

lemma consputs_runs:
  "cons_ok s \<Longrightarrow> runs (kfor cs consputc) s (\<lambda>_. cons_upd s (concat (map putc_bytes cs)))"
proof (induction cs arbitrary: s)
  case Nil
  then show ?case by (simp add: cons_upd_refl)
next
  case (Cons c cs)
  from consputc_runs [OF Cons.prems, of c] obtain t
    where c: "consputc c s = Ok () t" and t: "cons_upd s (putc_bytes c) t"
    by (auto simp: runs_iff)
  have "runs (kfor cs consputc) t (\<lambda>_. cons_upd s (putc_bytes c @ concat (map putc_bytes cs)))"
    by (rule runs_mono [OF Cons.IH [OF cons_updD(1) [OF t]]]) (rule cons_upd_trans [OF t])
  with c show ?case by (simp add: runs_def)
qed

section \<open>\<open>cprintf\<close> against a pure formatter\<close>

definition int_chars :: "uint \<Rightarrow> nat \<Rightarrow> bool \<Rightarrow> int list" where
  "int_chars x base sign = map sint (rev (printint_buf x base sign))"

fun fmt_chars :: "uchar list \<Rightarrow> carg list \<Rightarrow> int list" where
  "fmt_chars [] as = []"
| "fmt_chars [c] as = (if c = 0 \<or> c = of_char CHR ''%'' then [] else [uint c])"
| "fmt_chars (c # d # fmt) as =
     (if c = 0 then []
      else if c \<noteq> of_char CHR ''%'' then uint c # fmt_chars (d # fmt) as
      else if d = 0 then []
      else if d = of_char CHR ''d'' then int_chars (fst (next_arg as)) 10 True @ fmt_chars fmt (tl as)
      else if d = of_char CHR ''x'' \<or> d = of_char CHR ''p'' then
        int_chars (fst (next_arg as)) 16 False @ fmt_chars fmt (tl as)
      else if d = of_char CHR ''s'' then
        map sint (if fst (next_arg as) = 0 then null_str else snd (next_arg as)) @ fmt_chars fmt (tl as)
      else if d = of_char CHR ''%'' then uint d # fmt_chars fmt as
      else uint c # uint d # fmt_chars fmt as)"

lemma kfor_map: "kfor (map g xs) f = kfor xs (\<lambda>x. f (g x))"
  by (induction xs) simp_all

lemma kthen_unit [simp]: "kthen m (kret ()) = m"
  by (rule ext) (simp add: kthen_def kbind_def split: kres.split)

lemma fmt_loop_chars: "(fmt_loop fmt as :: ('x kcons_scheme, unit) kop) = kfor (fmt_chars fmt as) consputc"
proof (induction "length fmt" arbitrary: fmt as rule: less_induct)
  case less
  note IH = less
  let ?ch = "\<lambda>x. of_char x :: uchar"
  show ?case
  proof (cases "(fmt, as)" rule: fmt_loop.cases)
    case (3 c d fmt' as')
    then have IH': "(fmt_loop fmt' bs :: ('x kcons_scheme, unit) kop) = kfor (fmt_chars fmt' bs) consputc"
      "(fmt_loop (d # fmt') bs :: ('x kcons_scheme, unit) kop) = kfor (fmt_chars (d # fmt') bs) consputc" for bs
      using IH by auto
    consider "c = 0" | "c \<noteq> 0" "c \<noteq> ?ch CHR ''%''"
    | "c = ?ch CHR ''%''" "d = 0" | "c = ?ch CHR ''%''" "d = ?ch CHR ''d''"
    | "c = ?ch CHR ''%''" "d = ?ch CHR ''x''" | "c = ?ch CHR ''%''" "d = ?ch CHR ''p''"
    | "c = ?ch CHR ''%''" "d = ?ch CHR ''s''" | "c = ?ch CHR ''%''" "d = ?ch CHR ''%''"
    | "c = ?ch CHR ''%''" "d \<notin> {0, ?ch CHR ''d'', ?ch CHR ''x'', ?ch CHR ''p'', ?ch CHR ''s'', ?ch CHR ''%''}"
      by blast
    then show ?thesis
      using 3 by cases (simp_all add: IH' printint_def int_chars_def kfor_append kfor_map)
  qed simp_all
qed

definition fmt_bytes :: "string \<Rightarrow> carg list \<Rightarrow> uchar list" where
  "fmt_bytes fmt as = concat (map putc_bytes (fmt_chars (map of_char fmt) as))"

lemma cprintf_runs:
  assumes "cons_ok s" and "locking s \<Longrightarrow> LK_cons \<notin> set (held s)"
  shows "runs (cprintf fmt as) s (\<lambda>_. cons_upd s (fmt_bytes fmt as))"
proof (cases "locking s")
  case True
  let ?s = "s\<lparr>held := LK_cons # held s\<rparr>"
  have "cons_ok ?s" using assms(1) by (simp add: cons_ok_def)
  from consputs_runs [OF this] obtain t
    where loop: "fmt_loop (map of_char fmt) as ?s = Ok () t" and t: "cons_upd ?s (fmt_bytes fmt as) t"
    by (auto simp: runs_iff fmt_loop_chars fmt_bytes_def)
  from t obtain c p where t': "cons_ok t" "t = ?s\<lparr>uart_out := uart_out ?s @
      (if uart ?s then fmt_bytes fmt as else []), crt := c, cpos := p\<rparr>"
    by (rule cons_updE)
  then have "held t = LK_cons # held s" by simp
  with loop True assms(2) have "cprintf fmt as s = Ok () (t\<lparr>held := held s\<rparr>)"
    by (simp add: cprintf_def)
  moreover have "cons_upd s (fmt_bytes fmt as) (t\<lparr>held := held s\<rparr>)"
  proof (rule cons_updI)
    show "cons_ok (t\<lparr>held := held s\<rparr>)" using t'(1) by (simp add: cons_ok_def)
  qed (simp add: t'(2))
  ultimately show ?thesis by (simp add: runs_def)
next
  case False
  with consputs_runs [OF assms(1)] show ?thesis
    by (simp add: cprintf_def fmt_loop_chars fmt_bytes_def)
qed

section \<open>Numbers\<close>

primrec digits_val :: "nat \<Rightarrow> uchar list \<Rightarrow> nat" where
  "digits_val base [] = 0"
| "digits_val base (d # ds) =
     (case find_idx (\<lambda>e. e = d) digits of None \<Rightarrow> 0 | Some k \<Rightarrow> k) + base * digits_val base ds"

lemma find_digit: "k < 16 \<Longrightarrow> find_idx (\<lambda>e. e = digits ! k) digits = Some k"
proof -
  assume "k < 16"
  moreover have "distinct digits" "length digits = 16" by (simp_all add: digits_def)
  ultimately show ?thesis by (simp add: find_idx_nth)
qed

lemma digits_val_rev: "1 < base \<Longrightarrow> base \<le> 16 \<Longrightarrow> digits_val base (digits_rev x base) = x"
proof (induction x base rule: digits_rev.induct)
  case (1 x base)
  then have "x mod base < 16" using mod_less_divisor [of base x] by linarith
  moreover have "x mod base = x" if "x div base = 0"
    using that mult_div_mod_eq [of base x] by simp
  ultimately show ?case
    using 1 by (subst digits_rev.simps) (auto simp: find_digit not_less)
qed

lemma length_digits_rev: "1 < base \<Longrightarrow> x < base ^ Suc k \<Longrightarrow> length (digits_rev x base) \<le> Suc k"
proof (induction k arbitrary: x)
  case 0
  then show ?case by (subst digits_rev.simps) simp
next
  case (Suc k)
  then have "x div base < base ^ Suc k" by (simp add: div_less_iff_less_mult mult.commute)
  from Suc.IH [OF Suc.prems(1) this] show ?case
    by (subst digits_rev.simps) simp
qed

section \<open>Properties\<close>

text \<open>
  C24. \<open>cprintf\<close> returns from every state whose cursor is on the screen and where the
  console lock is free: it never reaches the \<open>pos under/overflow\<close> panic, it sends exactly the
  formatted bytes to the serial port, leaves the cursor on the screen, and changes nothing
  but the two output devices.
\<close>

theorem cprintf_output:
  assumes "cons_ok s" and "locking s \<Longrightarrow> LK_cons \<notin> set (held s)"
  shows "\<exists>c p. cprintf fmt as s =
      Ok () (s\<lparr>uart_out := uart_out s @ (if uart s then fmt_bytes fmt as else []), crt := c, cpos := p\<rparr>)
    \<and> 0 \<le> p \<and> p < 24 * 80"
proof -
  from cprintf_runs [OF assms] obtain t
    where op: "cprintf fmt as s = Ok () t" and "cons_upd s (fmt_bytes fmt as) t"
    by (auto simp: runs_iff)
  from this(2) obtain c p where "cons_ok t" and t: "t = s\<lparr>uart_out := uart_out s @
      (if uart s then fmt_bytes fmt as else []), crt := c, cpos := p\<rparr>"
    by (rule cons_updE)
  then have "0 \<le> p" "p < 24 * 80" by (simp_all add: cons_ok_def)
  with op t show ?thesis by blast
qed

definition wit_cons :: kcons where
  "wit_cons = \<lparr>held = [], locking = True, panicked = False, uart = True, uart_out = [],
     crt = \<lambda>_. 0, cpos = 1919\<rparr>"

theorem cprintf_output_witness:
  "\<exists>c p. cprintf ''a%d'' [(- 12, [])] wit_cons =
     Ok () (wit_cons\<lparr>uart_out := [97, 45, 49, 50], crt := c, cpos := p\<rparr>) \<and> 0 \<le> p \<and> p < 24 * 80"
proof -
  have "fmt_bytes ''a%d'' [(- 12, [])] = [97, 45, 49, 50]"
    by code_simp
  moreover have "cons_ok wit_cons" "LK_cons \<notin> set (held wit_cons)"
    by (simp_all add: cons_ok_def wit_cons_def)
  ultimately show ?thesis
    using cprintf_output [of wit_cons "''a%d''" "[(- 12, [])]"] by (simp add: wit_cons_def)
qed

text \<open>
  C25. The buffer \<open>printint\<close> fills reads back as the number: for base 10 and 16 the digits,
  least significant first, have the value of the magnitude, a minus sign is present exactly
  for a negative signed argument, and at most 11 of the 16 bytes of \<open>buf\<close> are used.
\<close>

theorem printint_roundtrip:
  assumes "base = 10 \<or> base = 16"
  shows "\<exists>ds. printint_buf x base sign = ds @ (if sign \<and> sint x < 0 then [45] else []) \<and>
    digits_val base ds = unat (if sign \<and> sint x < 0 then - x else x) \<and>
    length (printint_buf x base sign) \<le> 11"
proof -
  let ?y = "if sign \<and> sint x < 0 then - x else x"
  have "unat ?y < 2 ^ 32" by (simp add: unat_uint_bound)
  also have "\<dots> \<le> base ^ Suc 9" using assms by auto
  finally have "length (digits_rev (unat ?y) base) \<le> Suc 9"
    using assms by (intro length_digits_rev) auto
  then show ?thesis
    using assms digits_val_rev [of base "unat ?y"]
    by (auto simp: printint_buf_def Let_def)
qed

theorem printint_roundtrip_witness:
  "length (printint_buf (- 2147483648) 10 True) \<le> 11 \<and> printint_buf 0 10 True = [48]"
proof
  show "length (printint_buf (- 2147483648) 10 True) \<le> 11"
    using printint_roundtrip [of 10 "- 2147483648" True] by blast
  show "printint_buf 0 10 True = [48]" by code_simp
qed

end
