(* ===== verification/Kalloc.thy ===== *)
theory Kalloc
  imports CString ConsoleOut
begin

text \<open>
  \<open>kalloc.c\<close>: the free pages form a linked list threaded through the pages themselves. The
  model keeps the byte memory and the list head; the invariant says which list of pages the
  pointers spell, and the lemmas give the effect of \<open>kfree\<close>, \<open>kalloc\<close> and \<open>freerange\<close> on
  that list. \<open>page_allocator\<close> is the contract the virtual memory code relies on.
\<close>

section \<open>State and operations\<close>

definition PGSIZE :: uint where "PGSIZE = 4096"
definition KERNBASE :: uint where "KERNBASE = 0x80000000"
definition PHYSTOP :: uint where "PHYSTOP = 0xE000000"

definition PGROUNDUP :: "uint \<Rightarrow> uint" where
  "PGROUNDUP sz = (sz + PGSIZE - 1) AND NOT (PGSIZE - 1)"

definition PGROUNDDOWN :: "uint \<Rightarrow> uint" where
  "PGROUNDDOWN a = a AND NOT (PGSIZE - 1)"

definition v2p :: "uint \<Rightarrow> uint" where "v2p a = a - KERNBASE"
definition p2v :: "uint \<Rightarrow> uint" where "p2v a = a + KERNBASE"

text \<open>\<open>mem\<close> is memory at kernel virtual addresses, \<open>kend\<close> the linker's symbol \<open>end\<close>.\<close>

record kmst = kcons +
  mem :: memory
  kend :: uint
  use_lock :: bool
  freelist :: uint

definition kfree :: "uint \<Rightarrow> ('x kmst_scheme, unit) kop" where
  "kfree v =
     kbind (kget kend) (\<lambda>e.
     kthen (kguard (v mod PGSIZE \<noteq> 0 \<or> v < e \<or> v2p v \<ge> PHYSTOP) ''kfree'') (
     kthen (kmod (\<lambda>s. s\<lparr>mem := memset (mem s) v 1 PGSIZE\<rparr>)) (
     kbind (kget use_lock) (\<lambda>ul.
     kthen (kwhen ul (acquire LK_kmem)) (
     kthen (kmod (\<lambda>s. s\<lparr>mem := st32 (mem s) v (freelist s), freelist := v\<rparr>))
       (kwhen ul (release LK_kmem)))))))"

definition kalloc :: "('x kmst_scheme, uint) kop" where
  "kalloc =
     kbind (kget use_lock) (\<lambda>ul.
     kthen (kwhen ul (acquire LK_kmem)) (
     kbind (kget freelist) (\<lambda>r.
     kthen (kwhen (r \<noteq> 0) (kmod (\<lambda>s. s\<lparr>freelist := ld32 (mem s) r\<rparr>))) (
     kthen (kwhen ul (release LK_kmem)) (kret r)))))"

text \<open>
  The loop of \<open>freerange\<close>, with the number of pages of the address space as fuel: a page
  that has been freed is below \<open>PHYSTOP\<close>, so the loop ends or \<open>kfree\<close> panics before that.
\<close>

primrec freerange_loop :: "nat \<Rightarrow> uint \<Rightarrow> uint \<Rightarrow> ('x kmst_scheme, unit) kop" where
  "freerange_loop 0 p vend = (\<lambda>_. Hang)"
| "freerange_loop (Suc n) p vend =
     (if p + PGSIZE \<le> vend then kthen (kfree p) (freerange_loop n (p + PGSIZE) vend) else kret ())"

definition freerange :: "uint \<Rightarrow> uint \<Rightarrow> ('x kmst_scheme, unit) kop" where
  "freerange vstart vend = freerange_loop 0x100000 (PGROUNDUP vstart) vend"

definition kinit1 :: "uint \<Rightarrow> uint \<Rightarrow> ('x kmst_scheme, unit) kop" where
  "kinit1 vstart vend = kthen (kmod (\<lambda>s. s\<lparr>use_lock := False\<rparr>)) (freerange vstart vend)"

definition kinit2 :: "uint \<Rightarrow> uint \<Rightarrow> ('x kmst_scheme, unit) kop" where
  "kinit2 vstart vend = kthen (freerange vstart vend) (kmod (\<lambda>s. s\<lparr>use_lock := True\<rparr>))"

section \<open>The free list\<close>

definition aligned :: "uint \<Rightarrow> bool" where
  "aligned v \<longleftrightarrow> v mod PGSIZE = 0"

text \<open>A page \<open>kfree\<close> accepts.\<close>

definition page_ok :: "uint \<Rightarrow> uint \<Rightarrow> bool" where
  "page_ok e v \<longleftrightarrow> aligned v \<and> e \<le> v \<and> v2p v < PHYSTOP"

fun flist :: "memory \<Rightarrow> uint \<Rightarrow> uint list \<Rightarrow> bool" where
  "flist m p [] \<longleftrightarrow> p = 0"
| "flist m p (x # xs) \<longleftrightarrow> p = x \<and> x \<noteq> 0 \<and> flist m (ld32 m x) xs"

definition free_pages :: "'x kmst_scheme \<Rightarrow> uint list \<Rightarrow> bool" where
  "free_pages s xs \<longleftrightarrow> flist (mem s) (freelist s) xs \<and> distinct xs \<and>
     (\<forall>x\<in>set xs. page_ok (kend s) x) \<and> KERNBASE \<le> kend s"

lemma flist_unique: "flist m p xs \<Longrightarrow> flist m p ys \<Longrightarrow> xs = ys"
proof (induction xs arbitrary: p ys)
  case Nil
  then show ?case by (cases ys) auto
next
  case (Cons x xs)
  then show ?case by (cases ys) auto
qed

lemma flist_cong: "flist m p xs \<Longrightarrow> (\<And>x. x \<in> set xs \<Longrightarrow> ld32 m' x = ld32 m x) \<Longrightarrow> flist m' p xs"
  by (induction xs arbitrary: p) auto

text \<open>Pages are disjoint: an address belongs to one page.\<close>

definition in_page :: "uint \<Rightarrow> uint \<Rightarrow> bool" where
  "in_page v a \<longleftrightarrow> a - v < PGSIZE"

lemma unat_aligned: "aligned v \<longleftrightarrow> unat v mod 4096 = 0"
proof -
  have "unat (v mod PGSIZE) = unat v mod 4096" by (simp add: PGSIZE_def unat_mod)
  then show ?thesis unfolding aligned_def by (metis unat_0 unat_eq_zero)
qed

lemma in_page_iff:
  assumes "aligned v"
  shows "in_page v a \<longleftrightarrow> unat a div 4096 = unat v div 4096"
proof
  have v: "unat v = 4096 * (unat v div 4096)"
    using assms unfolding unat_aligned by (metis add.right_neutral mult_div_mod_eq)
  have vb: "unat v + 4096 \<le> 4294967296"
  proof -
    have "unat v div 4096 < 1048576" using unat_uint_bound [of v] by (simp add: div_less_iff_less_mult)
    then show ?thesis using v by linarith
  qed
  show "unat a div 4096 = unat v div 4096" if "in_page v a"
  proof -
    from that have y: "unat (a - v) < 4096"
      by (simp add: in_page_def PGSIZE_def word_less_nat_alt)
    have "unat (v + y) = unat v + unat y" if "unat y < 4096" for y
      using that vb by (simp add: unat_word_ariths(1))
    from this [OF y] have "unat a = 4096 * (unat v div 4096) + unat (a - v)" using v by simp
    then show ?thesis using y by simp
  qed
  show "in_page v a" if eq: "unat a div 4096 = unat v div 4096"
  proof -
    define r where "r = unat a mod 4096"
    have "unat a = unat v + r"
      using mult_div_mod_eq [of 4096 "unat a"] v eq by (simp add: r_def)
    then have "unat a = unat (v + of_nat r)"
      using vb by (subst unat_add_of_nat) (simp_all add: r_def)
    then have "a - v = of_nat r" by (simp add: word_unat_eq_iff [symmetric])
    then show ?thesis
      by (simp add: in_page_def PGSIZE_def word_less_nat_alt unat_of_nat_uint r_def)
  qed
qed

lemma page_disjoint:
  assumes "aligned v" "aligned w" "in_page v a" "in_page w a"
  shows "v = w"
proof -
  have "unat v div 4096 = unat w div 4096" using assms by (simp add: in_page_iff)
  moreover have "unat v mod 4096 = unat w mod 4096" using assms(1,2) by (simp add: unat_aligned)
  ultimately have "unat v = unat w"
    using mult_div_mod_eq [of 4096 "unat v"] mult_div_mod_eq [of 4096 "unat w"] by metis
  then show ?thesis by (simp only: word_unat_eq_iff)
qed

lemma in_page_off: "y < PGSIZE \<Longrightarrow> in_page v (v + y)"
  by (simp add: in_page_def)

lemma in_page_self: "in_page v v" "in_page v (v + 1)" "in_page v (v + 2)" "in_page v (v + 3)"
  by (simp_all add: in_page_def PGSIZE_def)

lemma ld32_cong:
  assumes "\<And>a. in_page x a \<Longrightarrow> m' a = m a"
  shows "ld32 m' x = ld32 m x"
  using in_page_self [of x] by (simp add: ld32_def assms)

text \<open>The memory after \<open>kfree\<close>: junk in the page, the old head in its first word.\<close>

definition freed_mem :: "memory \<Rightarrow> uint \<Rightarrow> uint \<Rightarrow> memory" where
  "freed_mem m v f = st32 (memset m v 1 PGSIZE) v f"

lemma freed_mem_out: "\<not> in_page v a \<Longrightarrow> freed_mem m v f a = m a"
proof -
  assume a: "\<not> in_page v a"
  then have "4 \<le> a - v" by (simp add: in_page_def PGSIZE_def word_le_nat_alt word_less_nat_alt)
  then show ?thesis
    using a memset_off [of m v 1 PGSIZE "a - v"] by (simp add: freed_mem_def st32_out in_page_def)
qed

abbreviation kmem_unlocked :: "'x kmst_scheme \<Rightarrow> bool" where
  "kmem_unlocked s \<equiv> use_lock s \<longrightarrow> LK_kmem \<notin> set (held s)"

lemma kfree_ok:
  assumes "page_ok (kend s) v" "kmem_unlocked s"
  shows "kfree v s = Ok () (s\<lparr>mem := freed_mem (mem s) v (freelist s), freelist := v\<rparr>)"
  using assms by (cases "use_lock s") (auto simp: kfree_def page_ok_def aligned_def freed_mem_def)

lemma kfree_panics: "\<not> page_ok (kend s) v \<Longrightarrow> kfree v s = Panic ''kfree''"
  by (auto simp: kfree_def page_ok_def aligned_def)

lemma kalloc_ok:
  "kmem_unlocked s \<Longrightarrow> kalloc s = Ok (freelist s)
     (if freelist s = 0 then s else s\<lparr>freelist := ld32 (mem s) (freelist s)\<rparr>)"
  by (cases "use_lock s") (simp_all add: kalloc_def)

lemma page_ok_nonzero: "page_ok e v \<Longrightarrow> KERNBASE \<le> e \<Longrightarrow> v \<noteq> 0"
  by (auto simp: page_ok_def KERNBASE_def)

lemma page_ok_aligned: "page_ok e v \<Longrightarrow> aligned v"
  by (simp add: page_ok_def)

lemma free_pages_kfree:
  assumes fp: "free_pages s xs" and v: "page_ok (kend s) v" "v \<notin> set xs"
  shows "free_pages (s\<lparr>mem := freed_mem (mem s) v (freelist s), freelist := v\<rparr>) (v # xs)"
proof -
  have "flist (freed_mem (mem s) v (freelist s)) (freelist s) xs"
  proof (rule flist_cong)
    show "flist (mem s) (freelist s) xs" using fp by (simp add: free_pages_def)
    show "ld32 (freed_mem (mem s) v (freelist s)) x = ld32 (mem s) x" if "x \<in> set xs" for x
    proof (rule ld32_cong)
      fix a assume a: "in_page x a"
      have "aligned x" "aligned v" "x \<noteq> v"
        using fp v that by (auto simp: free_pages_def page_ok_def)
      with a have "\<not> in_page v a" using page_disjoint [of x v a] by auto
      then show "freed_mem (mem s) v (freelist s) a = mem s a" by (rule freed_mem_out)
    qed
  qed
  with fp v show ?thesis
    by (auto simp: free_pages_def freed_mem_def page_ok_nonzero)
qed

lemma free_pages_kalloc:
  "free_pages s (x # xs) \<Longrightarrow> free_pages (s\<lparr>freelist := ld32 (mem s) (freelist s)\<rparr>) xs"
  by (auto simp: free_pages_def)

lemma free_pages_Nil: "free_pages s [] \<Longrightarrow> freelist s = 0"
  by (simp add: free_pages_def)

lemma free_pages_Cons: "free_pages s (x # xs) \<Longrightarrow> freelist s = x \<and> x \<noteq> 0"
  by (simp add: free_pages_def)

section \<open>The allocator's contract\<close>

text \<open>
  What \<open>vm.c\<close>, \<open>proc.c\<close> and \<open>pipe.c\<close> rely on. \<open>avail s xs\<close>: the pages that later calls
  of \<open>alloc\<close> will return, in that order.
\<close>

locale page_allocator =
  fixes alloc :: "('s, uint) kop" and free :: "uint \<Rightarrow> ('s, unit) kop"
    and avail :: "'s \<Rightarrow> uint list \<Rightarrow> bool" and usable :: "'s \<Rightarrow> uint \<Rightarrow> bool"
    and ready :: "'s \<Rightarrow> bool"
  assumes avail_wf: "avail s xs \<Longrightarrow> distinct xs \<and> 0 \<notin> set xs \<and> (\<forall>x\<in>set xs. usable s x)"
    and alloc_empty: "avail s [] \<Longrightarrow> ready s \<Longrightarrow> alloc s = Ok 0 s"
    and alloc_page: "avail s (x # xs) \<Longrightarrow> ready s \<Longrightarrow>
      \<exists>t. alloc s = Ok x t \<and> avail t xs \<and> ready t \<and> usable t = usable s"
    and free_page: "avail s xs \<Longrightarrow> ready s \<Longrightarrow> usable s v \<Longrightarrow> v \<notin> set xs \<Longrightarrow>
      \<exists>t. free v s = Ok () t \<and> avail t (v # xs) \<and> ready t \<and> usable t = usable s"
begin

lemma free_then_alloc:
  assumes "avail s xs" "ready s" "usable s v" "v \<notin> set xs"
  shows "\<exists>t. kthen (free v) alloc s = Ok v t \<and> avail t xs \<and> ready t"
proof -
  from free_page [OF assms] obtain u where u: "free v s = Ok () u" "avail u (v # xs)" "ready u"
    by blast
  from alloc_page [OF u(2,3)] u(1) show ?thesis by auto
qed

lemma alloc_many:
  "avail s xs \<Longrightarrow> ready s \<Longrightarrow> n \<le> length xs \<Longrightarrow>
   \<exists>t. ktimes n alloc s = Ok (take n xs) t \<and> avail t (drop n xs) \<and> ready t"
proof (induction n arbitrary: s xs)
  case 0
  then show ?case by simp
next
  case (Suc n)
  then obtain x ys where xs: "xs = x # ys" by (cases xs) auto
  with Suc.prems alloc_page obtain u where u: "alloc s = Ok x u" "avail u ys" "ready u" by blast
  with Suc.IH [OF u(2,3)] Suc.prems(3) xs show ?case by auto
qed

lemma alloc_many_distinct:
  assumes "avail s xs" "ready s" "n \<le> length xs"
  shows "\<exists>ps t. ktimes n alloc s = Ok ps t \<and> length ps = n \<and> distinct ps \<and> 0 \<notin> set ps \<and>
    (\<forall>p\<in>set ps. usable s p)"
proof -
  have "distinct (take n xs)" "0 \<notin> set (take n xs)" "\<forall>p\<in>set (take n xs). usable s p"
    using avail_wf [OF assms(1)] set_take_subset [of n xs] by auto
  with alloc_many [OF assms] assms(3) show ?thesis by (metis length_take min_absorb2)
qed

end

interpretation ka: page_allocator
  "kalloc :: ('x kmst_scheme, uint) kop" kfree free_pages "\<lambda>s. page_ok (kend s)" kmem_unlocked
proof
  fix s :: "'x kmst_scheme" and xs x v
  show "distinct xs \<and> 0 \<notin> set xs \<and> (\<forall>x\<in>set xs. page_ok (kend s) x)" if "free_pages s xs"
    using that page_ok_nonzero by (fastforce simp: free_pages_def)
  show "kalloc s = Ok 0 s" if "free_pages s []" "kmem_unlocked s"
    using that by (simp add: kalloc_ok free_pages_Nil)
  show "\<exists>t. kalloc s = Ok x t \<and> free_pages t xs \<and> kmem_unlocked t \<and> page_ok (kend t) = page_ok (kend s)"
    if "free_pages s (x # xs)" "kmem_unlocked s"
    using that free_pages_Cons [OF that(1)] free_pages_kalloc [OF that(1)] by (simp add: kalloc_ok)
  show "\<exists>t. kfree v s = Ok () t \<and> free_pages t (v # xs) \<and> kmem_unlocked t \<and>
      page_ok (kend t) = page_ok (kend s)"
    if "free_pages s xs" "kmem_unlocked s" "page_ok (kend s) v" "v \<notin> set xs"
    using that free_pages_kfree [OF that(1,3,4)] by (simp add: kfree_ok)
qed

section \<open>Rounding\<close>

lemma PGROUNDDOWN_bits: "PGROUNDDOWN a = push_bit 12 (drop_bit 12 a)"
proof -
  have "(PGSIZE - 1 :: uint) = mask 12" by (simp add: PGSIZE_def mask_eq_exp_minus_1)
  then show ?thesis
    unfolding PGROUNDDOWN_def by (intro bit_word_eqI) (auto simp: bit_simps)
qed

lemma unat_PGROUNDDOWN: "unat (PGROUNDDOWN a) = unat a div 4096 * 4096"
proof -
  have "unat a div 4096 * 4096 < 4294967296"
    using unat_uint_bound [of a] by (meson div_times_less_eq_dividend order_le_less_trans)
  then show ?thesis
    by (simp add: PGROUNDDOWN_bits push_bit_eq_mult drop_bit_eq_div unat_word_ariths(2) unat_div)
qed

lemma PGROUNDUP_down: "PGROUNDUP sz = PGROUNDDOWN (sz + 4095)"
  by (simp add: PGROUNDUP_def PGROUNDDOWN_def PGSIZE_def algebra_simps)

lemma aligned_PGROUNDDOWN [simp]: "aligned (PGROUNDDOWN a)" and aligned_PGROUNDUP [simp]: "aligned (PGROUNDUP a)"
  by (simp_all add: PGROUNDUP_down unat_aligned unat_PGROUNDDOWN)

lemma unat_PGROUNDUP:
  "unat sz + 4095 < 4294967296 \<Longrightarrow> unat (PGROUNDUP sz) = (unat sz + 4095) div 4096 * 4096"
  by (simp add: PGROUNDUP_down unat_PGROUNDDOWN unat_word_ariths(1))

section \<open>Filling the list\<close>

lemma v2p_PHYSTOP: "v2p v < PHYSTOP \<longleftrightarrow> 0x80000000 \<le> unat v \<and> unat v < 0x8E000000"
proof -
  have "unat (v2p v) = (if 0x80000000 \<le> unat v then unat v - 0x80000000 else unat v + 0x80000000)"
    using unat_uint_bound [of v] by (simp add: v2p_def KERNBASE_def unat_sub_if')
  then show ?thesis
    using unat_uint_bound [of v] by (auto simp: PHYSTOP_def word_less_nat_alt)
qed

lemma kfree_Ok_range: "kfree p s = Ok u t \<Longrightarrow> 0x80000000 \<le> unat p \<and> unat p < 0x8E000000"
  by (cases "page_ok (kend s) p") (auto simp: kfree_panics page_ok_def v2p_PHYSTOP)

lemma kfree_no_hang: "kfree v s \<noteq> Hang"
  by (cases "LK_kmem \<in> set (held s)") (auto simp: kfree_def acquire_def)

lemma unat_next_page: "unat p \<le> 0x8E000000 \<Longrightarrow> unat (p + PGSIZE) = unat p + 4096"
  by (simp add: PGSIZE_def unat_word_ariths(1))

lemma freerange_loop_no_hang:
  "(0x8E001000 - unat p) div 4096 < n \<Longrightarrow> 0 < n \<Longrightarrow> freerange_loop n p vend s \<noteq> Hang"
proof (induction n arbitrary: p s)
  case 0
  then show ?case by simp
next
  case (Suc n)
  show ?case
  proof (cases "kfree p s")
    case (Ok u t)
    from kfree_Ok_range [OF Ok] unat_next_page
    have p: "unat p < 0x8E000000" "unat (p + PGSIZE) = unat p + 4096" by simp_all
    then have "(0x8E001000 - unat p) div 4096 = Suc ((0x8E001000 - unat (p + PGSIZE)) div 4096)"
      by (simp add: le_div_geq)
    with Suc.prems(1) have "(0x8E001000 - unat (p + PGSIZE)) div 4096 < n" by simp
    then have "freerange_loop n (p + PGSIZE) vend t \<noteq> Hang"
      by (intro Suc.IH) simp_all
    with Ok show ?thesis by simp
  qed (use kfree_no_hang in auto)
qed

lemma freerange_no_hang: "freerange vstart vend s \<noteq> Hang"
  unfolding freerange_def
proof (rule freerange_loop_no_hang)
  show "(0x8E001000 - unat (PGROUNDUP vstart)) div 4096 < (0x100000 :: nat)"
    by (simp add: div_less_iff_less_mult)
qed simp

abbreviation page_seq :: "uint \<Rightarrow> nat \<Rightarrow> uint list" where
  "page_seq p n \<equiv> map (\<lambda>i. p + of_nat i * PGSIZE) [0..<n]"

lemma page_seq_Suc: "page_seq p (Suc n) = p # page_seq (p + PGSIZE) n"
  by (simp add: upt_conv_Cons map_Suc_upt [symmetric] del: upt_Suc) (simp add: algebra_simps)

lemma freerange_loop_frees:
  assumes "free_pages s xs" "kmem_unlocked s" "aligned p" "kend s \<le> p"
    and "unat p + 4096 * n \<le> unat vend" "unat vend < unat p + 4096 * Suc n"
    and "unat vend \<le> 0x8E000000" "n < k" "set (page_seq p n) \<inter> set xs = {}"
  shows "\<exists>t. freerange_loop k p vend s = Ok () t \<and> free_pages t (rev (page_seq p n) @ xs) \<and>
    t = s\<lparr>mem := mem t, freelist := freelist t\<rparr>"
  using assms
proof (induction n arbitrary: p s xs k)
  case 0
  then have "\<not> p + PGSIZE \<le> vend" using unat_next_page [of p] by (simp add: word_le_nat_alt)
  with 0 show ?case by (cases k) simp_all
next
  case (Suc n)
  then obtain k' where k: "k = Suc k'" "n < k'" by (cases k) auto
  have pb: "unat p < 0x8E000000" "unat (p + PGSIZE) = unat p + 4096"
    using Suc.prems(5,7) unat_next_page [of p] by simp_all
  have "0x80000000 \<le> unat (kend s)"
    using Suc.prems(1) by (simp add: free_pages_def KERNBASE_def word_le_nat_alt)
  then have ok: "page_ok (kend s) p"
    using Suc.prems(3,4) pb by (simp add: page_ok_def v2p_PHYSTOP word_le_nat_alt)
  have fresh: "p \<notin> set xs" and rest: "set (page_seq (p + PGSIZE) n) \<inter> set xs = {}"
    using Suc.prems(9) unfolding page_seq_Suc by auto
  have "p \<notin> set (page_seq (p + PGSIZE) n)"
  proof
    assume "p \<in> set (page_seq (p + PGSIZE) n)"
    then obtain i where i: "i < n" "p = p + of_nat (Suc i) * PGSIZE" by (auto simp: algebra_simps)
    then have "of_nat (Suc i * 4096) = (0 :: uint)" by (simp add: PGSIZE_def)
    moreover have "Suc i * 4096 < 4294967296"
    proof -
      have "Suc i * 4096 \<le> n * 4096" using i(1) by simp
      also have "n * 4096 < 4294967296" using Suc.prems(5,7) by simp
      finally show ?thesis .
    qed
    ultimately show False by (metis of_nat_0 unat_of_nat_uint unat_0 mult_eq_0_iff nat.distinct(1)
      zero_neq_numeral)
  qed
  with rest have dis: "set (page_seq (p + PGSIZE) n) \<inter> set (p # xs) = {}" by auto
  let ?t = "s\<lparr>mem := freed_mem (mem s) p (freelist s), freelist := p\<rparr>"
  have "p \<le> p + PGSIZE" using pb by (simp add: word_le_nat_alt)
  then have ke: "kend ?t \<le> p + PGSIZE" using Suc.prems(4) by simp
  have al: "aligned (p + PGSIZE)"
    using Suc.prems(3) pb by (simp add: unat_aligned)
  have "\<exists>t. freerange_loop k' (p + PGSIZE) vend ?t = Ok () t \<and>
      free_pages t (rev (page_seq (p + PGSIZE) n) @ p # xs) \<and> t = ?t\<lparr>mem := mem t, freelist := freelist t\<rparr>"
    using Suc.prems pb k al ke dis
    by (intro Suc.IH free_pages_kfree ok fresh) simp_all
  moreover have "p + PGSIZE \<le> vend" using Suc.prems(5) pb by (simp add: word_le_nat_alt)
  ultimately show ?case
    using k kfree_ok [OF ok Suc.prems(2)] by (simp add: page_seq_Suc del: upt_Suc)
qed

section \<open>Properties\<close>

definition wit_km :: kmst where
  "wit_km = \<lparr>held = [], locking = True, panicked = False, uart = True, uart_out = [],
     crt = \<lambda>_. 0, cpos = 0, mem = \<lambda>_. 0, kend = 0x80100000, use_lock = True, freelist = 0\<rparr>"

lemma wit_km_free: "free_pages wit_km []" and wit_km_unlocked: "kmem_unlocked wit_km"
  by (simp_all add: wit_km_def free_pages_def KERNBASE_def)

text \<open>
  C26. \<open>kfree\<close> of a page that is in range and not already free pushes it on the free list
  and writes only inside that page; a \<open>kalloc\<close> right after returns the same page and
  restores the list.
\<close>

theorem kfree_kalloc_roundtrip:
  assumes "free_pages s xs" "kmem_unlocked s" "page_ok (kend s) v" "v \<notin> set xs"
  shows "\<exists>t. kfree v s = Ok () t \<and> free_pages t (v # xs) \<and>
    (\<forall>a. \<not> in_page v a \<longrightarrow> mem t a = mem s a) \<and>
    (\<exists>u. kthen (kfree v) kalloc s = Ok v u \<and> free_pages u xs)"
  using ka.free_then_alloc [OF assms] free_pages_kfree [OF assms(1,3,4)] kfree_ok [OF assms(3,2)]
    freed_mem_out [of v]
  by auto

theorem kfree_kalloc_roundtrip_witness:
  "\<exists>u. kthen (kfree 0x80101000) kalloc wit_km = Ok 0x80101000 u \<and> free_pages u []"
proof -
  have "page_ok (kend wit_km) 0x80101000"
    by (simp add: page_ok_def aligned_def wit_km_def PGSIZE_def v2p_def KERNBASE_def PHYSTOP_def)
  from kfree_kalloc_roundtrip [OF wit_km_free wit_km_unlocked this] show ?thesis by auto
qed

text \<open>
  \<open>kfree\<close> refuses every address that is not a page boundary, lies below \<open>end\<close> or at or
  above \<open>PHYSTOP\<close>: it panics and nothing is freed.
\<close>

theorem kfree_rejects:
  assumes "v mod PGSIZE \<noteq> 0 \<or> v < kend s \<or> v2p v \<ge> PHYSTOP"
  shows "kfree v s = Panic ''kfree''"
  using assms by (intro kfree_panics) (auto simp: page_ok_def aligned_def)

theorem kfree_rejects_witness: "kfree 0x80101004 wit_km = Panic ''kfree''"
  by (rule kfree_rejects) (simp add: PGSIZE_def)

text \<open>
  C27. \<open>freerange\<close> from the end of the kernel frees exactly the whole pages between
  \<open>PGROUNDUP(vstart)\<close> and \<open>vend\<close>, each once; the pages that \<open>n\<close> later calls of \<open>kalloc\<close>
  return are then \<open>n\<close> different pages of that range. It ends for all arguments.
\<close>

theorem freerange_spec:
  assumes "free_pages s xs" "kmem_unlocked s" "kend s \<le> vstart" "unat vstart + 4095 < 2 ^ 32"
    and "unat vend \<le> 0x8E000000" "unat (PGROUNDUP vstart) \<le> unat vend"
    and "n = (unat vend - unat (PGROUNDUP vstart)) div 4096"
    and "set (page_seq (PGROUNDUP vstart) n) \<inter> set xs = {}"
  shows "\<exists>t. freerange vstart vend s = Ok () t \<and>
    free_pages t (rev (page_seq (PGROUNDUP vstart) n) @ xs) \<and>
    (\<exists>u. ktimes n kalloc t = Ok (rev (page_seq (PGROUNDUP vstart) n)) u \<and> free_pages u xs) \<and>
    (\<forall>a b. freerange a b s \<noteq> Hang)"
proof -
  let ?p = "PGROUNDUP vstart"
  have up: "unat vstart \<le> unat ?p"
    using assms(4) unat_PGROUNDUP [of vstart] mult_div_mod_eq [of 4096 "unat vstart + 4095"]
      mod_less_divisor [of 4096 "unat vstart + 4095"] by simp
  have n: "unat ?p + 4096 * n \<le> unat vend" "unat vend < unat ?p + 4096 * Suc n"
    using assms(6,7) mult_div_mod_eq [of 4096 "unat vend - unat ?p"]
      mod_less_divisor [of 4096 "unat vend - unat ?p"] by (auto simp: algebra_simps)
  have k: "n < 0x100000" using n(1) assms(5) by simp
  obtain t where t: "freerange vstart vend s = Ok () t" "free_pages t (rev (page_seq ?p n) @ xs)"
    "t = s\<lparr>mem := mem t, freelist := freelist t\<rparr>"
    unfolding freerange_def
    using freerange_loop_frees [OF assms(1,2) aligned_PGROUNDUP _ n assms(5) k assms(8)] assms(3) up
    by (auto simp: word_le_nat_alt)
  have "held t = held s" "use_lock t = use_lock s" by (subst t(3), simp)+
  with assms(2) have "kmem_unlocked t" by simp
  from ka.alloc_many [OF t(2) this, of n] t(1,2) freerange_no_hang show ?thesis by auto
qed

theorem freerange_spec_witness:
  "\<exists>t. freerange 0x80100001 0x80103800 wit_km = Ok () t \<and> free_pages t [0x80102000, 0x80101000]"
proof -
  have p: "PGROUNDUP 0x80100001 = 0x80101000" by code_simp
  have seq: "rev (page_seq 0x80101000 2) = [0x80102000, 0x80101000]"
    by (simp add: PGSIZE_def upt_conv_Cons)
  have 1: "kend wit_km \<le> 0x80100001" by (simp add: wit_km_def)
  have 2: "unat (0x80100001 :: uint) + 4095 < 2 ^ 32" "unat (0x80103800 :: uint) \<le> 0x8E000000"
    "unat (PGROUNDUP 0x80100001) \<le> unat (0x80103800 :: uint)"
    "2 = (unat (0x80103800 :: uint) - unat (PGROUNDUP 0x80100001)) div 4096"
    "set (page_seq (PGROUNDUP 0x80100001) 2) \<inter> set [] = {}"
    by (simp_all add: p)
  from freerange_spec [OF wit_km_free wit_km_unlocked 1 2] show ?thesis
    unfolding p append_Nil2 seq by blast
qed

end
