(* ===== verification/Vm.thy ===== *)
theory Vm
  imports Kalloc
begin

text \<open>
  \<open>vm.c\<close> over the byte memory: page directories and page tables are arrays of 32-bit words
  in kernel pages. All operations but \<open>seginit\<close> (segment registers) and \<open>loaduvm\<close> (in
  \<open>Exec\<close>, after the file system) are here. The lemmas show what \<open>mappages\<close> does to the
  translation of every virtual address.
\<close>

section \<open>Page table entries\<close>

definition PTE_P :: uint where "PTE_P = 1"
definition PTE_W :: uint where "PTE_W = 2"
definition PTE_U :: uint where "PTE_U = 4"
definition EXTMEM :: uint where "EXTMEM = 0x100000"
definition DEVSPACE :: uint where "DEVSPACE = 0xFE000000"

definition PDX :: "uint \<Rightarrow> uint" where "PDX va = drop_bit 22 va AND 0x3FF"
definition PTX :: "uint \<Rightarrow> uint" where "PTX va = drop_bit 12 va AND 0x3FF"
definition PTE_ADDR :: "uint \<Rightarrow> uint" where "PTE_ADDR pte = pte AND NOT 0xFFF"
definition PTE_FLAGS :: "uint \<Rightarrow> uint" where "PTE_FLAGS pte = pte AND 0xFFF"

text \<open>\<open>kdata\<close> is the linker's symbol \<open>data\<close>; \<open>esp0\<close> the stack pointer in the CPU's TSS.\<close>

record vmst = kmst +
  kdata :: uint
  kpgdir :: uint
  cr3 :: uint
  esp0 :: uint

abbreviation store32 :: "uint \<Rightarrow> uint \<Rightarrow> ('x kmst_scheme, unit) kop" where
  "store32 a v \<equiv> kmod (\<lambda>s. s\<lparr>mem := st32 (mem s) a v\<rparr>)"

abbreviation load32 :: "uint \<Rightarrow> ('x kmst_scheme, uint) kop" where
  "load32 a \<equiv> kget (\<lambda>s. ld32 (mem s) a)"

definition walkpgdir :: "uint \<Rightarrow> uint \<Rightarrow> bool \<Rightarrow> ('x kmst_scheme, uint) kop" where
  "walkpgdir pgdir va alloc = (let pde = pgdir + 4 * PDX va in
     kbind (load32 pde) (\<lambda>e.
     if e AND PTE_P \<noteq> 0 then kret (p2v (PTE_ADDR e) + 4 * PTX va)
     else if \<not> alloc then kret 0
     else kbind kalloc (\<lambda>pgtab.
       if pgtab = 0 then kret 0
       else kthen (kmod (\<lambda>s. s\<lparr>mem := memset (mem s) pgtab 0 PGSIZE\<rparr>)) (
            kthen (store32 pde (v2p pgtab OR PTE_P OR PTE_W OR PTE_U))
              (kret (pgtab + 4 * PTX va))))))"

text \<open>
  The loop of \<open>mappages\<close> runs once per page and stops at \<open>last\<close>; both are page aligned, so
  the pages of the address space are fuel enough.
\<close>

primrec mappages_loop ::
    "nat \<Rightarrow> uint \<Rightarrow> uint \<Rightarrow> uint \<Rightarrow> uint \<Rightarrow> uint \<Rightarrow> ('x kmst_scheme, int) kop" where
  "mappages_loop 0 pgdir a lst pa perm = (\<lambda>_. Hang)"
| "mappages_loop (Suc n) pgdir a lst pa perm =
     kbind (walkpgdir pgdir a True) (\<lambda>pte.
     if pte = 0 then kret (- 1)
     else kbind (load32 pte) (\<lambda>e.
          kthen (kguard (e AND PTE_P \<noteq> 0) ''remap'') (
          kthen (store32 pte (pa OR perm OR PTE_P))
            (if a = lst then kret 0
             else mappages_loop n pgdir (a + PGSIZE) lst (pa + PGSIZE) perm))))"

definition mappages :: "uint \<Rightarrow> uint \<Rightarrow> uint \<Rightarrow> uint \<Rightarrow> uint \<Rightarrow> ('x kmst_scheme, int) kop" where
  "mappages pgdir va sz pa perm =
     mappages_loop 0x100000 pgdir (PGROUNDDOWN va) (PGROUNDDOWN (va + sz - 1)) pa perm"

section \<open>Address spaces\<close>

text \<open>The table \<open>kmap\<close>: virtual start, physical start and end, permissions.\<close>

definition kmap :: "uint \<Rightarrow> (uint \<times> uint \<times> uint \<times> uint) list" where
  "kmap dat =
     [(KERNBASE, 0, EXTMEM, PTE_W),
      (KERNBASE + EXTMEM, EXTMEM, v2p dat, 0),
      (dat, v2p dat, PHYSTOP, PTE_W),
      (DEVSPACE, DEVSPACE, 0, PTE_W)]"

primrec setupkvm_loop :: "uint \<Rightarrow> (uint \<times> uint \<times> uint \<times> uint) list \<Rightarrow> ('x kmst_scheme, uint) kop" where
  "setupkvm_loop pgdir [] = kret pgdir"
| "setupkvm_loop pgdir (k # ks) = (case k of (virt, pstart, pend, perm) \<Rightarrow>
     kbind (mappages pgdir virt (pend - pstart) pstart perm) (\<lambda>r.
     if r < 0 then kret 0 else setupkvm_loop pgdir ks))"

definition setupkvm :: "('x vmst_scheme, uint) kop" where
  "setupkvm =
     kbind kalloc (\<lambda>pgdir.
     if pgdir = 0 then kret 0
     else kthen (kmod (\<lambda>s. s\<lparr>mem := memset (mem s) pgdir 0 PGSIZE\<rparr>)) (
          kthen (kguard (p2v PHYSTOP > DEVSPACE) ''PHYSTOP too high'') (
          kbind (kget kdata) (\<lambda>dat. setupkvm_loop pgdir (kmap dat)))))"

definition switchkvm :: "('x vmst_scheme, unit) kop" where
  "switchkvm = kmod (\<lambda>s. s\<lparr>cr3 := v2p (kpgdir s)\<rparr>)"

definition kvmalloc :: "('x vmst_scheme, unit) kop" where
  "kvmalloc = kbind setupkvm (\<lambda>d. kthen (kmod (\<lambda>s. s\<lparr>kpgdir := d\<rparr>)) switchkvm)"

text \<open>\<open>kstack\<close> is the stack of the current process, \<open>pgdir\<close> the page directory of \<open>p\<close>.\<close>

definition KSTACKSIZE :: uint where "KSTACKSIZE = 4096"

definition switchuvm_to :: "uint \<Rightarrow> uint \<Rightarrow> ('x vmst_scheme, unit) kop" where
  "switchuvm_to kstack pgdir =
     kthen (kmod (\<lambda>s. s\<lparr>esp0 := kstack + KSTACKSIZE\<rparr>)) (
     kthen (kguard (pgdir = 0) ''switchuvm: no pgdir'')
       (kmod (\<lambda>s. s\<lparr>cr3 := v2p pgdir\<rparr>)))"

definition inituvm :: "uint \<Rightarrow> uint \<Rightarrow> uint \<Rightarrow> ('x kmst_scheme, unit) kop" where
  "inituvm pgdir init sz =
     kthen (kguard (sz \<ge> PGSIZE) ''inituvm: more than a page'') (
     kbind kalloc (\<lambda>m.
     kthen (kmod (\<lambda>s. s\<lparr>mem := memset (mem s) m 0 PGSIZE\<rparr>)) (
     kthen (mappages pgdir 0 PGSIZE (v2p m) (PTE_W OR PTE_U))
       (kmod (\<lambda>s. s\<lparr>mem := memmove (mem s) m init sz\<rparr>)))))"

text \<open>
  The loop of \<open>deallocuvm\<close> ends when \<open>a\<close> reaches \<open>oldsz\<close>. With \<open>oldsz\<close> in the last page
  of the address space \<open>a\<close> would wrap around and the loop never end; below that the number
  of pages bounds it.
\<close>

primrec deallocuvm_loop :: "nat \<Rightarrow> uint \<Rightarrow> uint \<Rightarrow> uint \<Rightarrow> ('x kmst_scheme, unit) kop" where
  "deallocuvm_loop 0 pgdir a oldsz = (\<lambda>_. Hang)"
| "deallocuvm_loop (Suc n) pgdir a oldsz =
     (if \<not> a < oldsz then kret ()
      else kbind (walkpgdir pgdir a False) (\<lambda>pte.
        if pte = 0 then deallocuvm_loop n pgdir (a + 1023 * PGSIZE + PGSIZE) oldsz
        else kbind (load32 pte) (\<lambda>e.
          kthen (kwhen (e AND PTE_P \<noteq> 0)
                  (kthen (kguard (PTE_ADDR e = 0) ''kfree'') (
                   kthen (kfree (p2v (PTE_ADDR e))) (store32 pte 0))))
            (deallocuvm_loop n pgdir (a + PGSIZE) oldsz))))"

definition deallocuvm :: "uint \<Rightarrow> uint \<Rightarrow> uint \<Rightarrow> ('x kmst_scheme, uint) kop" where
  "deallocuvm pgdir oldsz newsz =
     (if newsz \<ge> oldsz then kret oldsz
      else kthen (deallocuvm_loop 0x100001 pgdir (PGROUNDUP newsz) oldsz) (kret newsz))"

primrec allocuvm_loop :: "nat \<Rightarrow> uint \<Rightarrow> uint \<Rightarrow> uint \<Rightarrow> uint \<Rightarrow> ('x kmst_scheme, uint) kop" where
  "allocuvm_loop 0 pgdir a oldsz newsz = (\<lambda>_. Hang)"
| "allocuvm_loop (Suc n) pgdir a oldsz newsz =
     (if \<not> a < newsz then kret newsz
      else kbind kalloc (\<lambda>m.
        if m = 0 then
          kthen (cprintf ''allocuvm out of memory\<newline>'' []) (
          kthen (deallocuvm pgdir newsz oldsz) (kret 0))
        else
          kthen (kmod (\<lambda>s. s\<lparr>mem := memset (mem s) m 0 PGSIZE\<rparr>)) (
          kthen (mappages pgdir a PGSIZE (v2p m) (PTE_W OR PTE_U))
            (allocuvm_loop n pgdir (a + PGSIZE) oldsz newsz))))"

definition allocuvm :: "uint \<Rightarrow> uint \<Rightarrow> uint \<Rightarrow> ('x kmst_scheme, uint) kop" where
  "allocuvm pgdir oldsz newsz =
     (if newsz \<ge> KERNBASE then kret 0
      else if newsz < oldsz then kret oldsz
      else allocuvm_loop 0x100001 pgdir (PGROUNDUP oldsz) oldsz newsz)"

definition freevm :: "uint \<Rightarrow> ('x kmst_scheme, unit) kop" where
  "freevm pgdir =
     kthen (kguard (pgdir = 0) ''freevm: no pgdir'') (
     kthen (deallocuvm pgdir KERNBASE 0) (
     kthen (kfor [0..<1024] (\<lambda>i.
              kbind (load32 (pgdir + 4 * of_nat i)) (\<lambda>e.
              kwhen (e AND PTE_P \<noteq> 0) (kfree (p2v (PTE_ADDR e))))))
       (kfree pgdir)))"

definition clearpteu :: "uint \<Rightarrow> uint \<Rightarrow> ('x kmst_scheme, unit) kop" where
  "clearpteu pgdir uva =
     kbind (walkpgdir pgdir uva False) (\<lambda>pte.
     kthen (kguard (pte = 0) ''clearpteu'') (
     kbind (load32 pte) (\<lambda>e. store32 pte (e AND NOT PTE_U))))"

primrec copyuvm_loop :: "nat \<Rightarrow> uint \<Rightarrow> uint \<Rightarrow> uint \<Rightarrow> uint \<Rightarrow> ('x kmst_scheme, uint) kop" where
  "copyuvm_loop 0 pgdir d i sz = (\<lambda>_. Hang)"
| "copyuvm_loop (Suc n) pgdir d i sz =
     (if \<not> i < sz then kret d
      else kbind (walkpgdir pgdir i False) (\<lambda>pte.
        kthen (kguard (pte = 0) ''copyuvm: pte should exist'') (
        kbind (load32 pte) (\<lambda>e.
        kthen (kguard (e AND PTE_P = 0) ''copyuvm: page not present'') (
        kbind kalloc (\<lambda>m.
        if m = 0 then kthen (freevm d) (kret 0)
        else kthen (kmod (\<lambda>s. s\<lparr>mem := memmove (mem s) m (p2v (PTE_ADDR e)) PGSIZE\<rparr>)) (
             kbind (mappages d i PGSIZE (v2p m) (PTE_FLAGS e)) (\<lambda>r.
             if r < 0 then kthen (freevm d) (kret 0)
             else copyuvm_loop n pgdir d (i + PGSIZE) sz))))))))"

definition copyuvm :: "uint \<Rightarrow> uint \<Rightarrow> ('x vmst_scheme, uint) kop" where
  "copyuvm pgdir sz =
     kbind setupkvm (\<lambda>d. if d = 0 then kret 0 else copyuvm_loop 0x100001 pgdir d 0 sz)"

section \<open>User memory\<close>

text \<open>
  The translation the hardware makes with page directory \<open>pgdir\<close>, as a kernel address. A
  supervisor access does not look at \<open>PTE_U\<close>. A fault in kernel mode is \<open>trap\<close>'s panic.
\<close>

definition vtrans :: "memory \<Rightarrow> uint \<Rightarrow> uint \<Rightarrow> uint option" where
  "vtrans m pgdir va =
     (let pde = ld32 m (pgdir + 4 * PDX va) in
      if pde AND PTE_P = 0 then None
      else let pte = ld32 m (p2v (PTE_ADDR pde) + 4 * PTX va) in
        if pte AND PTE_P = 0 then None
        else Some (p2v (PTE_ADDR pte) + (va AND 0xFFF)))"

definition vload :: "uint \<Rightarrow> ('x vmst_scheme, uchar) kop" where
  "vload va s = (case vtrans (mem s) (p2v (cr3 s)) va of
      None \<Rightarrow> Panic ''trap'' | Some a \<Rightarrow> Ok (mem s a) s)"

definition vstore :: "uint \<Rightarrow> uchar \<Rightarrow> ('x vmst_scheme, unit) kop" where
  "vstore va b s = (case vtrans (mem s) (p2v (cr3 s)) va of
      None \<Rightarrow> Panic ''trap'' | Some a \<Rightarrow> Ok () (s\<lparr>mem := (mem s)(a := b)\<rparr>))"

definition vload32 :: "uint \<Rightarrow> ('x vmst_scheme, uint) kop" where
  "vload32 va =
     kbind (vload va) (\<lambda>b0. kbind (vload (va + 1)) (\<lambda>b1.
     kbind (vload (va + 2)) (\<lambda>b2. kbind (vload (va + 3)) (\<lambda>b3. kret (le32 b0 b1 b2 b3)))))"

definition uva2ka :: "uint \<Rightarrow> uint \<Rightarrow> ('x vmst_scheme, uint) kop" where
  "uva2ka pgdir uva =
     kbind (walkpgdir pgdir uva False) (\<lambda>pte.
     kbind (if pte = 0 then vload32 0 else load32 pte) (\<lambda>e.
     if e AND PTE_P = 0 then kret 0
     else if e AND PTE_U = 0 then kret 0
     else kret (p2v (PTE_ADDR e))))"

primrec vloads :: "uint \<Rightarrow> nat \<Rightarrow> ('x vmst_scheme, uchar list) kop" where
  "vloads a 0 = kret []"
| "vloads a (Suc n) = kbind (vload a) (\<lambda>b. kbind (vloads (a + 1) n) (\<lambda>bs. kret (b # bs)))"

primrec vstores :: "uint \<Rightarrow> uchar list \<Rightarrow> ('x vmst_scheme, unit) kop" where
  "vstores a [] = kret ()"
| "vstores a (b # bs) = kthen (vstore a b) (vstores (a + 1) bs)"

text \<open>
  Pointer arguments of the copying routines: to a local variable of the caller, whose bytes
  are passed by value, or to memory at a virtual address of the current address space.
\<close>

datatype csrc = Src_local "uchar list" | Src_addr uint

datatype cdst = Dst_local | Dst_addr uint

definition fetch :: "csrc \<Rightarrow> nat \<Rightarrow> nat \<Rightarrow> ('x vmst_scheme, uchar list) kop" where
  "fetch src off n = (case src of Src_local bs \<Rightarrow> kret (take n (drop off bs))
     | Src_addr a \<Rightarrow> vloads (a + of_nat off) n)"

definition deliver :: "cdst \<Rightarrow> nat \<Rightarrow> uchar list \<Rightarrow> ('x vmst_scheme, unit) kop" where
  "deliver dst off bs = (case dst of Dst_local \<Rightarrow> kret () | Dst_addr a \<Rightarrow> vstores (a + of_nat off) bs)"

primrec poke :: "memory \<Rightarrow> uint \<Rightarrow> uchar list \<Rightarrow> memory" where
  "poke m a [] = m"
| "poke m a (b # bs) = poke (m(a := b)) (a + 1) bs"

primrec copyout_loop :: "nat \<Rightarrow> uint \<Rightarrow> uint \<Rightarrow> csrc \<Rightarrow> nat \<Rightarrow> uint \<Rightarrow> ('x vmst_scheme, int) kop" where
  "copyout_loop 0 pgdir va src off len = (\<lambda>_. Hang)"
| "copyout_loop (Suc k) pgdir va src off len =
     (if \<not> len > 0 then kret 0
      else let va0 = PGROUNDDOWN va in
        kbind (uva2ka pgdir va0) (\<lambda>pa0.
        if pa0 = 0 then kret (- 1)
        else let n0 = PGSIZE - (va - va0); n = (if n0 > len then len else n0) in
          kbind (fetch src off (unat n)) (\<lambda>bs.
          kthen (kmod (\<lambda>s. s\<lparr>mem := poke (mem s) (pa0 + (va - va0)) bs\<rparr>))
            (copyout_loop k pgdir (va0 + PGSIZE) src (off + unat n) (len - n)))))"

definition copyout :: "uint \<Rightarrow> uint \<Rightarrow> csrc \<Rightarrow> uint \<Rightarrow> ('x vmst_scheme, int) kop" where
  "copyout pgdir va p len = copyout_loop 0x100002 pgdir va p 0 len"

lemma vload_state: "vload a s = Ok b t \<Longrightarrow> t = s"
  by (auto simp: vload_def split: option.splits)

lemma ends_vload: "(\<And>b. vload a s = Ok b s \<Longrightarrow> Q b s) \<Longrightarrow> ends (vload a) s Q B"
  by (auto simp: vload_def ends_def split: option.splits)

lemma ends_vloads: "(\<And>bs. Q bs s) \<Longrightarrow> ends (vloads a n) s Q B"
proof (induction n arbitrary: a Q)
  case (Suc n)
  show ?case by (auto intro!: ends_vload Suc.IH Suc.prems)
qed simp

lemma fetch_state:
  shows fetch_Ok: "fetch src off n s = Ok bs t \<Longrightarrow> t = s" and fetch_not_Block: "fetch src off n s \<noteq> Block t"
proof -
  have e: "ends (fetch src off n) s (\<lambda>_ t. t = s) (\<lambda>_. False)"
    by (cases src) (simp_all add: fetch_def ends_vloads)
  show "t = s" if "fetch src off n s = Ok bs t" by (rule endsD [OF e that])
  show "fetch src off n s \<noteq> Block t" using endsD_Block [OF e] by blast
qed

lemma ends_fetch: "(\<And>bs. fetch src off n s = Ok bs s \<Longrightarrow> Q bs s) \<Longrightarrow> ends (fetch src off n) s Q B"
  by (rule endsI) (auto simp: fetch_not_Block dest: fetch_Ok)

lemma ends_vstore: "(\<And>m. Q () (s\<lparr>mem := m\<rparr>)) \<Longrightarrow> ends (vstore a b) s Q B"
  by (simp add: vstore_def ends_def split: option.split)

lemma ends_vstores: "(\<And>m. Q () (s\<lparr>mem := m\<rparr>)) \<Longrightarrow> ends (vstores a bs) s Q B"
proof (induction bs arbitrary: a s)
  case Nil
  from Nil [of "mem s"] show ?case by simp
next
  case (Cons b bs)
  have "ends (vstores (a + 1) bs) (s\<lparr>mem := m\<rparr>) Q B" for m
    by (rule Cons.IH) (use Cons.prems in simp)
  then show ?case by (simp add: ends_vstore)
qed

lemma ends_deliver: "(\<And>m. Q () (s\<lparr>mem := m\<rparr>)) \<Longrightarrow> ends (deliver dst off bs) s Q B"
proof (cases dst)
  case Dst_local
  assume "\<And>m. Q () (s\<lparr>mem := m\<rparr>)"
  from this [of "mem s"] Dst_local show ?thesis by (simp add: deliver_def)
qed (simp add: deliver_def ends_vstores)

section \<open>Words in pages\<close>

text \<open>Entry \<open>d\<close> of the table in page \<open>p\<close>.\<close>

abbreviation slot :: "uint \<Rightarrow> nat \<Rightarrow> uint" where
  "slot p d \<equiv> p + 4 * of_nat d"

lemma aligned_bound: "aligned v \<Longrightarrow> unat v + 4096 \<le> 4294967296"
proof -
  assume "aligned v"
  then have "unat v = 4096 * (unat v div 4096)"
    unfolding unat_aligned by (metis add.right_neutral mult_div_mod_eq)
  moreover have "unat v div 4096 < 1048576" using unat_uint_bound [of v] by (simp add: div_less_iff_less_mult)
  ultimately show ?thesis by linarith
qed

lemma unat_slot: "aligned p \<Longrightarrow> d < 1024 \<Longrightarrow> unat (slot p d) = unat p + 4 * d"
  using aligned_bound [of p] unat_add_of_nat [of p "4 * d"] by simp

lemma slot_in_page: "d < 1024 \<Longrightarrow> unat k < 4 \<Longrightarrow> in_page p (slot p d + k)"
proof -
  assume "d < 1024" "unat k < 4"
  then have "unat (of_nat (4 * d) + k) = 4 * d + unat k"
    by (simp add: unat_word_ariths(1) unat_of_nat_uint del: of_nat_mult)
  with \<open>d < 1024\<close> \<open>unat k < 4\<close> show ?thesis
    by (simp add: in_page_def PGSIZE_def word_less_nat_alt add.assoc)
qed

lemma ld32_st32_apart: "4 \<le> a - b \<Longrightarrow> 4 \<le> b - a \<Longrightarrow> ld32 (st32 m a v) b = ld32 m b"
proof -
  assume a: "4 \<le> a - b" "4 \<le> b - a"
  have "4 \<le> b + k - a" if "unat k < 4" for k
  proof -
    have "unat (a - b) = 4294967296 - unat (b - a)"
      using a by (auto simp: unat_sub_if' word_le_nat_alt)
    with a have "unat (b - a) + unat k < 4294967296" using that by (simp add: word_le_nat_alt)
    then have "unat (b - a + k) = unat (b - a) + unat k" by (simp add: unat_word_ariths(1))
    with a(2) show ?thesis by (simp add: word_le_nat_alt algebra_simps)
  qed
  from this [of 0] this [of 1] this [of 2] this [of 3] show ?thesis
    by (simp add: ld32_def st32_out)
qed

lemma ld32_st32_lt:
  fixes a b :: uint
  assumes "unat a + 4 \<le> unat b" "unat b + 4 \<le> 4294967296"
  shows "4 \<le> a - b \<and> 4 \<le> b - a"
  using assms by (simp add: word_le_nat_alt unat_sub_if') linarith

lemma ld32_st32_slots:
  assumes "aligned p" "aligned q" "d < 1024" "e < 1024"
  shows "ld32 (st32 m (slot p d) v) (slot q e) =
    (if p = q \<and> d = e then v else ld32 m (slot q e))"
proof (cases "p = q \<and> d = e")
  case False
  note u = unat_slot [OF assms(1,3)] unat_slot [OF assms(2,4)]
  have b: "unat p + 4 * d + 4 \<le> 4294967296" "unat q + 4 * e + 4 \<le> 4294967296"
    using aligned_bound [OF assms(1)] aligned_bound [OF assms(2)] assms(3,4) by simp_all
  have "unat (slot p d) + 4 \<le> unat (slot q e) \<or> unat (slot q e) + 4 \<le> unat (slot p d)"
  proof (cases "p = q")
    case True
    with False have "d < e \<or> e < d" by auto
    then show ?thesis unfolding u using True by auto
  next
    case False
    have P: "unat p = 4096 * (unat p div 4096)" "unat q = 4096 * (unat q div 4096)"
      using assms(1,2) unfolding unat_aligned by (metis add.right_neutral mult_div_mod_eq)+
    from False have "unat p \<noteq> unat q" by (simp add: word_unat_eq_iff)
    with P have "unat p div 4096 < unat q div 4096 \<or> unat q div 4096 < unat p div 4096" by linarith
    then have "unat p + 4096 \<le> unat q \<or> unat q + 4096 \<le> unat p"
      using P by linarith
    then show ?thesis unfolding u using assms(3,4) by auto
  qed
  then have "4 \<le> slot p d - slot q e \<and> 4 \<le> slot q e - slot p d"
    using ld32_st32_lt [of "slot p d" "slot q e"] ld32_st32_lt [of "slot q e" "slot p d"] b
    unfolding u by blast
  then show ?thesis using False ld32_st32_apart by auto
qed simp

lemma ld32_slot_cong:
  assumes "\<And>a. in_page q a \<Longrightarrow> m' a = m a" and "e < 1024"
  shows "ld32 m' (slot q e) = ld32 m (slot q e)"
proof -
  have "m' (slot q e + k) = m (slot q e + k)" if "unat k < 4" for k
    by (rule assms(1)) (rule slot_in_page [OF assms(2) that])
  from this [of 0] this [of 1] this [of 2] this [of 3] show ?thesis
    by (simp add: ld32_def)
qed

lemma memset_out: "\<not> in_page x a \<Longrightarrow> memset m x c PGSIZE a = m a"
  using memset_off [of m x c PGSIZE "a - x"] by (simp add: in_page_def)

lemma memset_in: "in_page x a \<Longrightarrow> memset m x c PGSIZE a = ucast c"
  using memset_off [of m x c PGSIZE "a - x"] by (simp add: in_page_def)

lemma ld32_memset_other:
  assumes "aligned x" "aligned q" "x \<noteq> q" "e < 1024"
  shows "ld32 (memset m x c PGSIZE) (slot q e) = ld32 m (slot q e)"
  using page_disjoint [OF assms(1,2)] assms(3) by (intro ld32_slot_cong memset_out assms(4)) auto

lemma ld32_memset_same: "e < 1024 \<Longrightarrow> ld32 (memset m x 0 PGSIZE) (slot x e) = 0"
proof -
  assume e: "e < 1024"
  have "memset m x 0 PGSIZE (slot x e + k) = 0" if "unat k < 4" for k
    using memset_in [OF slot_in_page [OF e that, of x], of m 0] by simp
  from this [of 0] this [of 1] this [of 2] this [of 3] show ?thesis
    by (simp add: ld32_def le32_def)
qed

section \<open>Translations\<close>

definition pdx :: "uint \<Rightarrow> nat" where "pdx va = unat va div 4194304"
definition ptx :: "uint \<Rightarrow> nat" where "ptx va = unat va div 4096 mod 1024"

lemma pdx_bound [simp]: "pdx va < 1024"
  using unat_uint_bound [of va] by (simp add: pdx_def div_less_iff_less_mult)

lemma ptx_bound [simp]: "ptx va < 1024"
  by (simp add: ptx_def)

lemma and_3FF: "x AND 0x3FF = take_bit 10 x" for x :: uint
  by (simp add: take_bit_eq_mask mask_eq_exp_minus_1)

lemma PDX_eq: "PDX va = of_nat (pdx va)"
proof -
  have "unat (PDX va) = pdx va"
    using pdx_bound [of va]
    by (simp add: PDX_def and_3FF unsigned_take_bit_eq take_bit_eq_mod drop_bit_eq_div unat_div pdx_def
        unat_mod)
  then show ?thesis by (metis of_nat_unat_uint)
qed

lemma PTX_eq: "PTX va = of_nat (ptx va)"
proof -
  have "unat (PTX va) = ptx va"
    by (simp add: PTX_def and_3FF take_bit_eq_mod drop_bit_eq_div unat_div ptx_def unat_mod)
  then show ?thesis by (metis of_nat_unat_uint)
qed

lemma same_page_iff: "pdx a = pdx b \<and> ptx a = ptx b \<longleftrightarrow> unat a div 4096 = unat b div 4096"
proof -
  have "pdx x = unat x div 4096 div 1024" for x
    by (simp add: pdx_def div_mult2_eq [symmetric])
  then show ?thesis by (metis ptx_def mult_div_mod_eq)
qed

text \<open>The entry that translates \<open>va\<close>; 0 (not present) where there is no page table.\<close>

definition pgtab :: "memory \<Rightarrow> uint \<Rightarrow> nat \<Rightarrow> uint option" where
  "pgtab m pgdir d = (let e = ld32 m (slot pgdir d) in
     if e AND PTE_P = 0 then None else Some (p2v (PTE_ADDR e)))"

definition pte_of :: "memory \<Rightarrow> uint \<Rightarrow> uint \<Rightarrow> uint" where
  "pte_of m pgdir va = (case pgtab m pgdir (pdx va) of
     None \<Rightarrow> 0 | Some p \<Rightarrow> ld32 m (slot p (ptx va)))"

text \<open>
  A page directory whose tables are in different pages, none of them free: what \<open>kalloc\<close>
  guarantees for the tables \<open>walkpgdir\<close> adds.
\<close>

definition pgdir_wf :: "'x kmst_scheme \<Rightarrow> uint \<Rightarrow> uint list \<Rightarrow> bool" where
  "pgdir_wf s pgdir xs \<longleftrightarrow> aligned pgdir \<and> pgdir \<notin> set xs \<and>
     (\<forall>d<1024. \<forall>p. pgtab (mem s) pgdir d = Some p \<longrightarrow> p \<noteq> pgdir \<and> p \<noteq> 0 \<and> p \<notin> set xs) \<and>
     (\<forall>d<1024. \<forall>e<1024. \<forall>p. pgtab (mem s) pgdir d = Some p \<longrightarrow> pgtab (mem s) pgdir e = Some p \<longrightarrow> d = e)"

lemma aligned_p2v: "aligned x \<Longrightarrow> aligned (p2v x)"
proof -
  assume "aligned x"
  then have "4096 dvd unat x" by (simp add: unat_aligned mod_eq_0_iff_dvd)
  then have "4096 dvd (unat x + 2147483648) mod 4294967296" by (simp add: dvd_mod)
  then show ?thesis
    by (simp add: p2v_def KERNBASE_def unat_aligned unat_word_ariths(1) mod_eq_0_iff_dvd)
qed

lemma v2p_eq_p2v: "v2p x = p2v x"
proof -
  have "x - 0x80000000 = x + (- 0x80000000)" by simp
  also have "(- 0x80000000 :: uint) = 0x80000000" by simp
  finally show ?thesis by (simp add: v2p_def p2v_def KERNBASE_def)
qed

lemma PTE_ADDR_down: "PTE_ADDR e = PGROUNDDOWN e"
  by (simp add: PTE_ADDR_def PGROUNDDOWN_def PGSIZE_def)

lemma PGROUNDDOWN_aligned: "aligned v \<Longrightarrow> PGROUNDDOWN v = v"
proof -
  assume "aligned v"
  then have "unat v div 4096 * 4096 = unat v"
    unfolding unat_aligned by (metis add.right_neutral div_mult_mod_eq)
  then show ?thesis by (simp add: word_unat_eq_iff unat_PGROUNDDOWN)
qed

lemma aligned_p2v_ADDR: "aligned (p2v (PTE_ADDR e))"
  by (simp add: aligned_p2v PTE_ADDR_down)

lemma pgtab_aligned: "pgtab m pgdir d = Some p \<Longrightarrow> aligned p"
  by (auto simp: pgtab_def Let_def aligned_p2v_ADDR split: if_splits)

lemma PGROUNDDOWN_OR: "aligned v \<Longrightarrow> PGROUNDDOWN f = 0 \<Longrightarrow> PGROUNDDOWN (v OR f) = v"
proof -
  assume "aligned v" "PGROUNDDOWN f = 0"
  have "PGROUNDDOWN (v OR f) = PGROUNDDOWN v OR PGROUNDDOWN f"
    unfolding PGROUNDDOWN_bits by (rule bit_word_eqI) (auto simp: bit_simps)
  then show ?thesis using \<open>aligned v\<close> \<open>PGROUNDDOWN f = 0\<close> by (simp add: PGROUNDDOWN_aligned)
qed

text \<open>The entry \<open>walkpgdir\<close> writes for a new table reads back as that table.\<close>

abbreviation new_pde :: "uint \<Rightarrow> uint" where
  "new_pde x \<equiv> v2p x OR PTE_P OR PTE_W OR PTE_U"

lemma new_pde_flags: "new_pde x AND PTE_P \<noteq> 0"
proof
  assume "new_pde x AND PTE_P = 0"
  then have "bit (new_pde x AND PTE_P) 0 = bit (0 :: uint) 0" by simp
  then show False by (simp add: bit_simps PTE_P_def)
qed

lemma new_pde_addr:
  assumes "aligned x"
  shows "p2v (PTE_ADDR (new_pde x)) = x"
proof -
  have "PGROUNDDOWN (PTE_P OR PTE_W OR PTE_U) = 0"
    by (simp add: PTE_P_def PTE_W_def PTE_U_def PGROUNDDOWN_bits)
  then have "PTE_ADDR (new_pde x) = v2p x"
    using aligned_p2v [OF assms] by (simp add: PTE_ADDR_down PGROUNDDOWN_OR v2p_eq_p2v)
  then show ?thesis by (simp add: p2v_def v2p_def)
qed

lemma pgdir_wfD:
  assumes "pgdir_wf s pgdir xs"
  shows "aligned pgdir" "pgdir \<notin> set xs"
    "d < 1024 \<Longrightarrow> pgtab (mem s) pgdir d = Some p \<Longrightarrow> p \<noteq> pgdir \<and> p \<noteq> 0 \<and> p \<notin> set xs"
    "d < 1024 \<Longrightarrow> e < 1024 \<Longrightarrow> pgtab (mem s) pgdir d = Some p \<Longrightarrow> pgtab (mem s) pgdir e = Some p \<Longrightarrow> d = e"
  using assms unfolding pgdir_wf_def by blast+

lemma free_pages_mem:
  "free_pages s xs \<Longrightarrow> (\<And>y. y \<in> set xs \<Longrightarrow> ld32 m (slot y 0) = ld32 (mem s) (slot y 0)) \<Longrightarrow>
   free_pages (s\<lparr>mem := m\<rparr>) xs"
  by (auto simp: free_pages_def intro: flist_cong)

lemma free_pages_aligned: "free_pages s xs \<Longrightarrow> x \<in> set xs \<Longrightarrow> aligned x \<and> x \<noteq> 0"
  using page_ok_nonzero by (auto simp: free_pages_def page_ok_def)

lemma walk_present:
  "pgtab (mem s) pgdir (pdx va) = Some p \<Longrightarrow> walkpgdir pgdir va al s = Ok (slot p (ptx va)) s"
  by (auto simp: walkpgdir_def pgtab_def Let_def PDX_eq PTX_eq split: if_splits)

lemma walk_absent:
  "pgtab (mem s) pgdir (pdx va) = None \<Longrightarrow> walkpgdir pgdir va False s = Ok 0 s"
  by (auto simp: walkpgdir_def pgtab_def Let_def PDX_eq PTX_eq split: if_splits)

text \<open>A new page table: the memory \<open>walkpgdir\<close> leaves and what it does to the tables.\<close>

abbreviation new_table :: "memory \<Rightarrow> uint \<Rightarrow> nat \<Rightarrow> uint \<Rightarrow> memory" where
  "new_table m pgdir d x \<equiv> st32 (memset m x 0 PGSIZE) (slot pgdir d) (new_pde x)"

lemma walk_alloc:
  assumes "pgtab (mem s) pgdir (pdx va) = None" "free_pages s (x # xs)" "kmem_unlocked s"
  shows "walkpgdir pgdir va True s = Ok (slot x (ptx va))
    (s\<lparr>freelist := ld32 (mem s) x, mem := new_table (mem s) pgdir (pdx va) x\<rparr>)"
proof -
  have "kalloc s = Ok x (s\<lparr>freelist := ld32 (mem s) x\<rparr>)" "x \<noteq> 0"
    using free_pages_Cons [OF assms(2)] assms(3) by (simp_all add: kalloc_ok)
  with assms(1) show ?thesis
    by (auto simp: walkpgdir_def pgtab_def Let_def PDX_eq PTX_eq split: if_splits)
qed

lemma ld32_new_table:
  assumes "aligned pgdir" "aligned x" "x \<noteq> pgdir" "d < 1024" "aligned q" "e < 1024"
  shows "ld32 (new_table m pgdir d x) (slot q e) =
    (if q = pgdir \<and> e = d then new_pde x else if q = x then 0 else ld32 m (slot q e))"
  using assms by (auto simp: ld32_st32_slots ld32_memset_same ld32_memset_other)

lemma pgtab_new_table:
  assumes "aligned pgdir" "aligned x" "x \<noteq> pgdir" "d < 1024" "e < 1024"
  shows "pgtab (new_table m pgdir d x) pgdir e = (if e = d then Some x else pgtab m pgdir e)"
  using assms new_pde_flags [of x] new_pde_addr [OF assms(2)]
  by (auto simp: pgtab_def ld32_new_table Let_def)

lemma new_table_ok:
  assumes wf: "pgdir_wf s pgdir (x # xs)" and fp: "free_pages s (x # xs)"
    and none: "pgtab (mem s) pgdir d = None" and d: "d < 1024"
  shows "pte_of (new_table (mem s) pgdir d x) pgdir va = pte_of (mem s) pgdir va"
    and "pgdir_wf (s\<lparr>freelist := f, mem := new_table (mem s) pgdir d x\<rparr>) pgdir xs"
    and "free_pages (s\<lparr>freelist := ld32 (mem s) x, mem := new_table (mem s) pgdir d x\<rparr>) xs"
proof -
  have al: "aligned pgdir" "aligned x" "x \<noteq> pgdir" "x \<noteq> 0"
    using pgdir_wfD(1,2) [OF wf] free_pages_aligned [OF fp, of x] by auto
  have dist: "x \<notin> set xs" using fp by (simp add: free_pages_def)
  note pt = pgtab_new_table [OF al(1-3) d]
  have tab: "p \<noteq> x \<and> p \<noteq> pgdir \<and> p \<noteq> 0 \<and> p \<notin> set xs \<and> aligned p"
    if "pgtab (mem s) pgdir e = Some p" "e < 1024" for e p
    using pgdir_wfD(3) [OF wf that(2,1)] pgtab_aligned [OF that(1)] by auto
  show "pte_of (new_table (mem s) pgdir d x) pgdir va = pte_of (mem s) pgdir va"
  proof (cases "pdx va = d")
    case True
    then show ?thesis using none al d by (simp add: pte_of_def pt ld32_new_table)
  next
    case False
    then show ?thesis
      using tab [of "pdx va"] al d
      by (auto simp: pte_of_def pt ld32_new_table split: option.splits)
  qed
  show "pgdir_wf (s\<lparr>freelist := f, mem := new_table (mem s) pgdir d x\<rparr>) pgdir xs"
  proof -
    have "p \<noteq> pgdir \<and> p \<noteq> 0 \<and> p \<notin> set xs"
      if "pgtab (new_table (mem s) pgdir d x) pgdir e = Some p" "e < 1024" for e p
      using that tab [of e p] al dist by (auto simp: pt split: if_splits)
    moreover have "e = e'"
      if "pgtab (new_table (mem s) pgdir d x) pgdir e = Some p"
        "pgtab (new_table (mem s) pgdir d x) pgdir e' = Some p" "e < 1024" "e' < 1024" for e e' p
      using that tab [of e p] tab [of e' p] pgdir_wfD(4) [OF wf that(3,4), of p]
      by (auto simp: pt split: if_splits)
    ultimately show ?thesis
      using al pgdir_wfD(2) [OF wf] by (auto simp: pgdir_wf_def)
  qed
  have fx: "freelist s = x" using fp by (simp add: free_pages_def)
  have "free_pages (s\<lparr>freelist := ld32 (mem s) x\<rparr>) xs"
    using free_pages_kalloc [OF fp] unfolding fx .
  then have "free_pages (s\<lparr>freelist := ld32 (mem s) x\<rparr>\<lparr>mem := new_table (mem s) pgdir d x\<rparr>) xs"
  proof (rule free_pages_mem)
    fix y assume y: "y \<in> set xs"
    then have "aligned y" "y \<noteq> x" "y \<noteq> pgdir"
      using free_pages_aligned [OF fp, of y] dist pgdir_wfD(2) [OF wf] by auto
    then show "ld32 (new_table (mem s) pgdir d x) (slot y 0) =
        ld32 (mem (s\<lparr>freelist := ld32 (mem s) x\<rparr>)) (slot y 0)"
      using al d ld32_new_table [of pgdir x d y 0 "mem s"] by simp
  qed
  then show "free_pages (s\<lparr>freelist := ld32 (mem s) x, mem := new_table (mem s) pgdir d x\<rparr>) xs"
    by simp
qed

text \<open>Writing the entry for one page.\<close>

lemma set_pte_ok:
  fixes v :: uint
  assumes wf: "pgdir_wf s pgdir xs" and fp: "free_pages s xs"
    and p: "pgtab (mem s) pgdir (pdx a) = Some p"
  defines "m \<equiv> st32 (mem s) (slot p (ptx a)) v"
  shows "pte_of m pgdir va = (if unat va div 4096 = unat a div 4096 then v else pte_of (mem s) pgdir va)"
    and "pgdir_wf (s\<lparr>mem := m\<rparr>) pgdir xs" and "free_pages (s\<lparr>mem := m\<rparr>) xs"
proof -
  have al: "aligned pgdir" "aligned p" "p \<noteq> pgdir" "p \<notin> set xs"
    using pgdir_wfD(1) [OF wf] pgdir_wfD(3) [OF wf _ p] pgtab_aligned [OF p] by auto
  have m: "ld32 m (slot q e) = (if q = p \<and> e = ptx a then v else ld32 (mem s) (slot q e))"
    if "aligned q" "e < 1024" for q e
    using that al by (auto simp: m_def ld32_st32_slots)
  have pt: "pgtab m pgdir e = pgtab (mem s) pgdir e" if "e < 1024" for e
    using that al by (simp add: pgtab_def m)
  show "pte_of m pgdir va = (if unat va div 4096 = unat a div 4096 then v else pte_of (mem s) pgdir va)"
  proof (cases "pgtab (mem s) pgdir (pdx va)")
    case None
    with p have "pdx va \<noteq> pdx a" by auto
    with None show ?thesis unfolding same_page_iff [symmetric] by (simp add: pte_of_def pt)
  next
    case (Some q)
    have "q = p \<longleftrightarrow> pdx va = pdx a"
      using p Some pgdir_wfD(4) [OF wf pdx_bound pdx_bound p, of va] by auto
    with Some m [OF pgtab_aligned [OF Some], of "ptx va"] show ?thesis
      unfolding same_page_iff [symmetric] by (simp add: pte_of_def pt)
  qed
  show "pgdir_wf (s\<lparr>mem := m\<rparr>) pgdir xs"
    using wf unfolding pgdir_wf_def by (simp add: pt)
  show "free_pages (s\<lparr>mem := m\<rparr>) xs"
  proof (rule free_pages_mem [OF fp])
    fix y assume "y \<in> set xs"
    then show "ld32 m (slot y 0) = ld32 (mem s) (slot y 0)"
      using free_pages_aligned [OF fp, of y] al(4) m [of y 0] by auto
  qed
qed

text \<open>One iteration of \<open>mappages\<close>, with a free page in hand in case a table is missing.\<close>

definition vm_frame :: "'x kmst_scheme \<Rightarrow> 'x kmst_scheme \<Rightarrow> bool" where
  "vm_frame s t \<longleftrightarrow> (\<exists>m f. t = s\<lparr>mem := m, freelist := f\<rparr>)"

lemma vm_frameI: "t = s\<lparr>mem := m, freelist := f\<rparr> \<Longrightarrow> vm_frame s t"
  by (auto simp: vm_frame_def)

lemma vm_frame_refl: "vm_frame s s"
  by (rule vm_frameI [where m = "mem s" and f = "freelist s"]) simp

lemma vm_frame_trans:
  assumes "vm_frame s t" "vm_frame t u"
  shows "vm_frame s u"
proof -
  from assms obtain m f m' f' where "t = s\<lparr>mem := m, freelist := f\<rparr>" "u = t\<lparr>mem := m', freelist := f'\<rparr>"
    unfolding vm_frame_def by blast
  then show ?thesis by (intro vm_frameI [where m = m' and f = f']) simp
qed

lemma vm_frame_unlocked: "vm_frame s t \<Longrightarrow> kmem_unlocked s \<Longrightarrow> kmem_unlocked t"
  by (auto simp: vm_frame_def)

text \<open>Every operation of \<open>vm.c\<close> on page tables changes memory and the free list only.\<close>

lemma vm_frame_reflp: "reflp vm_frame" and vm_frame_transp: "transp vm_frame"
  using vm_frame_refl vm_frame_trans by (auto simp: reflp_def transp_def)

lemma frames_mem: "frames vm_frame (kmod (\<lambda>s. s\<lparr>mem := f (mem s)\<rparr>))"
proof (rule frames_kmod)
  show "vm_frame s (s\<lparr>mem := f (mem s)\<rparr>)" for s :: "'a kmst_scheme"
    by (rule vm_frameI [where m = "f (mem s)" and f = "freelist s"]) simp
qed

lemma frames_kfree: "frames vm_frame (kfree v)"
proof (rule framesI)
  fix s t :: "'a kmst_scheme" and a
  have out: "kfree v s = (if page_ok (kend s) v then
      if kmem_unlocked s then Ok () (s\<lparr>mem := freed_mem (mem s) v (freelist s), freelist := v\<rparr>)
      else Panic ''acquire'' else Panic ''kfree'')"
    using kfree_ok [of s v] kfree_panics [of s v]
    by (auto simp: kfree_def page_ok_def aligned_def acquire_def)
  show "vm_frame s t" if "kfree v s = Ok a t"
    using that unfolding out by (auto split: if_splits intro!: vm_frameI)
  show "vm_frame s t" if "kfree v s = Block t"
    using that unfolding out by (auto split: if_splits)
qed

lemma frames_kalloc: "frames vm_frame kalloc"
proof (rule framesI)
  fix s t :: "'a kmst_scheme" and a
  have out: "kalloc s = (if kmem_unlocked s then Ok (freelist s)
      (if freelist s = 0 then s else s\<lparr>freelist := ld32 (mem s) (freelist s)\<rparr>) else Panic ''acquire'')"
    using kalloc_ok [of s] by (auto simp: kalloc_def acquire_def)
  have "vm_frame s (s\<lparr>freelist := f\<rparr>)" for f
    by (rule vm_frameI [where m = "mem s" and f = f]) simp
  then show "vm_frame s t" if "kalloc s = Ok a t"
    using that unfolding out by (auto split: if_splits intro: vm_frame_refl)
  show "vm_frame s t" if "kalloc s = Block t"
    using that unfolding out by (auto split: if_splits)
qed

lemmas frames_vm_intros = frames_intros vm_frame_reflp vm_frame_transp frames_mem frames_kfree
  frames_kalloc

lemma frames_walkpgdir: "frames vm_frame (walkpgdir pgdir va al)"
  unfolding walkpgdir_def by (intro frames_vm_intros)

lemma frames_deallocuvm_loop: "frames vm_frame (deallocuvm_loop n pgdir a oldsz)"
proof (induction n arbitrary: a)
  case 0
  show ?case unfolding deallocuvm_loop.simps by (rule frames_Hang)
next
  case (Suc n)
  show ?case unfolding deallocuvm_loop.simps by (intro frames_vm_intros frames_walkpgdir Suc)
qed

lemma frames_deallocuvm: "frames vm_frame (deallocuvm pgdir oldsz newsz)"
  unfolding deallocuvm_def by (intro frames_vm_intros frames_deallocuvm_loop)

lemma frames_freevm: "frames vm_frame (freevm pgdir)"
  unfolding freevm_def by (intro frames_vm_intros frames_deallocuvm)

lemma noblock_kfree: "noblock (kfree v)" and noblock_kalloc: "noblock kalloc"
  unfolding kfree_def kalloc_def by (intro noblock_intros noblock_acquire noblock_release)+

lemma noblock_walkpgdir: "noblock (walkpgdir pgdir va al)"
  unfolding walkpgdir_def by (intro noblock_intros noblock_kalloc)

lemma noblock_deallocuvm_loop: "noblock (deallocuvm_loop n pgdir a oldsz)"
proof (induction n arbitrary: a)
  case 0
  show ?case unfolding deallocuvm_loop.simps by (intro noblock_intros)
next
  case (Suc n)
  show ?case unfolding deallocuvm_loop.simps by (intro noblock_intros noblock_walkpgdir noblock_kfree Suc)
qed

lemma noblock_freevm: "noblock (freevm pgdir)"
  unfolding freevm_def deallocuvm_def by (intro noblock_intros noblock_deallocuvm_loop noblock_kfree)

lemma walk_true:
  assumes "pgdir_wf s pgdir (x # xs)" "free_pages s (x # xs)" "kmem_unlocked s"
  shows "\<exists>p t ys. walkpgdir pgdir a True s = Ok (slot p (ptx a)) t \<and>
    pgtab (mem t) pgdir (pdx a) = Some p \<and> (ys = x # xs \<or> ys = xs) \<and>
    pgdir_wf t pgdir ys \<and> free_pages t ys \<and> vm_frame s t \<and>
    (\<forall>va. pte_of (mem t) pgdir va = pte_of (mem s) pgdir va)"
proof (cases "pgtab (mem s) pgdir (pdx a)")
  case (Some p)
  with assms walk_present [OF Some] vm_frame_refl show ?thesis by blast
next
  case None
  let ?t = "s\<lparr>freelist := ld32 (mem s) x, mem := new_table (mem s) pgdir (pdx a) x\<rparr>"
  note new = new_table_ok [OF assms(1,2) None pdx_bound]
  have "pgtab (mem ?t) pgdir (pdx a) = Some x"
    using pgdir_wfD(1,2) [OF assms(1)] free_pages_aligned [OF assms(2), of x]
    by (auto simp: pgtab_new_table)
  moreover have "vm_frame s ?t"
    by (rule vm_frameI [where m = "mem ?t" and f = "freelist ?t"]) simp
  ultimately show ?thesis
    using walk_alloc [OF None assms(2,3)] new by fastforce
qed

abbreviation page_no :: "uint \<Rightarrow> nat" where
  "page_no va \<equiv> unat va div 4096"

lemma page_no_next: "unat a + 8191 < 4294967296 \<Longrightarrow> page_no (a + PGSIZE) = Suc (page_no a)"
  by (simp add: PGSIZE_def unat_word_ariths(1))

lemma map_one:
  assumes "pgdir_wf s pgdir (x # xs)" "free_pages s (x # xs)" "kmem_unlocked s"
    and unmapped: "pte_of (mem s) pgdir a AND PTE_P = 0"
  shows "\<exists>t ys. mappages_loop (Suc k) pgdir a lst pa perm s =
      (if a = lst then Ok 0 t else mappages_loop k pgdir (a + PGSIZE) lst (pa + PGSIZE) perm t) \<and>
    vm_frame s t \<and> pgdir_wf t pgdir ys \<and> free_pages t ys \<and> length xs \<le> length ys \<and>
    (\<forall>va. pte_of (mem t) pgdir va =
      (if page_no va = page_no a then pa OR perm OR PTE_P else pte_of (mem s) pgdir va))"
proof -
  from walk_true [OF assms(1-3), of a] obtain p t ys where
    w: "walkpgdir pgdir a True s = Ok (slot p (ptx a)) t" "pgtab (mem t) pgdir (pdx a) = Some p"
    "ys = x # xs \<or> ys = xs" "pgdir_wf t pgdir ys" "free_pages t ys" "vm_frame s t"
    "\<And>va. pte_of (mem t) pgdir va = pte_of (mem s) pgdir va" by blast
  let ?t = "t\<lparr>mem := st32 (mem t) (slot p (ptx a)) (pa OR perm OR PTE_P)\<rparr>"
  have "unat (slot p (ptx a)) \<noteq> 0"
    using unat_slot [OF pgtab_aligned [OF w(2)] ptx_bound] pgdir_wfD(3) [OF w(4) pdx_bound w(2)]
    by (simp add: unat_eq_zero)
  then have nz: "slot p (ptx a) \<noteq> 0" by (metis unat_0)
  have "ld32 (mem t) (slot p (ptx a)) AND PTE_P = 0"
    using unmapped w(7) [of a] w(2) by (simp add: pte_of_def)
  with w(1) nz have "mappages_loop (Suc k) pgdir a lst pa perm s =
      (if a = lst then Ok 0 ?t else mappages_loop k pgdir (a + PGSIZE) lst (pa + PGSIZE) perm ?t)"
    by simp
  moreover have "vm_frame s ?t"
    by (rule vm_frame_trans [OF w(6)], rule vm_frameI [where m = "mem ?t" and f = "freelist ?t"]) simp
  moreover have "length xs \<le> length ys" using w(3) by auto
  ultimately show ?thesis
    using set_pte_ok [OF w(4,5,2), where v = "pa OR perm OR PTE_P"] w(7) by (intro exI [of _ ?t] exI [of _ ys]) simp
qed

lemma mappages_loop_ok:
  assumes "pgdir_wf s pgdir xs" "free_pages s xs" "kmem_unlocked s"
    and "unat a + 4096 * n + 4095 < 4294967296" "lst = a + of_nat n * PGSIZE" "n < k" "n < length xs"
    and "\<And>va. page_no a \<le> page_no va \<Longrightarrow> page_no va \<le> page_no a + n \<Longrightarrow>
      pte_of (mem s) pgdir va AND PTE_P = 0"
  shows "\<exists>t ys. mappages_loop k pgdir a lst pa perm s = Ok 0 t \<and> vm_frame s t \<and>
    pgdir_wf t pgdir ys \<and> free_pages t ys \<and> (\<forall>va. pte_of (mem t) pgdir va =
      (if page_no a \<le> page_no va \<and> page_no va \<le> page_no a + n
       then (pa + of_nat (page_no va - page_no a) * PGSIZE) OR perm OR PTE_P
       else pte_of (mem s) pgdir va))"
  using assms
proof (induction n arbitrary: s a pa xs k)
  case 0
  then obtain x xs' k' where xs: "xs = x # xs'" "k = Suc k'" by (cases xs; cases k) auto
  from map_one [OF 0(1,2) [unfolded xs] 0(3) 0(8) [of a], of k' lst pa perm] 0(5) xs(2)
  obtain t ys where t: "mappages_loop k pgdir a lst pa perm s = Ok 0 t" "vm_frame s t"
    "pgdir_wf t pgdir ys" "free_pages t ys" "\<And>va. pte_of (mem t) pgdir va =
      (if page_no va = page_no a then pa OR perm OR PTE_P else pte_of (mem s) pgdir va)"
    by (auto simp del: mappages_loop.simps)
  then show ?case by (intro exI [of _ t] exI [of _ ys]) (auto simp del: mappages_loop.simps)
next
  case (Suc n)
  then obtain x xs' k' where xs: "xs = x # xs'" "k = Suc k'" by (cases xs; cases k) auto
  have "a \<noteq> lst"
  proof
    assume "a = lst"
    then have "of_nat (Suc n * 4096) = (0 :: uint)" using Suc.prems(5) by (simp add: PGSIZE_def)
    moreover have "unat (of_nat (Suc n * 4096) :: uint) = Suc n * 4096"
      using Suc.prems(4) by (intro unat_of_nat_uint) simp
    ultimately show False by simp
  qed
  with map_one [OF Suc.prems(1,2) [unfolded xs] Suc.prems(3) Suc.prems(8) [of a], of k' lst pa perm] xs(2)
  obtain t ys where t: "mappages_loop k pgdir a lst pa perm s =
        mappages_loop k' pgdir (a + PGSIZE) lst (pa + PGSIZE) perm t"
    and fr: "vm_frame s t" and wf: "pgdir_wf t pgdir ys" "free_pages t ys" "length xs' \<le> length ys"
    and pte: "\<And>va. pte_of (mem t) pgdir va =
      (if page_no va = page_no a then pa OR perm OR PTE_P else pte_of (mem s) pgdir va)"
    by (auto simp del: mappages_loop.simps)
  have nx: "page_no (a + PGSIZE) = Suc (page_no a)" and ua: "unat (a + PGSIZE) = unat a + 4096"
    using Suc.prems(4) page_no_next [of a] by (simp_all add: PGSIZE_def unat_word_ariths(1))
  have "\<exists>u zs. mappages_loop k' pgdir (a + PGSIZE) lst (pa + PGSIZE) perm t = Ok 0 u \<and> vm_frame t u \<and>
    pgdir_wf u pgdir zs \<and> free_pages u zs \<and> (\<forall>va. pte_of (mem u) pgdir va =
      (if page_no (a + PGSIZE) \<le> page_no va \<and> page_no va \<le> page_no (a + PGSIZE) + n
       then (pa + PGSIZE + of_nat (page_no va - page_no (a + PGSIZE)) * PGSIZE) OR perm OR PTE_P
       else pte_of (mem t) pgdir va))"
  proof (rule Suc.IH [OF wf(1,2) vm_frame_unlocked [OF fr Suc.prems(3)]])
    show "lst = a + PGSIZE + of_nat n * PGSIZE" using Suc.prems(5) by (simp add: algebra_simps)
  qed (use Suc.prems xs wf(3) nx ua pte in \<open>auto simp: algebra_simps\<close>)
  then obtain u zs where u: "mappages_loop k' pgdir (a + PGSIZE) lst (pa + PGSIZE) perm t = Ok 0 u"
    "vm_frame t u" "pgdir_wf u pgdir zs" "free_pages u zs"
    "\<And>va. pte_of (mem u) pgdir va =
      (if Suc (page_no a) \<le> page_no va \<and> page_no va \<le> Suc (page_no a) + n
       then (pa + PGSIZE + of_nat (page_no va - Suc (page_no a)) * PGSIZE) OR perm OR PTE_P
       else pte_of (mem t) pgdir va)"
    unfolding nx by blast
  have "pte_of (mem u) pgdir va =
      (if page_no a \<le> page_no va \<and> page_no va \<le> page_no a + Suc n
       then (pa + of_nat (page_no va - page_no a) * PGSIZE) OR perm OR PTE_P
       else pte_of (mem s) pgdir va)" for va
  proof -
    have "pa + PGSIZE + of_nat (page_no va - Suc (page_no a)) * PGSIZE =
        pa + of_nat (page_no va - page_no a) * PGSIZE" if "Suc (page_no a) \<le> page_no va"
    proof -
      from that have "page_no va - page_no a = Suc (page_no va - Suc (page_no a))" by simp
      then show ?thesis by (simp add: algebra_simps)
    qed
    note eq = this
    show ?thesis
    proof (cases "Suc (page_no a) \<le> page_no va")
      case True
      then show ?thesis unfolding u(5) pte eq [OF True] by auto
    next
      case False
      then show ?thesis unfolding u(5) pte by auto
    qed
  qed
  with u t vm_frame_trans [OF fr u(2)] show ?case by auto
qed

section \<open>Properties\<close>

lemma page_no_down: "page_no (PGROUNDDOWN a) = page_no a"
  by (simp add: unat_PGROUNDDOWN)

text \<open>
  C11. \<open>mappages\<close> maps exactly the pages that \<open>[va, va + size)\<close> touches: if none of them is
  mapped and a free page is left for every page table that may be missing, it returns 0, the
  entry of the \<open>i\<close>-th page is \<open>pa + i * PGSIZE\<close> with \<open>perm\<close> and \<open>PTE_P\<close>, the translation
  of every other virtual address is unchanged, and the page directory stays well formed.
\<close>

theorem mappages_spec:
  assumes "pgdir_wf s pgdir xs" "free_pages s xs" "kmem_unlocked s"
    and "0 < sz" "unat va + unat sz \<le> 2 ^ 32" "n = page_no (va + sz - 1) - page_no va" "n < length xs"
    and "\<And>v. page_no va \<le> page_no v \<Longrightarrow> page_no v \<le> page_no va + n \<Longrightarrow>
      pte_of (mem s) pgdir v AND PTE_P = 0"
  shows "\<exists>t ys. mappages pgdir va sz pa perm s = Ok 0 t \<and> pgdir_wf t pgdir ys \<and> free_pages t ys \<and>
    (\<forall>v. pte_of (mem t) pgdir v =
      (if page_no va \<le> page_no v \<and> page_no v \<le> page_no va + n
       then (pa + of_nat (page_no v - page_no va) * PGSIZE) OR perm OR PTE_P
       else pte_of (mem s) pgdir v))"
proof -
  let ?a = "PGROUNDDOWN va" and ?l = "PGROUNDDOWN (va + sz - 1)"
  have "0 < unat sz" using assms(4) by (simp add: word_less_nat_alt)
  have e: "unat (va + sz - 1) = unat va + unat sz - 1"
  proof -
    have eq: "va + sz - 1 = va + of_nat (unat sz - 1)" using \<open>0 < unat sz\<close> by (simp add: of_nat_diff)
    have "unat va + (unat sz - 1) < 4294967296" using assms(5) \<open>0 < unat sz\<close> by simp
    from unat_add_of_nat [OF this] show ?thesis unfolding eq using \<open>0 < unat sz\<close> by linarith
  qed
  then have le: "page_no va \<le> page_no (va + sz - 1)"
    using \<open>0 < unat sz\<close> by (simp add: div_le_mono)
  have nn: "n < 0x100000"
    using assms(6) unat_uint_bound [of "va + sz - 1"] le by (simp add: div_less_iff_less_mult less_imp_diff_less)
  have un: "unat ?a + 4096 * n = unat ?l"
    using assms(6) le by (simp add: unat_PGROUNDDOWN algebra_simps)
  have bound: "unat ?a + 4096 * n + 4095 < 4294967296"
    using aligned_bound [OF aligned_PGROUNDDOWN, of "va + sz - 1"] un by simp
  have "?l = ?a + of_nat (n * 4096)"
    using bound un unat_add_of_nat [of ?a "n * 4096"] by (simp add: word_unat_eq_iff)
  then have "?l = ?a + of_nat n * PGSIZE" by (simp add: PGSIZE_def)
  from mappages_loop_ok [OF assms(1-3) bound this nn assms(7), of pa perm] assms(8)
  show ?thesis unfolding mappages_def page_no_down by blast
qed

definition wit_vm :: kmst where
  "wit_vm = wit_km\<lparr>mem := st32 (\<lambda>_. 0) 0x80101000 0x80102000, freelist := 0x80101000\<rparr>"

lemma wit_vm_ld32:
  assumes "aligned q" "e < 1024"
  shows "ld32 (mem wit_vm) (slot q e) = (if q = 0x80101000 \<and> e = 0 then 0x80102000 else 0)"
proof -
  have "aligned 0x80101000" by (simp add: aligned_def PGSIZE_def)
  from ld32_st32_slots [OF this assms(1) _ assms(2), of 0] show ?thesis
    by (auto simp: wit_vm_def wit_km_def ld32_def le32_def)
qed

lemma wit_vm_al: "aligned 0x80101000" "aligned 0x80102000" "aligned 0x80200000"
  by (simp_all add: aligned_def PGSIZE_def)

lemma wit_vm_pages: "free_pages wit_vm [0x80101000, 0x80102000]"
proof -
  have "ld32 (mem wit_vm) 0x80101000 = 0x80102000" "ld32 (mem wit_vm) 0x80102000 = 0"
    using wit_vm_ld32 [OF wit_vm_al(1), of 0] wit_vm_ld32 [OF wit_vm_al(2), of 0] by simp_all
  moreover have "freelist wit_vm = 0x80101000" "kend wit_vm = 0x80100000"
    by (simp_all add: wit_vm_def wit_km_def)
  ultimately show ?thesis
    using wit_vm_al by (simp add: free_pages_def page_ok_def v2p_def KERNBASE_def PHYSTOP_def)
qed

lemma wit_vm_pgtab: "d < 1024 \<Longrightarrow> pgtab (mem wit_vm) 0x80200000 d = None"
  using wit_vm_ld32 [OF wit_vm_al(3)] by (simp add: pgtab_def)

theorem mappages_spec_witness:
  "\<exists>t. mappages 0x80200000 0x1000 4096 0x300000 6 wit_vm = Ok 0 t \<and>
     pte_of (mem t) 0x80200000 0x1234 = 0x300007 \<and> pte_of (mem t) 0x80200000 0x2000 = 0"
proof -
  have wf: "pgdir_wf wit_vm 0x80200000 [0x80101000, 0x80102000]"
    using wit_vm_al by (simp add: pgdir_wf_def wit_vm_pgtab)
  have u: "kmem_unlocked wit_vm" by (simp add: wit_vm_def wit_km_def)
  have z: "pte_of (mem wit_vm) 0x80200000 v = 0" for v
    by (simp add: pte_of_def wit_vm_pgtab)
  have "0 < (4096 :: uint)" "unat (0x1000 :: uint) + unat (4096 :: uint) \<le> 2 ^ 32"
    "0 = page_no (0x1000 + 4096 - 1 :: uint) - page_no 0x1000" "0 < length [0x80101000 :: uint, 0x80102000]"
    by simp_all
  note s = mappages_spec [OF wf wit_vm_pages u this, of "0x300000" 6]
  have "\<exists>t ys. mappages 0x80200000 0x1000 4096 0x300000 6 wit_vm = Ok 0 t \<and>
      pgdir_wf t 0x80200000 ys \<and> free_pages t ys \<and>
      (\<forall>v. pte_of (mem t) 0x80200000 v =
        (if page_no 0x1000 \<le> page_no v \<and> page_no v \<le> page_no 0x1000 + 0
         then (0x300000 + of_nat (page_no v - page_no 0x1000) * PGSIZE) OR 6 OR PTE_P
         else pte_of (mem wit_vm) 0x80200000 v))"
    by (rule s) (simp add: z)
  then obtain t where t: "mappages 0x80200000 0x1000 4096 0x300000 6 wit_vm = Ok 0 t"
    and p: "\<And>v. pte_of (mem t) 0x80200000 v =
        (if page_no 0x1000 \<le> page_no v \<and> page_no v \<le> page_no 0x1000 + 0
         then (0x300000 + of_nat (page_no v - page_no 0x1000) * PGSIZE) OR 6 OR PTE_P
         else pte_of (mem wit_vm) 0x80200000 v)" by blast
  from t p [of "0x1234"] p [of "0x2000"] show ?thesis by (simp add: z PTE_P_def)
qed

text \<open>
  \<open>mappages\<close> never silently replaces a mapping: if the first page already has a present
  entry it panics with \<open>remap\<close>.
\<close>

theorem mappages_remap_panics:
  assumes "pte_of (mem s) pgdir (PGROUNDDOWN va) AND PTE_P \<noteq> 0" "pgdir_wf s pgdir xs"
  shows "mappages pgdir va sz pa perm s = Panic ''remap''"
proof -
  let ?a = "PGROUNDDOWN va"
  from assms(1) obtain p where p: "pgtab (mem s) pgdir (pdx ?a) = Some p"
    by (auto simp: pte_of_def split: option.splits)
  have "unat (slot p (ptx ?a)) \<noteq> 0"
    using unat_slot [OF pgtab_aligned [OF p] ptx_bound] pgdir_wfD(3) [OF assms(2) pdx_bound p]
    by (simp add: unat_eq_zero)
  then have "slot p (ptx ?a) \<noteq> 0" by (metis unat_0)
  then have "mappages_loop (Suc n) pgdir ?a l pa perm s = Panic ''remap''" for n l
    using assms(1) p walk_present [OF p] by (simp add: pte_of_def)
  from this [of "0xFFFFF"] show ?thesis unfolding mappages_def by simp
qed

theorem mappages_remap_panics_witness:
  "mappages 0x80200000 0x1000 4096 0x400000 6 (wit_vm\<lparr>freelist := 0, mem :=
     st32 (new_table (mem wit_vm) 0x80200000 0 0x80101000) 0x80101004 0x300007\<rparr>) = Panic ''remap''"
    (is "mappages _ _ _ _ _ ?s = _")
proof -
  have wf: "pgdir_wf wit_vm 0x80200000 [0x80101000, 0x80102000]"
    using wit_vm_al by (simp add: pgdir_wf_def wit_vm_pgtab)
  let ?t = "wit_vm\<lparr>freelist := ld32 (mem wit_vm) 0x80101000,
    mem := new_table (mem wit_vm) 0x80200000 0 0x80101000\<rparr>"
  have wf': "pgdir_wf ?t 0x80200000 [0x80102000]"
    using new_table_ok(2) [OF wf wit_vm_pages wit_vm_pgtab, of 0] by simp
  have fp: "free_pages ?t [0x80102000]"
    using new_table_ok(3) [OF wf wit_vm_pages wit_vm_pgtab, of 0] by simp
  have "pgtab (mem ?t) 0x80200000 (pdx 0x1000) = Some 0x80101000"
    using pgtab_new_table [OF wit_vm_al(3,1), of 0 0 "mem wit_vm"] by (simp add: pdx_def)
  note set = set_pte_ok [OF wf' fp this, where v = "0x300007"]
  have "ptx 0x1000 = 1" by (simp add: ptx_def)
  with set have "pte_of (mem ?s) 0x80200000 0x1000 = 0x300007" "pgdir_wf ?s 0x80200000 [0x80102000]"
    by (simp_all add: pgdir_wf_def)
  moreover have "PGROUNDDOWN 0x1000 = 0x1000" by code_simp
  ultimately show ?thesis
    by (intro mappages_remap_panics [where xs = "[0x80102000]"]) (simp_all add: PTE_P_def)
qed

end
