(* ===== verification/Proc.thy ===== *)
theory Proc
  imports Vm
begin

text \<open>
  The process table of \<open>proc.c\<close>: \<open>struct proc\<close>, allocation, scheduling, sleep and wakeup,
  \<open>kill\<close>, the process listings, and \<open>growproc\<close>. \<open>fork\<close>, \<open>exit\<close>, \<open>wait\<close> and \<open>userinit\<close>
  use files and inodes and are in \<open>Proclife\<close>. A process is its index in the table. The trap
  frame and the saved context, which the code keeps at the top of the kernel stack, are
  fields of the process.
\<close>

section \<open>Data\<close>

record trapframe =
  tf_edi :: uint
  tf_esi :: uint
  tf_ebp :: uint
  tf_oesp :: uint
  tf_ebx :: uint
  tf_edx :: uint
  tf_ecx :: uint
  tf_eax :: uint
  tf_gs :: ushort
  tf_fs :: ushort
  tf_es :: ushort
  tf_ds :: ushort
  tf_trapno :: uint
  tf_err :: uint
  tf_eip :: uint
  tf_cs :: ushort
  tf_eflags :: uint
  tf_esp :: uint
  tf_ss :: ushort

definition tf_zero :: trapframe where
  "tf_zero = \<lparr>tf_edi = 0, tf_esi = 0, tf_ebp = 0, tf_oesp = 0, tf_ebx = 0, tf_edx = 0, tf_ecx = 0,
     tf_eax = 0, tf_gs = 0, tf_fs = 0, tf_es = 0, tf_ds = 0, tf_trapno = 0, tf_err = 0, tf_eip = 0,
     tf_cs = 0, tf_eflags = 0, tf_esp = 0, tf_ss = 0\<rparr>"

datatype codeptr = CP_forkret | CP_trapret | CP_addr uint

text \<open>The saved context, with the return address that \<open>allocproc\<close> puts above it.\<close>

record kcontext =
  cx_edi :: uint
  cx_esi :: uint
  cx_ebx :: uint
  cx_ebp :: uint
  cx_eip :: codeptr
  cx_ret :: codeptr

datatype procstate = UNUSED | EMBRYO | SLEEPING | RUNNABLE | RUNNING | ZOMBIE

text \<open>The addresses processes sleep on.\<close>

datatype chan = Ch_null | Ch_proc nat | Ch_ticks | Ch_buf nat | Ch_log | Ch_inode nat
  | Ch_nread uint | Ch_nwrite uint | Ch_input

record proc =
  sz :: uint
  pgdir :: uint
  kstack :: uint
  pstate :: procstate
  pid :: uint
  parent :: "nat option"
  tf :: trapframe
  pcontext :: kcontext
  pchan :: chan
  killed :: bool
  ofile :: "nat option list"
  cwd :: "nat option"
  pname :: "uchar list"
  start_ticks :: uint
  uid :: uint
  gid :: uint
  cpu_ticks_total :: uint
  cpu_ticks_in :: uint

definition NPROC :: nat where "NPROC = 64"
definition NOFILE :: nat where "NOFILE = 16"

text \<open>\<open>cur\<close> is the CPU's \<open>proc\<close>.\<close>

record pst = vmst +
  procs :: "proc list"
  nextpid :: uint
  initproc :: "nat option"
  cur :: "nat option"
  ticks :: uint

abbreviation upd_proc :: "nat \<Rightarrow> (proc \<Rightarrow> proc) \<Rightarrow> ('x pst_scheme, unit) kop" where
  "upd_proc i f \<equiv> kmod (\<lambda>s. s\<lparr>procs := (procs s)[i := f (procs s ! i)]\<rparr>)"

text \<open>\<open>proc->...\<close> faults while no process runs, and a fault in the kernel is \<open>trap\<close>'s panic.\<close>

definition myproc :: "('x pst_scheme, nat) kop" where
  "myproc s = (case cur s of None \<Rightarrow> Panic ''trap'' | Some i \<Rightarrow> Ok i s)"

section \<open>Allocation\<close>

definition context_init :: kcontext where
  "context_init = \<lparr>cx_edi = 0, cx_esi = 0, cx_ebx = 0, cx_ebp = 0, cx_eip = CP_forkret, cx_ret = CP_trapret\<rparr>"

definition allocproc :: "('x pst_scheme, nat option) kop" where
  "allocproc =
     kthen (acquire LK_ptable) (
     kbind (kget (\<lambda>s. find_idx (\<lambda>p. pstate p = UNUSED) (procs s))) (\<lambda>found.
     case found of
       None \<Rightarrow> kthen (release LK_ptable) (kret None)
     | Some i \<Rightarrow>
         kthen (kmod (\<lambda>s. s\<lparr>procs := (procs s)[i := (procs s ! i)\<lparr>pstate := EMBRYO, pid := nextpid s\<rparr>],
                          nextpid := nextpid s + 1\<rparr>)) (
         kthen (release LK_ptable) (
         kbind kalloc (\<lambda>k.
         kthen (upd_proc i (\<lambda>p. p\<lparr>kstack := k\<rparr>)) (
         if k = 0 then kthen (upd_proc i (\<lambda>p. p\<lparr>pstate := UNUSED\<rparr>)) (kret None)
         else
           kthen (upd_proc i (\<lambda>p. p\<lparr>pcontext := context_init\<rparr>)) (
           kthen (kmod (\<lambda>s. s\<lparr>procs := (procs s)[i := (procs s ! i)\<lparr>start_ticks := ticks s,
                                cpu_ticks_total := 0, cpu_ticks_in := 0\<rparr>]\<rparr>))
             (kret (Some i)))))))))"

section \<open>Scheduling\<close>

definition switchuvm :: "nat \<Rightarrow> ('x pst_scheme, unit) kop" where
  "switchuvm i =
     kbind myproc (\<lambda>c.
     kbind (kget (\<lambda>s. (kstack (procs s ! c), pgdir (procs s ! i)))) (\<lambda>(k, d). switchuvm_to k d))"

definition growproc :: "int \<Rightarrow> ('x pst_scheme, int) kop" where
  "growproc n =
     kbind myproc (\<lambda>c.
     kbind (kget (\<lambda>s. (pgdir (procs s ! c), sz (procs s ! c)))) (\<lambda>(d, old).
     kbind (if n > 0 then allocuvm d old (old + word_of_int n)
            else if n < 0 then deallocuvm d old (old + word_of_int n)
            else kret old) (\<lambda>new.
     if n \<noteq> 0 \<and> new = 0 then kret (- 1)
     else kthen (upd_proc c (\<lambda>p. p\<lparr>sz := new\<rparr>)) (kthen (switchuvm c) (kret 0)))))"

text \<open>
  \<open>sched\<close> up to \<open>swtch\<close>: the CPU leaves this process. The fourth check reads the interrupt
  flag, which is off whenever a lock is held.
\<close>

definition sched :: "('x pst_scheme, unit) kop" where
  "sched =
     kbind (kget held) (\<lambda>h.
     kthen (kguard (LK_ptable \<notin> set h) ''sched ptable.lock'') (
     kthen (kguard (length h \<noteq> 1) ''sched locks'') (
     kbind myproc (\<lambda>c.
     kbind (kget (\<lambda>s. pstate (procs s ! c))) (\<lambda>st.
     kthen (kguard (st = RUNNING) ''sched running'') (
     kthen (kmod (\<lambda>s. s\<lparr>procs := (procs s)[c := (procs s ! c)
                          \<lparr>cpu_ticks_total := cpu_ticks_total (procs s ! c)
                                            + (ticks s - cpu_ticks_in (procs s ! c))\<rparr>]\<rparr>))
       (\<lambda>s. Block s)))))))"

definition yield :: "('x pst_scheme, unit) kop" where
  "yield = kthen (acquire LK_ptable) (kbind myproc (\<lambda>c.
     kthen (upd_proc c (\<lambda>p. p\<lparr>pstate := RUNNABLE\<rparr>)) sched))"

definition yield_resume :: "('x pst_scheme, unit) kop" where
  "yield_resume = release LK_ptable"

text \<open>
  One dispatch of \<open>scheduler\<close>, with \<open>ptable.lock\<close> held: run process \<open>i\<close> up to the \<open>swtch\<close>
  into it; and what the scheduler does when the process switches back.
\<close>

definition scheduler_run :: "nat \<Rightarrow> ('x pst_scheme, unit) kop" where
  "scheduler_run i =
     kthen (kmod (\<lambda>s. s\<lparr>cur := Some i\<rparr>)) (
     kthen (switchuvm i)
       (kmod (\<lambda>s. s\<lparr>procs := (procs s)[i := (procs s ! i)\<lparr>pstate := RUNNING, cpu_ticks_in := ticks s\<rparr>]\<rparr>)))"

definition scheduler_back :: "('x pst_scheme, unit) kop" where
  "scheduler_back = kthen switchkvm (kmod (\<lambda>s. s\<lparr>cur := None\<rparr>))"

text \<open>The scan of the table from entry \<open>i\<close> on: the next process to run, if any.\<close>

definition scheduler_next :: "nat \<Rightarrow> 'x pst_scheme \<Rightarrow> nat option" where
  "scheduler_next i s =
     map_option (\<lambda>k. i + k) (find_idx (\<lambda>p. pstate p = RUNNABLE) (drop i (procs s)))"

section \<open>Sleep and wakeup\<close>

text \<open>\<open>sleep\<close> up to the switch away, and from the switch back. \<open>lk\<close> is None for a null lock.\<close>

definition sleep :: "chan \<Rightarrow> lockid option \<Rightarrow> ('x pst_scheme, unit) kop" where
  "sleep ch lk =
     kbind (kget cur) (\<lambda>c.
     kthen (kguard (c = None) ''sleep'') (
     kthen (kwhen (lk \<noteq> Some LK_ptable)
             (kthen (acquire LK_ptable) (case lk of None \<Rightarrow> kret () | Some l \<Rightarrow> release l))) (
     kthen (upd_proc (the c) (\<lambda>p. p\<lparr>pchan := ch, pstate := SLEEPING\<rparr>)) sched)))"

definition sleep_resume :: "lockid option \<Rightarrow> ('x pst_scheme, unit) kop" where
  "sleep_resume lk =
     kbind myproc (\<lambda>c.
     kthen (upd_proc c (\<lambda>p. p\<lparr>pchan := Ch_null\<rparr>))
       (kwhen (lk \<noteq> Some LK_ptable)
         (kthen (release LK_ptable) (case lk of None \<Rightarrow> kret () | Some l \<Rightarrow> acquire l))))"

definition wake_proc :: "chan \<Rightarrow> proc \<Rightarrow> proc" where
  "wake_proc ch p = (if pstate p = SLEEPING \<and> pchan p = ch then p\<lparr>pstate := RUNNABLE\<rparr> else p)"

definition wakeup1 :: "chan \<Rightarrow> ('x pst_scheme, unit) kop" where
  "wakeup1 ch = kmod (\<lambda>s. s\<lparr>procs := map (wake_proc ch) (procs s)\<rparr>)"

definition wakeup :: "chan \<Rightarrow> ('x pst_scheme, unit) kop" where
  "wakeup ch = kthen (acquire LK_ptable) (kthen (wakeup1 ch) (release LK_ptable))"

definition kill :: "uint \<Rightarrow> ('x pst_scheme, int) kop" where
  "kill n =
     kthen (acquire LK_ptable) (
     kbind (kget (\<lambda>s. find_idx (\<lambda>p. pid p = n) (procs s))) (\<lambda>found.
     case found of
       None \<Rightarrow> kthen (release LK_ptable) (kret (- 1))
     | Some i \<Rightarrow>
         kthen (upd_proc i (\<lambda>p. p\<lparr>killed := True,
                  pstate := (if pstate p = SLEEPING then RUNNABLE else pstate p)\<rparr>)) (
         kthen (release LK_ptable) (kret 0))))"

section \<open>The ends of a process\<close>

text \<open>The address of a process as a channel; a null pointer is no process.\<close>

definition chan_of :: "nat option \<Rightarrow> chan" where
  "chan_of p = (case p of None \<Rightarrow> Ch_null | Some i \<Rightarrow> Ch_proc i)"

text \<open>\<open>exit\<close> from the point where its files are closed and its directory is released.\<close>

definition reparent :: "nat \<Rightarrow> nat \<Rightarrow> ('x pst_scheme, unit) kop" where
  "reparent c i =
     kbind (kget (\<lambda>s. (parent (procs s ! i), pstate (procs s ! i), initproc s))) (\<lambda>(par, st, ip).
     kwhen (par = Some c)
       (kthen (upd_proc i (\<lambda>p. p\<lparr>parent := ip\<rparr>))
         (kwhen (st = ZOMBIE) (wakeup1 (chan_of ip)))))"

definition exit_tail :: "('x pst_scheme, unit) kop" where
  "exit_tail =
     kthen (acquire LK_ptable) (
     kbind myproc (\<lambda>c.
     kbind (kget (\<lambda>s. parent (procs s ! c))) (\<lambda>par.
     kthen (wakeup1 (chan_of par)) (
     kthen (kfor [0..<NPROC] (reparent c)) (
     kthen (upd_proc c (\<lambda>p. p\<lparr>pstate := ZOMBIE\<rparr>)) (
     kthen sched (panic ''zombie exit'')))))))"

text \<open>
  One pass of \<open>wait\<close>'s loop, with the lock held: reap the first zombie child, fail if there
  is no child or the process was killed, else sleep. After the sleep the loop runs again.
\<close>

definition reap :: "nat \<Rightarrow> ('x pst_scheme, int) kop" where
  "reap i =
     kbind (kget (\<lambda>s. procs s ! i)) (\<lambda>p.
     kthen (kfree (kstack p)) (
     kthen (upd_proc i (\<lambda>p. p\<lparr>kstack := 0\<rparr>)) (
     kthen (freevm (pgdir p)) (
     kthen (upd_proc i (\<lambda>p. p\<lparr>pstate := UNUSED, pid := 0, parent := None,
              pname := (pname p)[0 := 0], killed := False\<rparr>)) (
     kthen (release LK_ptable) (kret (sint (pid p))))))))"

definition wait_loop :: "('x pst_scheme, int) kop" where
  "wait_loop =
     kbind myproc (\<lambda>c.
     kbind (kget (\<lambda>s. (find_idx (\<lambda>p. parent p = Some c \<and> pstate p = ZOMBIE) (procs s),
                      list_ex (\<lambda>p. parent p = Some c) (procs s), killed (procs s ! c)))) (\<lambda>(z, havekids, kd).
     case z of
       Some i \<Rightarrow> reap i
     | None \<Rightarrow>
         if \<not> havekids \<or> kd then kthen (release LK_ptable) (kret (- 1))
         else kthen (sleep (Ch_proc c) (Some LK_ptable)) (kret 0)))"

definition wait :: "('x pst_scheme, int) kop" where
  "wait = kthen (acquire LK_ptable) wait_loop"

definition wait_resume :: "('x pst_scheme, int) kop" where
  "wait_resume = kthen (sleep_resume (Some LK_ptable)) wait_loop"

section \<open>Listings\<close>

definition state_name :: "procstate \<Rightarrow> string" where
  "state_name st = (case st of UNUSED \<Rightarrow> ''unused'' | EMBRYO \<Rightarrow> ''embryo'' | SLEEPING \<Rightarrow> ''sleep ''
     | RUNNABLE \<Rightarrow> ''runble'' | RUNNING \<Rightarrow> ''run   '' | ZOMBIE \<Rightarrow> ''zombie'')"

definition convert_state :: "procstate \<Rightarrow> string" where
  "convert_state st = (case st of UNUSED \<Rightarrow> ''Unused  '' | EMBRYO \<Rightarrow> ''Embryo  '' | SLEEPING \<Rightarrow> ''Sleeping''
     | RUNNABLE \<Rightarrow> ''Runnable'' | RUNNING \<Rightarrow> ''Running '' | ZOMBIE \<Rightarrow> ''Zombie  '')"

definition tab :: char where "tab = CHR 0x09"

definition str_bytes :: "string \<Rightarrow> uchar list" where
  "str_bytes s = map of_char s"

definition num :: "uint \<Rightarrow> carg" where "num x = (x, [])"

text \<open>A string argument: its address is not null.\<close>

definition str :: "uchar list \<Rightarrow> carg" where "str s = (1, cstr s)"

definition procdump_line :: "nat \<Rightarrow> ('x pst_scheme, unit) kop" where
  "procdump_line i =
     kbind (kget (\<lambda>s. procs s ! i)) (\<lambda>p.
     if pstate p = UNUSED then kret () else
     kthen (cprintf ([tab] @ ''%d'' @ [tab] @ ''%s'' @ [tab] @ ''%d'' @ [tab] @ ''%d'') [num (pid p), str (pname p), num (uid p), num (gid p)]) (
     kbind (kget (\<lambda>s. case parent p of None \<Rightarrow> uid p | Some q \<Rightarrow> uid (procs s ! q))) (\<lambda>u.
     kthen (cprintf ([tab] @ ''%d'' @ [tab]) [num u]) (
     kbind (kget ticks) (\<lambda>temp.
     kthen (cprintf (''%d.%d'' @ [tab]) [num ((temp - start_ticks p) div 1000), num ((temp - start_ticks p) mod 1000)]) (
     kthen (cprintf ('' '' @ [tab] @ ''%d'') [num (cpu_ticks_total p)]) (
     kthen (cprintf ([tab] @ ''%s'' @ [tab] @ ''%d'' @ [tab]) [str (str_bytes (state_name (pstate p))), num (sz p)]) (
     kthen (kwhen (pstate p = SLEEPING)
             (kbind (kget (\<lambda>s. takeWhile (\<lambda>pc. pc \<noteq> 0) (getcallerpcs (mem s) (cx_ebp (pcontext p) + 8)))) (\<lambda>pcs.
              kfor pcs (\<lambda>pc. cprintf '' %p'' [num pc]))))
       (cprintf ''\<newline>'' [])))))))))"

definition procdump :: "('x pst_scheme, unit) kop" where
  "procdump =
     kthen (cprintf ([tab] @ ''PID '' @ [tab] @ ''Name '' @ [tab] @ ''UID '' @ [tab] @ ''GID '' @ [tab] @ ''PPID '' @ [tab] @ ''Elapsed '' @ [tab] @ ''CPU '' @ [tab] @ ''State '' @ [tab] @ ''Size '' @ [tab] @ ''PCs\<newline>'') []) (
     kthen (kfor [0..<NPROC] procdump_line) (cprintf ''$ '' []))"

text \<open>
  \<open>getproc\<close> writes \<open>struct uproc\<close> entries of 96 bytes at the user address \<open>table\<close>. A null
  \<open>parent\<close> is dereferenced: \<open>uid\<close> is at offset 128 of \<open>struct proc\<close>.
\<close>

definition vstore32 :: "uint \<Rightarrow> uint \<Rightarrow> ('x vmst_scheme, unit) kop" where
  "vstore32 a v = vstores a [byte_of 0 v, byte_of 1 v, byte_of 2 v, byte_of 3 v]"

definition uproc_ppid :: "proc \<Rightarrow> ('x pst_scheme, uint) kop" where
  "uproc_ppid p =
     kbind (case parent p of None \<Rightarrow> vload32 128 | Some q \<Rightarrow> kget (\<lambda>s. uid (procs s ! q))) (\<lambda>u.
     kret (if u = 0 then uid p else u))"

text \<open>The bytes \<open>safestrcpy(dst, t, n)\<close> stores: the rest of the destination is not touched.\<close>

definition safestrcpy_w :: "uchar list \<Rightarrow> nat \<Rightarrow> uchar list" where
  "safestrcpy_w t n = (let c = take (n - 1) (cstr t) in if length c < n - 1 then c @ [0, 0] else c @ [0])"

definition getproc_entry :: "uint \<Rightarrow> nat \<Rightarrow> ('x pst_scheme, unit) kop" where
  "getproc_entry table i =
     kbind (kget (\<lambda>s. procs s ! i)) (\<lambda>p.
     let a = table + 96 * of_nat i; st = str_bytes (convert_state (pstate p)) in
     kthen (vstore32 a (pid p)) (
     kthen (vstore32 (a + 4) (uid p)) (
     kthen (vstore32 (a + 8) (gid p)) (
     kbind (uproc_ppid p) (\<lambda>u.
     kthen (vstore32 (a + 12) u) (
     kthen (vstore32 (a + 20) (cpu_ticks_total p)) (
     kbind (kget ticks) (\<lambda>now.
     kthen (vstore32 (a + 16) (now - start_ticks p)) (
     kthen (vstore32 (a + 56) (sz p)) (
     kthen (vstores (a + 64) (safestrcpy_w (pname p) 16))
       (vstores (a + 24) (safestrcpy_w st (length st + 1)))))))))))))"

text \<open>The loop: entries \<open>i\<close>, \<open>i + 1\<close>, ... until a free slot, the end of the table or \<open>max\<close>.\<close>

primrec getproc_loop :: "nat \<Rightarrow> uint \<Rightarrow> int \<Rightarrow> nat \<Rightarrow> ('x pst_scheme, int) kop" where
  "getproc_loop 0 table mx i = kret (int i)"
| "getproc_loop (Suc n) table mx i =
     kbind (kget (\<lambda>s. pstate (procs s ! i))) (\<lambda>st.
     if st \<noteq> UNUSED \<and> int i < mx
     then kthen (getproc_entry table i) (getproc_loop n table mx (Suc i))
     else kret (int i))"

definition getproc :: "int \<Rightarrow> uint \<Rightarrow> ('x pst_scheme, int) kop" where
  "getproc mx table =
     kthen (acquire LK_ptable) (
     kbind (getproc_loop NPROC table mx 0) (\<lambda>n.
     kthen (release LK_ptable) (kret n)))"

section \<open>Effects\<close>

lemma vm_frame_pst:
  assumes "vm_frame s (t :: 'x pst_scheme)"
  shows "procs t = procs s" "cur t = cur s" "nextpid t = nextpid s" "held t = held s"
    "initproc t = initproc s" "ticks t = ticks s"
  using assms by (auto simp: vm_frame_def)

lemma myproc_apply [simp]: "cur s = Some c \<Longrightarrow> myproc s = Ok c s"
  by (simp add: myproc_def)

lemma myproc_None [simp]: "cur s = None \<Longrightarrow> myproc s = Panic ''trap''"
  by (simp add: myproc_def)

text \<open>The accounting \<open>sched\<close> does before it switches.\<close>

definition charge :: "uint \<Rightarrow> proc \<Rightarrow> proc" where
  "charge now p = p\<lparr>cpu_ticks_total := cpu_ticks_total p + (now - cpu_ticks_in p)\<rparr>"

lemma sched_blocks:
  assumes "held s = [LK_ptable]" "cur s = Some c" "pstate (procs s ! c) \<noteq> RUNNING"
  shows "sched s = Block (s\<lparr>procs := (procs s)[c := charge (ticks s) (procs s ! c)]\<rparr>)"
  using assms by (simp add: sched_def charge_def)

lemma sched_Block_iff:
  "sched s = Block t \<longleftrightarrow> held s = [LK_ptable] \<and> (\<exists>c. cur s = Some c \<and>
     pstate (procs s ! c) \<noteq> RUNNING \<and> t = s\<lparr>procs := (procs s)[c := charge (ticks s) (procs s ! c)]\<rparr>)"
  by (cases "held s"; cases "cur s") (auto simp: sched_def charge_def myproc_def)

lemma sched_not_Ok: "sched s \<noteq> Ok a t"
  by (cases "cur s") (auto simp: sched_def myproc_def)

text \<open>The process that goes to sleep, as \<open>sleep\<close> leaves it.\<close>

definition asleep :: "chan \<Rightarrow> uint \<Rightarrow> proc \<Rightarrow> proc" where
  "asleep ch now p = charge now (p\<lparr>pchan := ch, pstate := SLEEPING\<rparr>)"

lemma sleep_blocks:
  assumes "cur s = Some c" "c < length (procs s)"
    and "lk = Some LK_ptable \<and> held s = [LK_ptable] \<or> lk = None \<and> held s = [] \<or>
      (\<exists>l. lk = Some l \<and> l \<noteq> LK_ptable \<and> held s = [l])"
  shows "sleep ch lk s =
    Block (s\<lparr>held := [LK_ptable], procs := (procs s)[c := asleep ch (ticks s) (procs s ! c)]\<rparr>)"
  using assms(3)
proof (elim disjE exE conjE)
  show ?thesis if "lk = Some LK_ptable" "held s = [LK_ptable]"
    using that assms(1,2) by (simp add: sleep_def sched_blocks asleep_def)
  show ?thesis if "lk = None" "held s = []"
    using that assms(1,2) by (simp add: sleep_def sched_blocks asleep_def)
  show ?thesis if "lk = Some l" "l \<noteq> LK_ptable" "held s = [l]" for l
    using that assms(1,2) by (simp add: sleep_def sched_blocks asleep_def)
qed

lemma wakeup_ok:
  "LK_ptable \<notin> set (held s) \<Longrightarrow> wakeup ch s = Ok () (s\<lparr>procs := map (wake_proc ch) (procs s)\<rparr>)"
  by (simp add: wakeup_def wakeup1_def)

lemma ends_myproc [simp]: "ends myproc s Q B \<longleftrightarrow> (\<forall>c. cur s = Some c \<longrightarrow> Q c s)"
  by (simp add: myproc_def ends_def split: option.split)

lemma ends_wakeup [simp]:
  "ends (wakeup ch) s Q B \<longleftrightarrow> (LK_ptable \<notin> set (held s) \<longrightarrow> Q () (s\<lparr>procs := map (wake_proc ch) (procs s)\<rparr>))"
  by (simp add: wakeup_def wakeup1_def)

lemma ends_sched: "(\<And>pr. B (s\<lparr>procs := pr\<rparr>)) \<Longrightarrow> ends sched s Q B"
  by (rule endsI) (auto simp: sched_not_Ok sched_Block_iff)

lemma ends_sleep:
  assumes "\<And>h pr. B (s\<lparr>held := h, procs := pr\<rparr>)"
  shows "ends (sleep ch lk) s Q B"
proof -
  have *: "B (s\<lparr>procs := pr\<rparr>)" for pr using assms [of pr "held s"] by simp
  have 1: "ends sched (s\<lparr>held := h, procs := pr\<rparr>) Q B" for h pr by (rule ends_sched) (simp add: assms)
  have 2: "ends sched (s\<lparr>procs := pr\<rparr>) Q B" for pr by (rule ends_sched) (simp add: *)
  show ?thesis by (cases lk) (simp_all add: sleep_def 1 2)
qed

lemma ends_sleep_resume:
  assumes "\<And>h pr. Q () (s\<lparr>held := h, procs := pr\<rparr>)"
  shows "ends (sleep_resume lk) s Q B"
proof -
  have 1: "Q () (s\<lparr>procs := pr\<rparr>)" for pr using assms [of pr "held s"] by simp
  have eq: "s\<lparr>procs := pr, held := h\<rparr> = s\<lparr>held := h, procs := pr\<rparr>" for h pr by (cases s) simp
  have 2: "Q () (s\<lparr>procs := pr, held := h\<rparr>)" for h pr unfolding eq by (rule assms)
  show ?thesis by (cases lk) (simp_all add: sleep_resume_def 1 2)
qed

end
