(* ===== verification/Ptable.thy ===== *)
theory Ptable
  imports Proc
begin

text \<open>
  The process table as a state machine: the operations of \<open>proc.c\<close> that change process
  states, as the steps the scheduler and the running process take. The invariant ties
  \<open>RUNNING\<close> to the CPU's \<open>proc\<close>, keeps the pids of live processes distinct, and says a
  sleeping process sleeps on something.
\<close>

section \<open>A well-formed table\<close>

abbreviation live :: "proc \<Rightarrow> bool" where
  "live p \<equiv> pstate p \<noteq> UNUSED"

definition tab_ok :: "proc list \<Rightarrow> nat option \<Rightarrow> uint \<Rightarrow> bool" where
  "tab_ok ps c np \<longleftrightarrow> length ps = NPROC \<and> (\<forall>i. c = Some i \<longrightarrow> i < NPROC) \<and>
     (\<forall>i<NPROC. pstate (ps ! i) = RUNNING \<longleftrightarrow> c = Some i) \<and>
     (\<forall>i<NPROC. live (ps ! i) \<longrightarrow> unat (pid (ps ! i)) < unat np) \<and>
     (\<forall>i<NPROC. \<forall>j<NPROC. live (ps ! i) \<longrightarrow> live (ps ! j) \<longrightarrow> pid (ps ! i) = pid (ps ! j) \<longrightarrow> i = j) \<and>
     (\<forall>i<NPROC. pstate (ps ! i) = SLEEPING \<longrightarrow> pchan (ps ! i) \<noteq> Ch_null)"

lemma tab_okD:
  assumes "tab_ok ps c np"
  shows "length ps = NPROC" "c = Some i \<Longrightarrow> i < NPROC"
    "i < NPROC \<Longrightarrow> pstate (ps ! i) = RUNNING \<longleftrightarrow> c = Some i"
    "i < NPROC \<Longrightarrow> live (ps ! i) \<Longrightarrow> unat (pid (ps ! i)) < unat np"
    "i < NPROC \<Longrightarrow> j < NPROC \<Longrightarrow> live (ps ! i) \<Longrightarrow> live (ps ! j) \<Longrightarrow> pid (ps ! i) = pid (ps ! j) \<Longrightarrow> i = j"
    "i < NPROC \<Longrightarrow> pstate (ps ! i) = SLEEPING \<Longrightarrow> pchan (ps ! i) \<noteq> Ch_null"
  using assms unfolding tab_ok_def by blast+

lemma tab_ok_upd:
  assumes t: "tab_ok ps c np" and k: "k < NPROC" and np: "unat np \<le> unat np'"
    and c: "\<And>i. i \<noteq> k \<Longrightarrow> c' = Some i \<longleftrightarrow> c = Some i" and r: "pstate p = RUNNING \<longleftrightarrow> c' = Some k"
    and l: "live p \<Longrightarrow> unat (pid p) < unat np'"
    and d: "\<And>i. live p \<Longrightarrow> i < NPROC \<Longrightarrow> i \<noteq> k \<Longrightarrow> live (ps ! i) \<Longrightarrow> pid (ps ! i) \<noteq> pid p"
    and s: "pstate p = SLEEPING \<Longrightarrow> pchan p \<noteq> Ch_null"
  shows "tab_ok (ps[k := p]) c' np'"
proof -
  have len: "length ps = NPROC" by (rule tab_okD(1) [OF t])
  have at: "ps[k := p] ! i = (if i = k then p else ps ! i)" if "i < NPROC" for i
    using that len k by (simp add: nth_list_update)
  have 1: "i < NPROC" if "c' = Some i" for i
    using that tab_okD(2) [OF t] c [of i] k by (cases "i = k") auto
  have 2: "\<forall>i<NPROC. pstate (ps[k := p] ! i) = RUNNING \<longleftrightarrow> c' = Some i"
    using tab_okD(3) [OF t] c r by (simp add: at)
  have 3: "\<forall>i<NPROC. live (ps[k := p] ! i) \<longrightarrow> unat (pid (ps[k := p] ! i)) < unat np'"
    using tab_okD(4) [OF t] l np by (auto simp: at intro: less_le_trans)
  have 4: "i = j" if "i < NPROC" "j < NPROC" "live (ps[k := p] ! i)" "live (ps[k := p] ! j)"
    "pid (ps[k := p] ! i) = pid (ps[k := p] ! j)" for i j
    using that d tab_okD(5) [OF t that(1,2)] by (auto simp: at split: if_splits)
  have 5: "\<forall>i<NPROC. pstate (ps[k := p] ! i) = SLEEPING \<longrightarrow> pchan (ps[k := p] ! i) \<noteq> Ch_null"
    using tab_okD(6) [OF t] s by (simp add: at)
  from 1 2 3 4 5 len show ?thesis unfolding tab_ok_def by auto
qed

text \<open>A process that keeps its pid and does not come to life from nothing.\<close>

lemma tab_ok_same:
  assumes "tab_ok ps c np" "k < NPROC" "pid p = pid (ps ! k)" "live p \<Longrightarrow> live (ps ! k)"
    and "\<And>i. i \<noteq> k \<Longrightarrow> c' = Some i \<longleftrightarrow> c = Some i" "pstate p = RUNNING \<longleftrightarrow> c' = Some k"
    and "pstate p = SLEEPING \<Longrightarrow> pchan p \<noteq> Ch_null"
  shows "tab_ok (ps[k := p]) c' np"
  using assms tab_okD(4) [OF assms(1,2)] tab_okD(5) [OF assms(1) _ assms(2)]
  by (intro tab_ok_upd [OF assms(1,2)]) auto

text \<open>Steps that only wake processes or change fields the invariant does not look at.\<close>

definition quiet :: "proc \<Rightarrow> proc \<Rightarrow> bool" where
  "quiet p q \<longleftrightarrow> pid q = pid p \<and> pchan q = pchan p \<and>
     (pstate q = pstate p \<or> pstate p = SLEEPING \<and> pstate q = RUNNABLE)"

definition pt_quiet :: "'x pst_scheme \<Rightarrow> 'x pst_scheme \<Rightarrow> bool" where
  "pt_quiet s t \<longleftrightarrow> cur t = cur s \<and> nextpid t = nextpid s \<and> held t = held s \<and>
     list_all2 quiet (procs s) (procs t)"

lemma quiet_refl [simp]: "quiet p p"
  by (simp add: quiet_def)

lemma quiet_trans: "quiet p q \<Longrightarrow> quiet q r \<Longrightarrow> quiet p r"
  by (auto simp: quiet_def)

lemma pt_quiet_reflp: "reflp pt_quiet" and pt_quiet_transp: "transp pt_quiet"
  by (auto simp: reflp_def transp_def pt_quiet_def list_all2_refl intro: list_all2_trans [OF quiet_trans])

lemma tab_ok_quiet:
  assumes t: "tab_ok ps c np" and q: "list_all2 quiet ps qs"
  shows "tab_ok qs c np"
proof -
  have len: "length qs = NPROC" using tab_okD(1) [OF t] q by (simp add: list_all2_lengthD)
  have at: "quiet (ps ! i) (qs ! i)" if "i < NPROC" for i
    using q that tab_okD(1) [OF t] by (simp add: list_all2_nthD)
  have "pid (qs ! i) = pid (ps ! i)" "pchan (qs ! i) = pchan (ps ! i)"
    "live (qs ! i) = live (ps ! i)" "pstate (qs ! i) = RUNNING \<longleftrightarrow> pstate (ps ! i) = RUNNING"
    "pstate (qs ! i) = SLEEPING \<Longrightarrow> pstate (ps ! i) = SLEEPING" if "i < NPROC" for i
    using at [OF that] by (auto simp: quiet_def)
  with t len show ?thesis unfolding tab_ok_def by simp
qed

lemma pt_quiet_upd:
  assumes "\<And>p. quiet p (f p)"
  shows "pt_quiet s (s\<lparr>procs := (procs s)[i := f (procs s ! i)]\<rparr>)"
  using assms by (cases "i < length (procs s)")
    (auto simp: pt_quiet_def list_all2_conv_all_nth nth_list_update)

lemma pt_quiet_wakeup1: "frames pt_quiet (wakeup1 ch)"
  unfolding wakeup1_def
  by (rule frames_kmod) (auto simp: pt_quiet_def list_all2_conv_all_nth wake_proc_def quiet_def)

lemma pt_quiet_reparent: "frames pt_quiet (reparent c i)"
  unfolding reparent_def
  by (intro frames_intros pt_quiet_reflp pt_quiet_transp pt_quiet_wakeup1 frames_kmod pt_quiet_upd)
     (simp add: quiet_def)

lemma pt_quiet_wakeup: "frames pt_quiet (wakeup ch)"
proof (rule framesI)
  fix s t :: "'a pst_scheme" and a
  have out: "wakeup ch s = (if LK_ptable \<in> set (held s) then Panic ''acquire''
      else Ok () (s\<lparr>procs := map (wake_proc ch) (procs s)\<rparr>))"
    by (simp add: wakeup_ok) (simp add: wakeup_def acquire_def)
  have "pt_quiet s (s\<lparr>procs := map (wake_proc ch) (procs s)\<rparr>)"
    by (auto simp: pt_quiet_def list_all2_conv_all_nth wake_proc_def quiet_def)
  then show "pt_quiet s t" if "wakeup ch s = Ok a t"
    using that unfolding out by (auto split: if_splits)
  show "pt_quiet s t" if "wakeup ch s = Block t"
    using that unfolding out by (auto split: if_splits)
qed

lemma pt_quiet_kill: "kill n s = Ok r t \<Longrightarrow> pt_quiet s t"
proof -
  assume k: "kill n s = Ok r t"
  then have nh: "LK_ptable \<notin> set (held s)" by (auto simp: kill_def acquire_def)
  show ?thesis
  proof (cases "find_idx (\<lambda>p. pid p = n) (procs s)")
    case None
    with k nh have "t = s" by (simp add: kill_def)
    then show ?thesis using pt_quiet_reflp by (auto simp: reflp_def)
  next
    case (Some i)
    with k nh have "t = s\<lparr>procs := (procs s)[i := (\<lambda>p. p\<lparr>killed := True,
        pstate := (if pstate p = SLEEPING then RUNNABLE else pstate p)\<rparr>) (procs s ! i)]\<rparr>"
      by (cases "pstate (procs s ! i) = SLEEPING") (auto simp: kill_def)
    then show ?thesis by (simp only:) (rule pt_quiet_upd, simp add: quiet_def)
  qed
qed

section \<open>The machine\<close>

text \<open>
  While the CPU is in the scheduler it holds \<open>ptable.lock\<close> and has no process. Between the
  operations of a running process no lock is held; right after a switch the process still
  holds \<open>ptable.lock\<close>. The guard of \<open>p_alloc\<close> says the pid counter has not wrapped around.
\<close>

inductive pt_step :: "pst \<Rightarrow> pst \<Rightarrow> bool" where
  p_run: "cur s = None \<Longrightarrow> scheduler_next i s = Some j \<Longrightarrow> scheduler_run j s = Ok () t \<Longrightarrow> pt_step s t"
| p_resume: "cur s \<noteq> None \<Longrightarrow> held s = [LK_ptable] \<Longrightarrow> yield_resume s = Ok () t \<Longrightarrow> pt_step s t"
| p_slept: "cur s \<noteq> None \<Longrightarrow> held s = [LK_ptable] \<Longrightarrow> sleep_resume None s = Ok () t \<Longrightarrow> pt_step s t"
| p_yield: "held s = [] \<Longrightarrow> yield s = Block t \<Longrightarrow> scheduler_back t = Ok () u \<Longrightarrow> pt_step s u"
| p_sleep: "held s = [] \<Longrightarrow> ch \<noteq> Ch_null \<Longrightarrow> sleep ch None s = Block t \<Longrightarrow>
    scheduler_back t = Ok () u \<Longrightarrow> pt_step s u"
| p_sleep_lk: "held s = [] \<Longrightarrow> ch \<noteq> Ch_null \<Longrightarrow> acquire lk s = Ok () r \<Longrightarrow> sleep ch (Some lk) r = Block t \<Longrightarrow>
    scheduler_back t = Ok () u \<Longrightarrow> pt_step s u"
| p_wakeup: "held s = [] \<Longrightarrow> wakeup ch s = Ok () t \<Longrightarrow> pt_step s t"
| p_kill: "held s = [] \<Longrightarrow> kill n s = Ok r t \<Longrightarrow> pt_step s t"
| p_alloc: "held s = [] \<Longrightarrow> unat (nextpid s) + 1 < 2 ^ 32 \<Longrightarrow> allocproc s = Ok r t \<Longrightarrow> pt_step s t"
| p_ready: "held s = [] \<Longrightarrow> i < NPROC \<Longrightarrow> pstate (procs s ! i) = EMBRYO \<Longrightarrow>
    pt_step s (s\<lparr>procs := (procs s)[i := (procs s ! i)\<lparr>pstate := RUNNABLE\<rparr>]\<rparr>)"
| p_exit: "held s = [] \<Longrightarrow> exit_tail s = Block t \<Longrightarrow> scheduler_back t = Ok () u \<Longrightarrow> pt_step s u"
| p_wait: "held s = [] \<Longrightarrow> wait s = Ok r t \<Longrightarrow> pt_step s t"
| p_wait_sleep: "held s = [] \<Longrightarrow> wait s = Block t \<Longrightarrow> scheduler_back t = Ok () u \<Longrightarrow> pt_step s u"

text \<open>
  The state in which the scheduler starts its first scan: \<open>userinit\<close> has made the first
  process, and the other entries are zero.
\<close>

definition pt_init :: "pst \<Rightarrow> bool" where
  "pt_init s \<longleftrightarrow> length (procs s) = NPROC \<and> pstate (procs s ! 0) = RUNNABLE \<and>
     pid (procs s ! 0) = 1 \<and> (\<forall>p\<in>set (tl (procs s)). pstate p = UNUSED) \<and>
     nextpid s = 2 \<and> cur s = None \<and> held s = [LK_ptable]"

definition pt_inv :: "pst \<Rightarrow> bool" where
  "pt_inv s \<longleftrightarrow> tab_ok (procs s) (cur s) (nextpid s) \<and>
     (cur s = None \<longrightarrow> held s = [LK_ptable]) \<and> (cur s \<noteq> None \<longrightarrow> held s = [] \<or> held s = [LK_ptable])"

inductive_cases pt_stepE: "pt_step s t"

lemma tab_ok_out:
  assumes "tab_ok ps (Some c) np" "pid p = pid (ps ! c)" "pstate p \<noteq> RUNNING" "pstate p \<noteq> UNUSED"
    and "pstate p = SLEEPING \<Longrightarrow> pchan p \<noteq> Ch_null"
  shows "tab_ok (ps[c := p]) None np"
proof -
  have c: "c < NPROC" by (rule tab_okD(2) [OF assms(1) refl])
  have "pstate (ps ! c) = RUNNING" using tab_okD(3) [OF assms(1) c] by simp
  with assms c show ?thesis by (intro tab_ok_same [OF assms(1) c]) auto
qed

lemma charge_simps [simp]:
  "pid (charge n p) = pid p" "pstate (charge n p) = pstate p" "pchan (charge n p) = pchan p"
  by (simp_all add: charge_def)

lemma asleep_simps [simp]:
  "pid (asleep ch n p) = pid p" "pstate (asleep ch n p) = SLEEPING" "pchan (asleep ch n p) = ch"
  by (simp_all add: asleep_def)

lemma back_Ok:
  assumes "scheduler_back t = Ok () u"
  shows "procs u = procs t" "cur u = None" "held u = held t" "nextpid u = nextpid t"
  using assms by (auto simp: scheduler_back_def switchkvm_def)

text \<open>A process that leaves the CPU through \<open>sched\<close>.\<close>

lemma inv_out:
  assumes "tab_ok (procs s) (Some c) (nextpid s)" "pid p = pid (procs s ! c)"
    and "pstate p \<noteq> RUNNING" "pstate p \<noteq> UNUSED" "pstate p = SLEEPING \<Longrightarrow> pchan p \<noteq> Ch_null"
    and "scheduler_back (s\<lparr>held := [LK_ptable], procs := (procs s)[c := p]\<rparr>) = Ok () u"
  shows "pt_inv u"
  using tab_ok_out [OF assms(1-5)] by (simp add: pt_inv_def back_Ok [OF assms(6)])

lemma inv_run:
  assumes inv: "pt_inv s" and c: "cur s = None" and n: "scheduler_next i s = Some j"
    and r: "scheduler_run j s = Ok () t"
  shows "pt_inv t"
proof -
  from n obtain k where "find_idx (\<lambda>p. pstate p = RUNNABLE) (drop i (procs s)) = Some k" "j = i + k"
    by (auto simp: scheduler_next_def)
  then have j: "j < length (procs s)" "pstate (procs s ! j) = RUNNABLE"
    by (auto dest!: find_idx_Some)
  have eff: "procs t = (procs s)[j := (procs s ! j)\<lparr>pstate := RUNNING, cpu_ticks_in := ticks s\<rparr>]"
    "cur t = Some j" "held t = held s" "nextpid t = nextpid s"
    using r by (auto simp: scheduler_run_def switchuvm_def switchuvm_to_def split: if_splits)
  have tab: "tab_ok (procs s) None (nextpid s)" "held s = [LK_ptable]"
    using inv c by (auto simp: pt_inv_def)
  then have "tab_ok (procs t) (Some j) (nextpid t)"
    unfolding eff using j tab_okD(1) [OF tab(1)] by (intro tab_ok_same [OF tab(1)]) auto
  with tab eff show ?thesis by (simp add: pt_inv_def)
qed

lemma inv_resume:
  assumes "pt_inv s" "cur s \<noteq> None" "held s = [LK_ptable]" "yield_resume s = Ok () t"
  shows "pt_inv t"
  using assms by (auto simp: pt_inv_def yield_resume_def)

lemma inv_slept:
  assumes inv: "pt_inv s" and h: "cur s \<noteq> None" "held s = [LK_ptable]" and r: "sleep_resume None s = Ok () t"
  shows "pt_inv t"
proof -
  from h(1) obtain c where c: "cur s = Some c" by auto
  with inv have tab: "tab_ok (procs s) (Some c) (nextpid s)" by (simp add: pt_inv_def)
  then have cb: "c < NPROC" "pstate (procs s ! c) = RUNNING"
    using tab_okD(2) [OF tab refl] tab_okD(3) [OF tab] by auto
  have eff: "procs t = (procs s)[c := (procs s ! c)\<lparr>pchan := Ch_null\<rparr>]" "cur t = Some c"
    "held t = []" "nextpid t = nextpid s"
    using r c h by (auto simp: sleep_resume_def)
  have "tab_ok (procs t) (Some c) (nextpid s)"
    unfolding eff using cb by (intro tab_ok_same [OF tab]) auto
  with eff show ?thesis by (simp add: pt_inv_def)
qed

lemma inv_yield:
  assumes "pt_inv s" "held s = []" "yield s = Block t" "scheduler_back t = Ok () u"
  shows "pt_inv u"
proof -
  from assms(1,2) obtain c where c: "cur s = Some c" and tab: "tab_ok (procs s) (Some c) (nextpid s)"
    by (cases "cur s") (auto simp: pt_inv_def)
  have "c < length (procs s)" using tab_okD(1,2) [OF tab] by simp
  then have t: "t = s\<lparr>held := [LK_ptable], procs := (procs s)[c := charge (ticks s) ((procs s ! c)\<lparr>pstate := RUNNABLE\<rparr>)]\<rparr>"
    using assms(2,3) c by (simp add: yield_def sched_blocks)
  show ?thesis by (rule inv_out [OF tab _ _ _ _ assms(4) [unfolded t]]) simp_all
qed

lemma inv_cur:
  assumes "pt_inv s" "held s = []"
  obtains c where "cur s = Some c" "tab_ok (procs s) (Some c) (nextpid s)" "c < length (procs s)"
proof -
  from assms obtain c where c: "cur s = Some c" and tab: "tab_ok (procs s) (Some c) (nextpid s)"
    by (cases "cur s") (auto simp: pt_inv_def)
  moreover have "c < length (procs s)" using tab_okD(1,2) [OF tab] by simp
  ultimately show thesis using that by blast
qed

lemma inv_sleep:
  assumes "pt_inv s" "held s = []" "ch \<noteq> Ch_null" "sleep ch None s = Block t" "scheduler_back t = Ok () u"
  shows "pt_inv u"
proof -
  obtain c where c: "cur s = Some c" "tab_ok (procs s) (Some c) (nextpid s)" "c < length (procs s)"
    by (rule inv_cur [OF assms(1,2)])
  from sleep_blocks [OF c(1,3), of None ch] assms(2,4)
  have t: "t = s\<lparr>held := [LK_ptable], procs := (procs s)[c := asleep ch (ticks s) (procs s ! c)]\<rparr>" by simp
  show ?thesis by (rule inv_out [OF c(2) _ _ _ _ assms(5) [unfolded t]]) (simp_all add: assms(3))
qed

lemma inv_sleep_lk:
  assumes "pt_inv s" "held s = []" "ch \<noteq> Ch_null" "acquire lk s = Ok () r"
    and "sleep ch (Some lk) r = Block t" "scheduler_back t = Ok () u"
  shows "pt_inv u"
proof -
  obtain c where c: "cur s = Some c" "tab_ok (procs s) (Some c) (nextpid s)" "c < length (procs s)"
    by (rule inv_cur [OF assms(1,2)])
  have r: "r = s\<lparr>held := [lk]\<rparr>" using assms(2,4) by simp
  then have "sleep ch (Some lk) r = Block (r\<lparr>held := [LK_ptable],
      procs := (procs r)[c := asleep ch (ticks r) (procs r ! c)]\<rparr>)"
    using c by (intro sleep_blocks) auto
  with assms(5) r
  have t: "t = s\<lparr>held := [LK_ptable], procs := (procs s)[c := asleep ch (ticks s) (procs s ! c)]\<rparr>" by simp
  show ?thesis by (rule inv_out [OF c(2) _ _ _ _ assms(6) [unfolded t]]) (simp_all add: assms(3))
qed

lemma inv_quiet: "pt_inv s \<Longrightarrow> pt_quiet s t \<Longrightarrow> pt_inv t"
  using tab_ok_quiet by (auto simp: pt_inv_def pt_quiet_def)

lemma inv_ready:
  assumes "pt_inv s" "held s = []" "i < NPROC" "pstate (procs s ! i) = EMBRYO"
  shows "pt_inv (s\<lparr>procs := (procs s)[i := (procs s ! i)\<lparr>pstate := RUNNABLE\<rparr>]\<rparr>)"
proof -
  obtain c where c: "cur s = Some c" "tab_ok (procs s) (Some c) (nextpid s)"
    by (rule inv_cur [OF assms(1,2)])
  have "c \<noteq> i" using tab_okD(3) [OF c(2) assms(3)] assms(4) by auto
  then have "tab_ok ((procs s)[i := (procs s ! i)\<lparr>pstate := RUNNABLE\<rparr>]) (Some c) (nextpid s)"
    using assms by (intro tab_ok_same [OF c(2)]) auto
  with assms c show ?thesis by (simp add: pt_inv_def)
qed

text \<open>What \<open>allocproc\<close> does to the table, in the three ways it can return.\<close>

definition embryo :: "uint \<Rightarrow> proc \<Rightarrow> proc \<Rightarrow> bool" where
  "embryo n p q \<longleftrightarrow> pstate q = EMBRYO \<and> pid q = n \<and> kstack q \<noteq> 0 \<and> pcontext q = context_init \<and>
     parent q = parent p \<and> cpu_ticks_total q = 0 \<and> cpu_ticks_in q = 0"

lemma allocproc_cases:
  assumes "allocproc s = Ok r t" "LK_ptable \<notin> set (held s)"
  shows "(r = None \<and> t = s) \<or>
    (\<exists>i q. find_idx (\<lambda>p. pstate p = UNUSED) (procs s) = Some i \<and> procs t = (procs s)[i := q] \<and>
       nextpid t = nextpid s + 1 \<and> cur t = cur s \<and> held t = held s \<and>
       (r = None \<and> pstate q = UNUSED \<or> r = Some i \<and> embryo (nextpid s) (procs s ! i) q))"
proof (cases "find_idx (\<lambda>p. pstate p = UNUSED) (procs s)")
  case None
  with assms show ?thesis by (simp add: allocproc_def)
next
  case (Some i)
  let ?s = "s\<lparr>procs := (procs s)[i := (procs s ! i)\<lparr>pstate := EMBRYO, pid := nextpid s\<rparr>],
    nextpid := nextpid s + 1\<rparr>"
  have il: "i < length (procs s)" using find_idx_Some [OF Some] by simp
  have "(kbind kalloc (\<lambda>k.
         kthen (upd_proc i (\<lambda>p. p\<lparr>kstack := k\<rparr>)) (
         if k = 0 then kthen (upd_proc i (\<lambda>p. p\<lparr>pstate := UNUSED\<rparr>)) (kret None)
         else
           kthen (upd_proc i (\<lambda>p. p\<lparr>pcontext := context_init\<rparr>)) (
           kthen (kmod (\<lambda>s. s\<lparr>procs := (procs s)[i := (procs s ! i)\<lparr>start_ticks := ticks s,
                                cpu_ticks_total := 0, cpu_ticks_in := 0\<rparr>]\<rparr>))
             (kret (Some i)))))) ?s = Ok r t"
    using assms Some by (simp add: allocproc_def)
  then obtain k u where k: "kalloc ?s = Ok k u" and rest: "(kthen (upd_proc i (\<lambda>p. p\<lparr>kstack := k\<rparr>)) (
         if k = 0 then kthen (upd_proc i (\<lambda>p. p\<lparr>pstate := UNUSED\<rparr>)) (kret None)
         else
           kthen (upd_proc i (\<lambda>p. p\<lparr>pcontext := context_init\<rparr>)) (
           kthen (kmod (\<lambda>s. s\<lparr>procs := (procs s)[i := (procs s ! i)\<lparr>start_ticks := ticks s,
                                cpu_ticks_total := 0, cpu_ticks_in := 0\<rparr>]\<rparr>))
             (kret (Some i))))) u = Ok r t"
    unfolding kbind_Ok_iff by blast
  note u = vm_frame_pst [OF framesD [OF frames_kalloc k]]
  have "procs t = (procs s)[i := procs t ! i] \<and> nextpid t = nextpid s + 1 \<and> cur t = cur s \<and>
      held t = held s \<and> (r = None \<and> pstate (procs t ! i) = UNUSED \<or>
      r = Some i \<and> embryo (nextpid s) (procs s ! i) (procs t ! i))"
    using rest u il by (cases "k = 0") (auto simp: embryo_def)
  with Some show ?thesis by blast
qed

lemma inv_alloc:
  assumes inv: "pt_inv s" and h: "held s = []" and np: "unat (nextpid s) + 1 < 2 ^ 32"
    and al: "allocproc s = Ok r t"
  shows "pt_inv t"
proof -
  obtain c where c: "cur s = Some c" and tab: "tab_ok (procs s) (Some c) (nextpid s)"
    by (rule inv_cur [OF inv h])
  have un: "unat (nextpid s + 1) = unat (nextpid s) + 1"
    using np by (simp add: unat_word_ariths(1))
  have "LK_ptable \<notin> set (held s)" using h by simp
  from allocproc_cases [OF al this] show ?thesis
  proof (elim disjE exE conjE)
    assume "t = s"
    with inv show ?thesis by simp
  next
    fix i q
    assume i: "find_idx (\<lambda>p. pstate p = UNUSED) (procs s) = Some i"
      and t: "procs t = (procs s)[i := q]" "nextpid t = nextpid s + 1" "cur t = cur s" "held t = held s"
      and u: "pstate q = UNUSED"
    have il: "i < NPROC" "pstate (procs s ! i) = UNUSED"
      using find_idx_Some [OF i] tab_okD(1) [OF tab] by auto
    then have "c \<noteq> i" using tab_okD(3) [OF tab il(1)] by auto
    then have "tab_ok ((procs s)[i := q]) (Some c) (nextpid s + 1)"
      using u un by (intro tab_ok_upd [OF tab il(1)]) auto
    then show ?thesis using c h t by (simp add: pt_inv_def)
  next
    fix i q
    assume i: "find_idx (\<lambda>p. pstate p = UNUSED) (procs s) = Some i"
      and t: "procs t = (procs s)[i := q]" "nextpid t = nextpid s + 1" "cur t = cur s" "held t = held s"
      and e: "embryo (nextpid s) (procs s ! i) q"
    have il: "i < NPROC" "pstate (procs s ! i) = UNUSED"
      using find_idx_Some [OF i] tab_okD(1) [OF tab] by auto
    then have "c \<noteq> i" using tab_okD(3) [OF tab il(1)] by auto
    moreover have "pid (procs s ! j) \<noteq> nextpid s" if "j < NPROC" "live (procs s ! j)" for j
      using tab_okD(4) [OF tab that] by auto
    ultimately have "tab_ok ((procs s)[i := q]) (Some c) (nextpid s + 1)"
      using e un unfolding embryo_def by (intro tab_ok_upd [OF tab il(1)]) auto
    then show ?thesis using c h t by (simp add: pt_inv_def)
  qed
qed

lemma noblock_reparent: "noblock (reparent c i)" and noblock_wakeup1: "noblock (wakeup1 ch)"
  unfolding reparent_def wakeup1_def by (intro noblock_intros)+

lemma inv_exit:
  assumes "pt_inv s" "held s = []" "exit_tail s = Block t" "scheduler_back t = Ok () u"
  shows "pt_inv u"
proof -
  obtain c where c: "cur s = Some c" and tab: "tab_ok (procs s) (Some c) (nextpid s)"
    and cl: "c < length (procs s)" by (rule inv_cur [OF assms(1,2)])
  define m :: "(pst, unit) kop"
    where "m = kthen (wakeup1 (chan_of (parent (procs s ! c)))) (kfor [0..<NPROC] (reparent c))"
  define fin :: "(pst, unit) kop"
    where "fin = kthen (upd_proc c (\<lambda>p. p\<lparr>pstate := ZOMBIE\<rparr>)) (kthen sched (panic ''zombie exit''))"
  have fr: "frames pt_quiet m" unfolding m_def
    by (intro frames_intros pt_quiet_reflp pt_quiet_transp pt_quiet_wakeup1 pt_quiet_reparent)
  have nb: "noblock m" unfolding m_def by (intro noblock_intros noblock_reparent noblock_wakeup1)
  have "kthen m fin (s\<lparr>held := [LK_ptable]\<rparr>) = Block t"
    using assms(2,3) c by (simp add: exit_tail_def m_def fin_def)
  then obtain w where w: "m (s\<lparr>held := [LK_ptable]\<rparr>) = Ok () w" and t: "fin w = Block t"
    using noblockD [OF nb] by (cases "m (s\<lparr>held := [LK_ptable]\<rparr>)") auto
  from framesD [OF fr w] c have q: "cur w = Some c" "nextpid w = nextpid s" "held w = [LK_ptable]"
    "list_all2 quiet (procs s) (procs w)" by (auto simp: pt_quiet_def)
  have tab': "tab_ok (procs w) (Some c) (nextpid w)" using tab_ok_quiet [OF tab q(4)] q(2) by simp
  let ?p = "charge (ticks w) ((procs w ! c)\<lparr>pstate := ZOMBIE\<rparr>)"
  have cw: "c < length (procs w)" using cl q(4) by (simp add: list_all2_lengthD)
  have hw: "w\<lparr>held := [LK_ptable]\<rparr> = w" using q(3) by (cases w) simp
  have "t = w\<lparr>held := [LK_ptable], procs := (procs w)[c := ?p]\<rparr>"
    unfolding hw using cw t q(1,3) by (simp add: fin_def sched_blocks)
  with assms(4) show ?thesis by (intro inv_out [OF tab', where p = ?p]) simp_all
qed

lemma reap_Ok:
  assumes "reap i s = Ok r t" "held s = [LK_ptable]" "i < length (procs s)"
  shows "cur t = cur s" "nextpid t = nextpid s" "held t = []" "r = sint (pid (procs s ! i))"
    "\<exists>q. procs t = (procs s)[i := q] \<and> pstate q = UNUSED"
proof -
  from assms(1) obtain a u where u: "kfree (kstack (procs s ! i)) s = Ok a u"
    and 1: "(kthen (upd_proc i (\<lambda>p. p\<lparr>kstack := 0\<rparr>)) (
     kthen (freevm (pgdir (procs s ! i))) (
     kthen (upd_proc i (\<lambda>p. p\<lparr>pstate := UNUSED, pid := 0, parent := None,
              pname := (pname p)[0 := 0], killed := False\<rparr>)) (
     kthen (release LK_ptable) (kret (sint (pid (procs s ! i)))))))) u = Ok r t"
    unfolding reap_def by (auto simp: kbind_Ok_iff kthen_Ok_iff)
  note fu = vm_frame_pst [OF framesD [OF frames_kfree u]]
  let ?u = "u\<lparr>procs := (procs u)[i := (procs u ! i)\<lparr>kstack := 0\<rparr>]\<rparr>"
  from 1 obtain b v where v: "freevm (pgdir (procs s ! i)) ?u = Ok b v"
    and 2: "(kthen (upd_proc i (\<lambda>p. p\<lparr>pstate := UNUSED, pid := 0, parent := None,
              pname := (pname p)[0 := 0], killed := False\<rparr>)) (
     kthen (release LK_ptable) (kret (sint (pid (procs s ! i)))))) v = Ok r t"
    by (auto simp: kthen_Ok_iff)
  note fv = vm_frame_pst [OF framesD [OF frames_freevm v]]
  have t: "t = v\<lparr>procs := (procs v)[i := (procs v ! i)\<lparr>pstate := UNUSED, pid := 0, parent := None,
      pname := (pname (procs v ! i))[0 := 0], killed := False\<rparr>], held := []\<rparr>" "r = sint (pid (procs s ! i))"
    using 2 fu fv assms(2) by auto
  show "cur t = cur s" "nextpid t = nextpid s" "held t = []" "r = sint (pid (procs s ! i))"
    using t fu fv by simp_all
  have "procs t = (procs s)[i := procs t ! i]" "pstate (procs t ! i) = UNUSED"
    using t(1) fu fv assms(3) by simp_all
  then show "\<exists>q. procs t = (procs s)[i := q] \<and> pstate q = UNUSED" by blast
qed

lemma inv_wait:
  assumes inv: "pt_inv s" and h: "held s = []" and w: "wait s = Ok r t"
  shows "pt_inv t"
proof -
  obtain c where c: "cur s = Some c" and tab: "tab_ok (procs s) (Some c) (nextpid s)"
    and cl: "c < length (procs s)" by (rule inv_cur [OF inv h])
  let ?s = "s\<lparr>held := [LK_ptable]\<rparr>"
  have wl: "wait_loop ?s = Ok r t" using w h by (simp add: wait_def)
  show ?thesis
  proof (cases "find_idx (\<lambda>p. parent p = Some c \<and> pstate p = ZOMBIE) (procs s)")
    case None
    have "sleep ch (Some LK_ptable) ?s = Block (?s\<lparr>held := [LK_ptable], procs := (procs ?s)[c := asleep ch (ticks ?s) (procs ?s ! c)]\<rparr>)"
      for ch using c cl by (intro sleep_blocks) auto
    then have "t = s" using wl None c h by (auto simp: wait_loop_def split: if_splits)
    with inv show ?thesis by simp
  next
    case (Some i)
    then have i: "i < NPROC" "pstate (procs s ! i) = ZOMBIE"
      using find_idx_Some [OF Some] tab_okD(1) [OF tab] by auto
    have "reap i ?s = Ok r t" using wl Some c by (simp add: wait_loop_def)
    then obtain q where "cur t = Some c" "nextpid t = nextpid s" "held t = []"
      "procs t = (procs s)[i := q]" "pstate q = UNUSED"
      using reap_Ok [of i ?s r t] i c tab_okD(1) [OF tab] by auto
    moreover have "c \<noteq> i" using tab_okD(3) [OF tab i(1)] i(2) by auto
    then have "tab_ok ((procs s)[i := q]) (Some c) (nextpid s)"
      using \<open>pstate q = UNUSED\<close> by (intro tab_ok_upd [OF tab i(1)]) auto
    ultimately show ?thesis by (simp add: pt_inv_def)
  qed
qed

lemma noblock_reap: "noblock (reap i)"
  unfolding reap_def by (intro noblock_intros noblock_kfree noblock_freevm noblock_release)

lemma inv_wait_sleep:
  assumes inv: "pt_inv s" and h: "held s = []" and w: "wait s = Block t" and b: "scheduler_back t = Ok () u"
  shows "pt_inv u"
proof -
  obtain c where c: "cur s = Some c" and tab: "tab_ok (procs s) (Some c) (nextpid s)"
    and cl: "c < length (procs s)" by (rule inv_cur [OF inv h])
  let ?s = "s\<lparr>held := [LK_ptable]\<rparr>" and ?p = "asleep (Ch_proc c) (ticks s) (procs s ! c)"
  have "sleep (Ch_proc c) (Some LK_ptable) ?s =
      Block (?s\<lparr>held := [LK_ptable], procs := (procs ?s)[c := asleep (Ch_proc c) (ticks ?s) (procs ?s ! c)]\<rparr>)"
    using c cl by (intro sleep_blocks) auto
  moreover have "wait_loop ?s = Block t" using w h by (simp add: wait_def)
  ultimately have "t = s\<lparr>held := [LK_ptable], procs := (procs s)[c := ?p]\<rparr>"
    using c noblockD [OF noblock_reap]
    by (auto simp: wait_loop_def split: if_splits option.splits)
  with b show ?thesis by (intro inv_out [OF tab, where p = ?p]) simp_all
qed

lemma inv_init: "pt_init s \<Longrightarrow> pt_inv s"
proof -
  assume i: "pt_init s"
  have u: "pstate (procs s ! k) = UNUSED" if "0 < k" "k < NPROC" for k
  proof -
    have "procs s ! k \<in> set (tl (procs s))"
      using i that nth_tl [of "k - 1" "procs s"] by (auto simp: pt_init_def in_set_conv_nth intro!: exI [of _ "k - 1"])
    with i show ?thesis by (simp add: pt_init_def)
  qed
  have "pstate (procs s ! k) \<noteq> RUNNING \<and> pstate (procs s ! k) \<noteq> SLEEPING" if "k < NPROC" for k
    using i u [OF _ that] by (cases k) (auto simp: pt_init_def)
  moreover have l: "k = 0" if "k < NPROC" "live (procs s ! k)" for k using u [OF _ that(1)] that(2) by auto
  moreover have "unat (pid (procs s ! k)) < unat (nextpid s)" if "k < NPROC" "live (procs s ! k)" for k
    using l [OF that] i by (simp add: pt_init_def)
  moreover have "i = j" if "i < NPROC" "j < NPROC" "live (procs s ! i)" "live (procs s ! j)" for i j
    using l [OF that(1,3)] l [OF that(2,4)] by simp
  ultimately show ?thesis using i unfolding pt_inv_def tab_ok_def by (simp add: pt_init_def)
qed

section \<open>What \<open>exit\<close> does to the table\<close>

text \<open>No process of the table sleeps on \<open>ch\<close>.\<close>

definition none_on :: "chan \<Rightarrow> proc list \<Rightarrow> bool" where
  "none_on ch ps \<longleftrightarrow> (\<forall>i<length ps. \<not> (pstate (ps ! i) = SLEEPING \<and> pchan (ps ! i) = ch))"

lemma none_on_quiet: "none_on ch ps \<Longrightarrow> list_all2 quiet ps qs \<Longrightarrow> none_on ch qs"
  unfolding none_on_def list_all2_conv_all_nth quiet_def by (metis procstate.distinct(17))

lemma none_on_wakeup1: "none_on ch (map (wake_proc ch) ps)"
  by (simp add: none_on_def wake_proc_def)

text \<open>The table after the loop has looked at the entries below \<open>n\<close>.\<close>

definition adopted :: "nat \<Rightarrow> nat \<Rightarrow> pst \<Rightarrow> pst \<Rightarrow> bool" where
  "adopted c n s t \<longleftrightarrow> pt_quiet s t \<and> initproc t = initproc s \<and> ticks t = ticks s \<and>
     (\<forall>i<length (procs s). parent (procs t ! i) =
        (if i < n \<and> parent (procs s ! i) = Some c then initproc s else parent (procs s ! i))) \<and>
     ((\<exists>i<n. parent (procs s ! i) = Some c \<and> pstate (procs s ! i) = ZOMBIE) \<longrightarrow>
        none_on (chan_of (initproc s)) (procs t))"

lemma reparent_adopted:
  assumes a: "adopted c n s u" and n: "n < length (procs s)"
  shows "runs (reparent c n) u (\<lambda>_ t. adopted c (Suc n) s t)"
proof -
  note fr = framesD [OF pt_quiet_reparent, of c n u]
  have q: "pt_quiet s u" using a by (simp add: adopted_def)
  then have len: "n < length (procs u)" and st: "quiet (procs s ! n) (procs u ! n)"
    using n by (auto simp: pt_quiet_def list_all2_lengthD list_all2_nthD)
  have lens: "length (procs u) = length (procs s)" using q by (auto simp: pt_quiet_def list_all2_lengthD)
  have par: "parent (procs u ! n) = parent (procs s ! n)" using a n by (simp add: adopted_def)
  obtain t where t: "reparent c n u = Ok () t" "initproc t = initproc u" "ticks t = ticks u"
    "\<And>i. i < length (procs s) \<Longrightarrow> parent (procs t ! i) =
        (if i = n \<and> parent (procs s ! n) = Some c then initproc u else parent (procs u ! i))"
    "parent (procs s ! n) = Some c \<Longrightarrow> pstate (procs u ! n) = ZOMBIE \<Longrightarrow>
       none_on (chan_of (initproc u)) (procs t)"
  proof (cases "parent (procs s ! n) = Some c")
    case False
    with par have "reparent c n u = Ok () u" by (simp add: reparent_def)
    with False show ?thesis by (intro that) auto
  next
    case True
    let ?v = "u\<lparr>procs := (procs u)[n := (procs u ! n)\<lparr>parent := initproc u\<rparr>]\<rparr>"
    let ?w = "?v\<lparr>procs := map (wake_proc (chan_of (initproc u))) (procs ?v)\<rparr>"
    have pw: "parent (wake_proc ch p) = parent p" for ch p by (simp add: wake_proc_def)
    show ?thesis
    proof (cases "pstate (procs u ! n) = ZOMBIE")
      case True
      have "reparent c n u = Ok () ?w"
        using True \<open>parent (procs s ! n) = Some c\<close> par by (simp add: reparent_def wakeup1_def)
      then show ?thesis using lens \<open>parent (procs s ! n) = Some c\<close>
        by (intro that [of ?w]) (auto simp: pw nth_list_update none_on_wakeup1)
    next
      case False
      have "reparent c n u = Ok () ?v"
        using False \<open>parent (procs s ! n) = Some c\<close> par by (simp add: reparent_def)
      then show ?thesis using lens False \<open>parent (procs s ! n) = Some c\<close>
        by (intro that [of ?v]) (auto simp: nth_list_update)
    qed
  qed
  have "pt_quiet u t" by (rule fr [OF t(1)])
  with q have "pt_quiet s t" using pt_quiet_transp by (meson transpD)
  moreover have "none_on (chan_of (initproc s)) (procs t)"
    if "i < Suc n" "parent (procs s ! i) = Some c" "pstate (procs s ! i) = ZOMBIE" for i
  proof (cases "i = n")
    case True
    with that st have "pstate (procs u ! n) = ZOMBIE" by (auto simp: quiet_def)
    with t(5) True that a show ?thesis by (simp add: adopted_def)
  next
    case False
    with that a have "none_on (chan_of (initproc s)) (procs u)" by (auto simp: adopted_def)
    with \<open>pt_quiet u t\<close> show ?thesis by (auto simp: pt_quiet_def intro: none_on_quiet)
  qed
  ultimately have "adopted c (Suc n) s t"
    using a t(2-4) unfolding adopted_def by (auto simp: less_Suc_eq)
  with t(1) show ?thesis by (simp add: runs_def)
qed

lemma reparent_all:
  "n \<le> length (procs s) \<Longrightarrow> runs (kfor [0..<n] (reparent c)) s (\<lambda>_ t. adopted c n s t)"
proof (induction n)
  case 0
  then show ?case using pt_quiet_reflp by (auto simp: adopted_def reflp_def)
next
  case (Suc n)
  then have "runs (kfor [0..<n] (reparent c)) s (\<lambda>_ t. adopted c n s t)" by simp
  then have "runs (kfor [0..<n] (reparent c)) s (\<lambda>_ u. runs (reparent c n) u (\<lambda>_ t. adopted c (Suc n) s t))"
    using reparent_adopted Suc.prems by (auto elim!: runs_mono)
  then show ?case by (simp add: kfor_append)
qed

section \<open>Properties\<close>

interpretation pt: machine_invariant pt_init pt_step pt_inv
proof
  show "pt_inv s" if "pt_init s" for s by (rule inv_init [OF that])
  show "pt_inv t" if "pt_inv s" "pt_step s t" for s t
    using that(2,1)
    by cases (blast intro: inv_run inv_resume inv_slept inv_yield inv_sleep inv_sleep_lk inv_alloc
        inv_ready inv_exit inv_wait inv_wait_sleep inv_quiet framesD [OF pt_quiet_wakeup] pt_quiet_kill)+
qed

definition proc_zero :: proc where
  "proc_zero = \<lparr>sz = 0, pgdir = 0, kstack = 0, pstate = UNUSED, pid = 0, parent = None, tf = tf_zero,
     pcontext = context_init, pchan = Ch_null, killed = False, ofile = replicate 16 None, cwd = None,
     pname = replicate 16 0, start_ticks = 0, uid = 0, gid = 0, cpu_ticks_total = 0, cpu_ticks_in = 0\<rparr>"

definition wit_pt :: "procstate \<Rightarrow> pst" where
  "wit_pt st = \<lparr>held = [LK_ptable], locking = True, panicked = False, uart = True, uart_out = [],
     crt = \<lambda>_. 0, cpos = 0, mem = \<lambda>_. 0, kend = 0x80100000, use_lock = True, freelist = 0,
     kdata = 0, kpgdir = 0, cr3 = 0, esp0 = 0,
     procs = proc_zero\<lparr>pstate := st, pid := 1, pgdir := 0x80200000\<rparr> # replicate 63 proc_zero,
     nextpid = 2, initproc = Some 0, cur = None, ticks = 0\<rparr>"

lemma wit_pt_run:
  "reachable pt_init pt_step ((wit_pt RUNNING)\<lparr>cur := Some 0, cr3 := 0x200000, esp0 := 4096\<rparr>)"
proof -
  have "pt_init (wit_pt RUNNABLE)" by (simp add: pt_init_def wit_pt_def proc_zero_def NPROC_def)
  moreover have "scheduler_run 0 (wit_pt RUNNABLE) =
      Ok () ((wit_pt RUNNING)\<lparr>cur := Some 0, cr3 := 0x200000, esp0 := 4096\<rparr>)"
    by (simp add: scheduler_run_def switchuvm_def switchuvm_to_def wit_pt_def proc_zero_def v2p_def
        KERNBASE_def KSTACKSIZE_def)
  then have "pt_step (wit_pt RUNNABLE) ((wit_pt RUNNING)\<lparr>cur := Some 0, cr3 := 0x200000, esp0 := 4096\<rparr>)"
    by (intro p_run [of _ 0 0]) (simp_all add: scheduler_next_def wit_pt_def)
  ultimately show ?thesis by (blast intro: reachable.intros)
qed



text \<open>
  C28. \<open>exit\<close>, once the process has closed its files, always ends in the switch away: the
  process is a zombie, every child it had now belongs to \<open>initproc\<close>, its parent is not left
  asleep in \<open>wait\<close>, and neither is \<open>initproc\<close> if one of the children is a zombie already.
\<close>

theorem exit_hands_over:
  assumes "pt_inv s" "held s = []" "cur s = Some c" "initproc s = Some ip"
  shows "\<exists>t. exit_tail s = Block t \<and> held t = [LK_ptable] \<and> pstate (procs t ! c) = ZOMBIE \<and>
    (\<forall>i<NPROC. parent (procs t ! i) =
       (if parent (procs s ! i) = Some c then Some ip else parent (procs s ! i))) \<and>
    none_on (chan_of (parent (procs s ! c))) (procs t) \<and>
    ((\<exists>i<NPROC. parent (procs s ! i) = Some c \<and> pstate (procs s ! i) = ZOMBIE) \<longrightarrow>
       none_on (Ch_proc ip) (procs t))"
proof -
  let ?s = "s\<lparr>held := [LK_ptable], procs := map (wake_proc (chan_of (parent (procs s ! c)))) (procs s)\<rparr>"
  have tab: "tab_ok (procs s) (Some c) (nextpid s)" using assms(1,3) by (simp add: pt_inv_def)
  note len = tab_okD(1) [OF tab] and cl = tab_okD(2) [OF tab refl]
  have wp: "parent (wake_proc ch p) = parent p" "pstate p = ZOMBIE \<Longrightarrow> wake_proc ch p = p" for ch p
    by (auto simp: wake_proc_def)
  obtain w where w: "kfor [0..<NPROC] (reparent c) ?s = Ok () w" and a: "adopted c NPROC ?s w"
    using reparent_all [of NPROC ?s c] len by (auto simp: runs_iff)
  from a have q: "list_all2 quiet (procs ?s) (procs w)" "cur w = Some c" "held w = [LK_ptable]"
    using assms(3) by (auto simp: adopted_def pt_quiet_def)
  have lw: "length (procs w) = NPROC" using list_all2_lengthD [OF q(1)] len by simp
  let ?p = "charge (ticks w) ((procs w ! c)\<lparr>pstate := ZOMBIE\<rparr>)"
  let ?t = "w\<lparr>procs := (procs w)[c := ?p]\<rparr>"
  have "exit_tail s = Block ?t"
    using w assms(2,3) q(2,3) lw cl by (simp add: exit_tail_def wakeup1_def sched_blocks)
  moreover have "parent (procs ?t ! i) = (if parent (procs s ! i) = Some c then Some ip else parent (procs s ! i))"
    if "i < NPROC" for i
  proof -
    have "parent (procs ?t ! i) = parent (procs w ! i)"
      using cl lw by (simp add: nth_list_update charge_def)
    also have "\<dots> = (if parent (procs ?s ! i) = Some c then initproc ?s else parent (procs ?s ! i))"
      using a that len unfolding adopted_def by simp
    finally show ?thesis using that len assms(4) by (simp add: wp)
  qed
  moreover have keep: "none_on ch (procs ?t)" if "none_on ch (procs w)" for ch
    using that cl lw by (simp add: none_on_def nth_list_update)
  moreover have "none_on (chan_of (parent (procs s ! c))) (procs w)"
    by (rule none_on_quiet [OF _ q(1)]) (simp add: none_on_wakeup1)
  moreover have "none_on (Ch_proc ip) (procs w)"
    if "i < NPROC" "parent (procs s ! i) = Some c" "pstate (procs s ! i) = ZOMBIE" for i
    using a that len assms(4) by (auto simp: adopted_def wp chan_of_def)
  ultimately show ?thesis using q(3) lw cl by (intro exI [of _ ?t]) auto
qed

theorem exit_hands_over_witness:
  "\<exists>t. exit_tail ((wit_pt RUNNING)\<lparr>cur := Some 0, held := []\<rparr>) = Block t \<and> pstate (procs t ! 0) = ZOMBIE"
proof -
  let ?s = "(wit_pt RUNNING)\<lparr>cur := Some 0, cr3 := 0x200000, esp0 := 4096\<rparr>"
  have "pt_inv ((wit_pt RUNNING)\<lparr>cur := Some 0, held := []\<rparr>)"
    using pt.reachable_inv [OF wit_pt_run] by (simp add: pt_inv_def wit_pt_def)
  from exit_hands_over [OF this, of 0 0] show ?thesis by (auto simp: wit_pt_def)
qed



text \<open>
  \<open>sched\<close> never returns to its caller without a switch: it leaves the process exactly if
  \<open>ptable.lock\<close> is the only lock held and the state is no longer \<open>RUNNING\<close>; it panics if
  \<open>ptable.lock\<close> is not held, if any other lock is held, or if the process is still \<open>RUNNING\<close>.
\<close>

theorem sched_guards:
  "sched s = (if LK_ptable \<notin> set (held s) then Panic ''sched ptable.lock''
     else if length (held s) \<noteq> 1 then Panic ''sched locks''
     else case cur s of None \<Rightarrow> Panic ''trap''
     | Some c \<Rightarrow> if pstate (procs s ! c) = RUNNING then Panic ''sched running''
         else Block (s\<lparr>procs := (procs s)[c := charge (ticks s) (procs s ! c)]\<rparr>))"
  by (simp add: sched_def charge_def myproc_def split: option.split)

text \<open>
  \<open>wait\<close> without a zombie child: it returns \<open>-1\<close> and changes nothing if the process has no
  child or was killed, and otherwise the process leaves the CPU asleep on its own address,
  where the \<open>exit\<close> of a child finds it.
\<close>

theorem wait_without_zombie:
  assumes "cur s = Some c" "c < length (procs s)" "held s = []"
    and "\<forall>i<length (procs s). parent (procs s ! i) = Some c \<longrightarrow> pstate (procs s ! i) \<noteq> ZOMBIE"
  shows "wait s = (if (\<exists>i<length (procs s). parent (procs s ! i) = Some c) \<and> \<not> killed (procs s ! c)
    then Block (s\<lparr>held := [LK_ptable], procs := (procs s)[c := asleep (Ch_proc c) (ticks s) (procs s ! c)]\<rparr>)
    else Ok (- 1) s)"
proof -
  have z: "find_idx (\<lambda>p. parent p = Some c \<and> pstate p = ZOMBIE) (procs s) = None"
    using assms(4) by (auto simp: find_idx_None in_set_conv_nth)
  have k: "list_ex (\<lambda>p. parent p = Some c) (procs s) \<longleftrightarrow> (\<exists>i<length (procs s). parent (procs s ! i) = Some c)"
    by (simp add: list_ex_iff Bex_def in_set_conv_nth) blast
  have sl: "sleep (Ch_proc c) (Some LK_ptable) (s\<lparr>held := [LK_ptable]\<rparr>) =
      Block (s\<lparr>held := [LK_ptable], procs := (procs s)[c := asleep (Ch_proc c) (ticks s) (procs s ! c)]\<rparr>)"
    using assms(1,2) sleep_blocks [of "s\<lparr>held := [LK_ptable]\<rparr>" c "Some LK_ptable" "Ch_proc c"] by simp
  have h: "s\<lparr>held := []\<rparr> = s" using assms(3) by (cases s) simp
  show ?thesis using assms(1,3) z sl h unfolding k [symmetric]
    by (auto simp: wait_def wait_loop_def)
qed

theorem wait_without_zombie_witness:
  "wait ((wit_pt RUNNING)\<lparr>cur := Some 0, held := []\<rparr>) = Ok (- 1) ((wit_pt RUNNING)\<lparr>cur := Some 0, held := []\<rparr>)"
proof -
  have "parent (procs (wit_pt RUNNING) ! i) = None" if "i < 64" for i
    using that by (cases i) (auto simp: wit_pt_def proc_zero_def)
  then show ?thesis
    using wait_without_zombie [of "(wit_pt RUNNING)\<lparr>cur := Some 0, held := []\<rparr>" 0]
    by (auto simp: wit_pt_def)
qed

end
