(* ===== verification/Bio.thy ===== *)
theory Bio
  imports Ptable
begin

text \<open>
  The disk and the buffer cache: \<open>memide.c\<close>, \<open>buf.h\<close> and \<open>bio.c\<close>. A buffer is its index in
  \<open>bcache.buf\<close>, and the list head is index \<open>NBUF\<close>; the list is kept in the \<open>prev\<close> and
  \<open>next\<close> fields as in the source. The flag bits are three booleans. \<open>dwrites\<close> records the
  block writes in the order in which they reach the disk.
\<close>

section \<open>Data\<close>

definition BSIZE :: nat where "BSIZE = 512"
definition NBUF :: nat where "NBUF = 30"

record buf =
  busy :: bool
  valid :: bool
  dirty :: bool
  bdev :: uint
  blockno :: uint
  bprev :: nat
  bnext :: nat
  bdata :: "uchar list"

record bst = pst +
  disk :: "uint \<Rightarrow> uchar list"
  disksize :: uint
  dwrites :: "(uint \<times> uchar list) list"
  bufs :: "buf list"

abbreviation upd_buf :: "nat \<Rightarrow> (buf \<Rightarrow> buf) \<Rightarrow> ('x bst_scheme, unit) kop" where
  "upd_buf i f \<equiv> kmod (\<lambda>s. s\<lparr>bufs := (bufs s)[i := f (bufs s ! i)]\<rparr>)"

text \<open>The data of a buffer, and storing into it.\<close>

definition bdat :: "'x bst_scheme \<Rightarrow> nat \<Rightarrow> uchar list" where
  "bdat s b = bdata (bufs s ! b)"

definition set_bdat :: "nat \<Rightarrow> uchar list \<Rightarrow> 'x bst_scheme \<Rightarrow> 'x bst_scheme" where
  "set_bdat b d s = s\<lparr>bufs := (bufs s)[b := (bufs s ! b)\<lparr>bdata := d\<rparr>]\<rparr>"

section \<open>The disk\<close>

definition iderw :: "nat \<Rightarrow> ('x bst_scheme, unit) kop" where
  "iderw b =
     kbind (kget (\<lambda>s. (bufs s ! b, disksize s))) (\<lambda>(x, size).
     kthen (kguard (\<not> busy x) ''iderw: buf not busy'') (
     kthen (kguard (valid x \<and> \<not> dirty x) ''iderw: nothing to do'') (
     kthen (kguard (bdev x \<noteq> 1) ''iderw: request not for disk 1'') (
     kthen (kguard (size \<le> blockno x) ''iderw: block out of range'') (
     kthen (if dirty x
            then kthen (upd_buf b (\<lambda>x. x\<lparr>dirty := False\<rparr>))
                   (kmod (\<lambda>s. s\<lparr>disk := (disk s)(blockno x := bdata x),
                              dwrites := dwrites s @ [(blockno x, bdata x)]\<rparr>))
            else kmod (\<lambda>s. s\<lparr>bufs := (bufs s)[b := (bufs s ! b)\<lparr>bdata := disk s (blockno x)\<rparr>]\<rparr>))
       (upd_buf b (\<lambda>x. x\<lparr>valid := True\<rparr>)))))))"

section \<open>The buffer cache\<close>

text \<open>The loop of \<open>binit\<close>: insert buffer \<open>b\<close> behind the head.\<close>

definition binit_step :: "buf list \<Rightarrow> nat \<Rightarrow> buf list" where
  "binit_step bs b =
     (let bs = bs[b := (bs ! b)\<lparr>bnext := bnext (bs ! NBUF)\<rparr>];
          bs = bs[b := (bs ! b)\<lparr>bprev := NBUF\<rparr>];
          bs = bs[b := (bs ! b)\<lparr>bdev := - 1\<rparr>];
          bs = bs[bnext (bs ! NBUF) := (bs ! bnext (bs ! NBUF))\<lparr>bprev := b\<rparr>]
      in bs[NBUF := (bs ! NBUF)\<lparr>bnext := b\<rparr>])"

definition binit :: "('x bst_scheme, unit) kop" where
  "binit =
     kthen (upd_buf NBUF (\<lambda>h. h\<lparr>bprev := NBUF\<rparr>)) (
     kthen (upd_buf NBUF (\<lambda>h. h\<lparr>bnext := NBUF\<rparr>))
       (kfor [0..<NBUF] (\<lambda>b. kmod (\<lambda>s. s\<lparr>bufs := binit_step (bufs s) b\<rparr>))))"

text \<open>
  A scan of the list from \<open>b\<close> until the head: the first buffer that satisfies \<open>P\<close>. None if
  the walk does not come back to the head within \<open>n\<close> steps.
\<close>

primrec scan :: "nat \<Rightarrow> (nat \<Rightarrow> nat) \<Rightarrow> (nat \<Rightarrow> bool) \<Rightarrow> nat \<Rightarrow> nat option option" where
  "scan 0 nx P b = None"
| "scan (Suc n) nx P b =
     (if b = NBUF then Some None else if P b then Some (Some b) else scan n nx P (nx b))"

definition bget_loop :: "uint \<Rightarrow> uint \<Rightarrow> ('x bst_scheme, nat) kop" where
  "bget_loop d n =
     kbind (kget bufs) (\<lambda>bs.
     case scan (Suc NBUF) (\<lambda>b. bnext (bs ! b)) (\<lambda>b. bdev (bs ! b) = d \<and> blockno (bs ! b) = n) (bnext (bs ! NBUF)) of
       None \<Rightarrow> (\<lambda>_. Hang)
     | Some (Some b) \<Rightarrow>
         if \<not> busy (bs ! b)
         then kthen (upd_buf b (\<lambda>x. x\<lparr>busy := True\<rparr>)) (kthen (release LK_bcache) (kret b))
         else kthen (sleep (Ch_buf b) (Some LK_bcache)) (kret b)
     | Some None \<Rightarrow>
         (case scan (Suc NBUF) (\<lambda>b. bprev (bs ! b)) (\<lambda>b. \<not> busy (bs ! b) \<and> \<not> dirty (bs ! b)) (bprev (bs ! NBUF)) of
            None \<Rightarrow> (\<lambda>_. Hang)
          | Some (Some b) \<Rightarrow>
              kthen (upd_buf b (\<lambda>x. x\<lparr>bdev := d, blockno := n, busy := True, valid := False, dirty := False\<rparr>)) (
              kthen (release LK_bcache) (kret b))
          | Some None \<Rightarrow> panic ''bget: no buffers''))"

definition bget :: "uint \<Rightarrow> uint \<Rightarrow> ('x bst_scheme, nat) kop" where
  "bget d n = kthen (acquire LK_bcache) (bget_loop d n)"

text \<open>After the sleep the search starts again.\<close>

definition bget_resume :: "uint \<Rightarrow> uint \<Rightarrow> ('x bst_scheme, nat) kop" where
  "bget_resume d n = kthen (sleep_resume (Some LK_bcache)) (bget_loop d n)"

definition bread :: "uint \<Rightarrow> uint \<Rightarrow> ('x bst_scheme, nat) kop" where
  "bread d n =
     kbind (bget d n) (\<lambda>b.
     kbind (kget (\<lambda>s. valid (bufs s ! b))) (\<lambda>v.
     kthen (kwhen (\<not> v) (iderw b)) (kret b)))"

definition bwrite :: "nat \<Rightarrow> ('x bst_scheme, unit) kop" where
  "bwrite b =
     kbind (kget (\<lambda>s. busy (bufs s ! b))) (\<lambda>y.
     kthen (kguard (\<not> y) ''bwrite'') (
     kthen (upd_buf b (\<lambda>x. x\<lparr>dirty := True\<rparr>)) (iderw b)))"

text \<open>The six pointer assignments of \<open>brelse\<close>.\<close>

definition move_to_front :: "nat \<Rightarrow> buf list \<Rightarrow> buf list" where
  "move_to_front b bs =
     (let bs = bs[bnext (bs ! b) := (bs ! bnext (bs ! b))\<lparr>bprev := bprev (bs ! b)\<rparr>];
          bs = bs[bprev (bs ! b) := (bs ! bprev (bs ! b))\<lparr>bnext := bnext (bs ! b)\<rparr>];
          bs = bs[b := (bs ! b)\<lparr>bnext := bnext (bs ! NBUF)\<rparr>];
          bs = bs[b := (bs ! b)\<lparr>bprev := NBUF\<rparr>];
          bs = bs[bnext (bs ! NBUF) := (bs ! bnext (bs ! NBUF))\<lparr>bprev := b\<rparr>]
      in bs[NBUF := (bs ! NBUF)\<lparr>bnext := b\<rparr>])"

definition brelse :: "nat \<Rightarrow> ('x bst_scheme, unit) kop" where
  "brelse b =
     kbind (kget (\<lambda>s. busy (bufs s ! b))) (\<lambda>y.
     kthen (kguard (\<not> y) ''brelse'') (
     kthen (acquire LK_bcache) (
     kthen (kmod (\<lambda>s. s\<lparr>bufs := move_to_front b (bufs s)\<rparr>)) (
     kthen (upd_buf b (\<lambda>x. x\<lparr>busy := False\<rparr>)) (
     kthen (wakeup (Ch_buf b)) (release LK_bcache))))))"

section \<open>The list\<close>

text \<open>\<open>xs\<close> is what lies between \<open>a\<close> and \<open>z\<close>, along \<open>next\<close> and, backwards, along \<open>prev\<close>.\<close>

primrec dpath :: "buf list \<Rightarrow> nat \<Rightarrow> nat list \<Rightarrow> nat \<Rightarrow> bool" where
  "dpath bs a [] z \<longleftrightarrow> bnext (bs ! a) = z \<and> bprev (bs ! z) = a"
| "dpath bs a (x # xs) z \<longleftrightarrow> bnext (bs ! a) = x \<and> bprev (bs ! x) = a \<and> dpath bs x xs z"

text \<open>The list threads exactly the buffers.\<close>

definition ring :: "buf list \<Rightarrow> nat list \<Rightarrow> bool" where
  "ring bs xs \<longleftrightarrow> length bs = Suc NBUF \<and> distinct xs \<and> set xs = {..<NBUF} \<and> dpath bs NBUF xs NBUF"

lemma dpath_append: "dpath bs a (xs @ y # ys) z \<longleftrightarrow> dpath bs a xs y \<and> dpath bs y ys z"
  by (induction xs arbitrary: a) auto

lemma dpath_snoc: "dpath bs a (xs @ [y]) z \<longleftrightarrow> dpath bs a xs y \<and> bnext (bs ! y) = z \<and> bprev (bs ! z) = y"
  by (simp add: dpath_append)

lemma dpath_cong:
  "(\<And>x. x \<in> insert a (set xs) \<Longrightarrow> bnext (bs' ! x) = bnext (bs ! x)) \<Longrightarrow>
   (\<And>x. x \<in> insert z (set xs) \<Longrightarrow> bprev (bs' ! x) = bprev (bs ! x)) \<Longrightarrow>
   dpath bs' a xs z \<longleftrightarrow> dpath bs a xs z"
  by (induction xs arbitrary: a) auto

lemma scan_next:
  "dpath bs a xs NBUF \<Longrightarrow> NBUF \<notin> set xs \<Longrightarrow> length xs \<le> n \<Longrightarrow>
   scan (Suc n) (\<lambda>b. bnext (bs ! b)) P (bnext (bs ! a)) = Some (find P xs)"
proof (induction xs arbitrary: a n)
  case Nil
  then show ?case by simp
next
  case (Cons x xs)
  then obtain m where n: "n = Suc m" by (cases n) auto
  with Cons.prems Cons.IH [of x m] show ?case by (auto simp del: scan.simps(2)) (auto simp: n)
qed

lemma scan_prev:
  "dpath bs NBUF xs z \<Longrightarrow> NBUF \<notin> set xs \<Longrightarrow> length xs \<le> n \<Longrightarrow>
   scan (Suc n) (\<lambda>b. bprev (bs ! b)) P (bprev (bs ! z)) = Some (find P (rev xs))"
proof (induction xs arbitrary: z n rule: rev_induct)
  case Nil
  then show ?case by simp
next
  case (snoc x xs)
  then obtain m where n: "n = Suc m" by (cases n) auto
  with snoc.prems snoc.IH [of x m] show ?case
    by (auto simp: dpath_snoc simp del: scan.simps(2)) (auto simp: n)
qed

text \<open>The part of a buffer that is not links.\<close>

definition body :: "buf \<Rightarrow> buf" where
  "body x = x\<lparr>bprev := 0, bnext := 0\<rparr>"

lemma body_simps [simp]: "body (x\<lparr>bprev := p\<rparr>) = body x" "body (x\<lparr>bnext := p\<rparr>) = body x"
  by (simp_all add: body_def)

lemma body_eqD:
  assumes "body x = body y"
  shows "busy x = busy y" "valid x = valid y" "dirty x = dirty y" "bdev x = bdev y"
    "blockno x = blockno y" "bdata x = bdata y"
  using assms by (cases x; cases y; simp add: body_def)+

lemma body_upd_links:
  "map body (bs[i := (bs ! i)\<lparr>bprev := p\<rparr>]) = map body bs"
  "map body (bs[i := (bs ! i)\<lparr>bnext := p\<rparr>]) = map body bs"
  by (metis body_simps list_update_id map_update)+

lemma body_move_to_front: "map body (move_to_front b bs) = map body bs"
  unfolding move_to_front_def Let_def by (simp only: body_upd_links)

lemma links_upd:
  assumes "i < length bs"
  shows "bnext (bs[i := (bs ! i)\<lparr>bprev := p\<rparr>] ! j) = bnext (bs ! j)"
    "bprev (bs[i := (bs ! i)\<lparr>bprev := p\<rparr>] ! j) = (if j = i then p else bprev (bs ! j))"
    "bprev (bs[i := (bs ! i)\<lparr>bnext := p\<rparr>] ! j) = bprev (bs ! j)"
    "bnext (bs[i := (bs ! i)\<lparr>bnext := p\<rparr>] ! j) = (if j = i then p else bnext (bs ! j))"
  using assms by (auto simp: nth_list_update)

lemma mtf_links:
  assumes l: "length bs = Suc NBUF" and b: "b < NBUF" and pq: "bprev (bs ! b) = p" "bnext (bs ! b) = q"
    and r: "p \<le> NBUF" "q \<le> NBUF" "p \<noteq> b" "q \<noteq> b" "bnext (bs ! NBUF) \<le> NBUF"
    and f: "f = (if p = NBUF then q else bnext (bs ! NBUF))" "f \<noteq> b" and i: "i \<le> NBUF"
  shows "bnext (move_to_front b bs ! i) =
      (if i = NBUF then b else if i = b then f else if i = p then q else bnext (bs ! i))"
    and "bprev (move_to_front b bs ! i) =
      (if i = b then NBUF else if i = f then b else if i = q then p else bprev (bs ! i))"
proof -
  let ?b1 = "bs[q := (bs ! q)\<lparr>bprev := p\<rparr>]"
  let ?b2 = "?b1[p := (?b1 ! p)\<lparr>bnext := q\<rparr>]"
  let ?b3 = "?b2[b := (?b2 ! b)\<lparr>bnext := f\<rparr>]"
  let ?b4 = "?b3[b := (?b3 ! b)\<lparr>bprev := NBUF\<rparr>]"
  let ?b5 = "?b4[f := (?b4 ! f)\<lparr>bprev := b\<rparr>]"
  let ?b6 = "?b5[NBUF := (?b5 ! NBUF)\<lparr>bnext := b\<rparr>]"
  have l': "p < length bs" "q < length bs" "b < length bs" "NBUF < length bs" "f < length bs" "i < length bs"
    using l b r f(1) i by auto
  have 1: "bprev (?b1 ! b) = p" "bnext (?b1 ! b) = q" using pq r by (simp_all add: links_upd l')
  have 2: "bnext (?b2 ! NBUF) = f" using f(1) by (simp add: links_upd l')
  have 3: "bnext (?b4 ! NBUF) = f" using 2 b by (simp add: links_upd l')
  have e: "move_to_front b bs = ?b6"
    unfolding move_to_front_def Let_def by (simp only: pq 1 2 3)
  show "bnext (move_to_front b bs ! i) =
      (if i = NBUF then b else if i = b then f else if i = p then q else bnext (bs ! i))"
    unfolding e by (simp only: links_upd length_list_update l')
  show "bprev (move_to_front b bs ! i) =
      (if i = b then NBUF else if i = f then b else if i = q then p else bprev (bs ! i))"
    unfolding e using f(2) by (simp only: links_upd length_list_update l' split: if_split) auto
qed

lemma dpath_ends: "dpath bs a (xs @ b # ys) z \<Longrightarrow>
   bprev (bs ! b) = last (a # xs) \<and> bnext (bs ! b) = hd (ys @ [z]) \<and> bnext (bs ! a) = hd (xs @ [b])"
proof (induction xs arbitrary: a)
  case Nil
  then show ?case by (cases ys) auto
next
  case (Cons x xs)
  then show ?case by (cases xs) auto
qed

lemma ring_split:
  assumes "ring bs (ys @ b # zs)"
  shows "b < NBUF" "b \<notin> set ys" "b \<notin> set zs" "set ys \<subseteq> {..<NBUF}" "set zs \<subseteq> {..<NBUF}"
    "set ys \<inter> set zs = {}" "distinct ys" "distinct zs" "NBUF \<notin> set ys" "NBUF \<notin> set zs"
proof -
  have "distinct (ys @ b # zs)" and s: "set (ys @ b # zs) = {..<NBUF}" using assms by (auto simp: ring_def)
  then show "b \<notin> set ys" "b \<notin> set zs" "set ys \<inter> set zs = {}" "distinct ys" "distinct zs" by auto
  from s show "b < NBUF" "set ys \<subseteq> {..<NBUF}" "set zs \<subseteq> {..<NBUF}" by auto
  then show "NBUF \<notin> set ys" "NBUF \<notin> set zs" by auto
qed

lemma ring_move_to_front:
  assumes "ring bs (ys @ b # zs)"
  shows "ring (move_to_front b bs) (b # ys @ zs)"
proof -
  note s = ring_split [OF assms]
  have dp: "dpath bs NBUF (ys @ b # zs) NBUF" and len: "length bs = Suc NBUF"
    using assms by (auto simp: ring_def)
  then have d1: "dpath bs NBUF ys b" and d2: "dpath bs b zs NBUF" by (auto simp: dpath_append)
  define p where "p = last (NBUF # ys)"
  define q where "q = hd (zs @ [NBUF])"
  define f where "f = (if p = NBUF then q else bnext (bs ! NBUF))"
  have pq: "bprev (bs ! b) = p" "bnext (bs ! b) = q" "bnext (bs ! NBUF) = hd (ys @ [b])"
    using dpath_ends [OF dp] by (auto simp: p_def q_def)
  have p: "p \<in> insert NBUF (set ys)" "p = NBUF \<longleftrightarrow> ys = []" using s(9) by (auto simp: p_def dest: last_in_set)
  have q: "q \<in> insert NBUF (set zs)" by (cases zs) (auto simp: q_def)
  have f': "f = hd (ys @ zs @ [NBUF])" using pq(3) p(2) by (cases ys) (auto simp: f_def q_def)
  have fin: "f \<in> set (ys @ zs @ [NBUF])" unfolding f' by (rule hd_in_set) simp
  have b4: "p \<le> NBUF" "q \<le> NBUF" "p \<noteq> b" "q \<noteq> b" "f \<noteq> b" "bnext (bs ! NBUF) \<le> NBUF"
    using p(1) q fin s pq(3) by (auto simp: hd_append subset_iff less_imp_le split: if_splits)
  note L = mtf_links [OF len s(1) pq(1,2) b4(1-4,6) f_def b4(5)]
  let ?m = "move_to_front b bs"
  have bd: "x \<le> NBUF" if "x \<in> set ys \<union> set zs \<union> {b, NBUF}" for x using that s(1,4,5) by (auto simp: subset_iff less_imp_le)
  have fb: "f \<le> NBUF" using bd fin by auto
  have nb: "bnext (?m ! NBUF) = b" "bnext (?m ! b) = f" "p \<noteq> NBUF \<Longrightarrow> bnext (?m ! p) = q"
    "bprev (?m ! b) = NBUF" "bprev (?m ! f) = b" "q \<noteq> f \<Longrightarrow> bprev (?m ! q) = p"
    using L [of NBUF] L [of b] L [of p] L [of f] L [of q] s(1) b4 fb by simp_all
  have no: "bnext (?m ! x) = bnext (bs ! x)" if "x \<in> set ys \<union> set zs" "x \<noteq> p" for x
    using L(1) [of x] bd [of x] that s by auto
  have po: "bprev (?m ! x) = bprev (bs ! x)" if "x \<in> set ys \<union> set zs \<union> {NBUF}" "x \<noteq> f" "x \<noteq> q" for x
    using L(2) [of x] bd [of x] that s by auto
  have "dpath ?m b (ys @ zs) NBUF"
  proof (cases ys rule: rev_cases)
    case Nil
    then have e: "p = NBUF" "f = q" using p(2) by (auto simp: f_def)
    show ?thesis
    proof (cases zs)
      case Nil
      with e \<open>ys = []\<close> nb show ?thesis by (simp add: q_def)
    next
      case (Cons z zs')
      then have "q = z" by (simp add: q_def)
      then have "dpath ?m z zs' NBUF = dpath bs z zs' NBUF"
        using Cons e s by (intro dpath_cong no po) auto
      with d2 Cons \<open>ys = []\<close> nb e \<open>q = z\<close> show ?thesis by simp
    qed
  next
    case (snoc us p')
    then have ys: "ys = us @ [p]" by (simp add: p_def)
    then have pN: "p \<noteq> NBUF" using p(2) by simp
    have "dpath ?m b us p"
    proof (cases us)
      case Nil
      then show ?thesis using nb f' ys by simp
    next
      case (Cons u us')
      then have fu: "f = u" using f' ys by simp
      have dd: "dpath bs u us' p" using d1 ys Cons by (simp add: dpath_snoc)
      have "dpath ?m u us' p = dpath bs u us' p"
        using s(2,6,7,9) ys Cons fu q by (intro dpath_cong no po) auto
      with dd Cons fu nb show ?thesis by simp
    qed
    moreover have "dpath ?m p zs NBUF"
    proof (cases zs)
      case Nil
      then show ?thesis using nb pN f' ys s(9) by (cases us) (auto simp: q_def)
    next
      case (Cons z zs')
      then have qz: "q = z" by (simp add: q_def)
      have fy: "f \<in> set ys" using f' ys by (cases us) auto
      then have "q \<noteq> f" using s(6) Cons qz by auto
      moreover have "dpath ?m z zs' NBUF = dpath bs z zs' NBUF"
        using s(6,8,9,10) p(1) pN Cons qz fy by (intro dpath_cong no po) auto
      ultimately show ?thesis using d2 Cons qz nb pN by simp
    qed
    ultimately show ?thesis using ys by (simp add: dpath_append)
  qed
  moreover have "length ?m = length bs" using arg_cong [OF body_move_to_front, of length] by simp
  ultimately show ?thesis using assms nb(1,4) by (auto simp: ring_def)
qed

section \<open>A well-formed cache\<close>

text \<open>
  A buffer of the disk is valid and there is only one for a block; busy and dirty buffers are
  of the disk; a buffer that is neither holds what the disk has.
\<close>

definition bc :: "buf list \<Rightarrow> (uint \<Rightarrow> uchar list) \<Rightarrow> uint \<Rightarrow> bool" where
  "bc bs d dz \<longleftrightarrow> (\<exists>xs. ring bs xs) \<and> (\<forall>n < dz. length (d n) = BSIZE) \<and>
     (\<forall>i<NBUF. length (bdata (bs ! i)) = BSIZE) \<and>
     (\<forall>i<NBUF. \<forall>j<NBUF. bdev (bs ! i) = 1 \<longrightarrow> bdev (bs ! j) = 1 \<longrightarrow> blockno (bs ! i) = blockno (bs ! j) \<longrightarrow> i = j) \<and>
     (\<forall>i<NBUF. busy (bs ! i) \<or> dirty (bs ! i) \<longrightarrow> bdev (bs ! i) = 1) \<and>
     (\<forall>i<NBUF. bdev (bs ! i) = 1 \<longrightarrow> valid (bs ! i) \<and> blockno (bs ! i) < dz) \<and>
     (\<forall>i<NBUF. bdev (bs ! i) = 1 \<longrightarrow> \<not> busy (bs ! i) \<longrightarrow> \<not> dirty (bs ! i) \<longrightarrow>
        bdata (bs ! i) = d (blockno (bs ! i)))"

lemma bcD:
  assumes "bc bs d dz"
  shows "\<exists>xs. ring bs xs" "n < dz \<Longrightarrow> length (d n) = BSIZE" "length bs = Suc NBUF"
    "i < NBUF \<Longrightarrow> length (bdata (bs ! i)) = BSIZE"
    "i < NBUF \<Longrightarrow> j < NBUF \<Longrightarrow> bdev (bs ! i) = 1 \<Longrightarrow> bdev (bs ! j) = 1 \<Longrightarrow>
       blockno (bs ! i) = blockno (bs ! j) \<Longrightarrow> i = j"
    "i < NBUF \<Longrightarrow> busy (bs ! i) \<or> dirty (bs ! i) \<Longrightarrow> bdev (bs ! i) = 1"
    "i < NBUF \<Longrightarrow> bdev (bs ! i) = 1 \<Longrightarrow> valid (bs ! i) \<and> blockno (bs ! i) < dz"
    "i < NBUF \<Longrightarrow> bdev (bs ! i) = 1 \<Longrightarrow> \<not> busy (bs ! i) \<Longrightarrow> \<not> dirty (bs ! i) \<Longrightarrow>
       bdata (bs ! i) = d (blockno (bs ! i))"
  using assms unfolding bc_def ring_def by blast+

text \<open>What a reader of block \<open>n\<close> sees; who holds buffer \<open>b\<close>; the blocks in use and not yet written.\<close>

definition blkof :: "buf list \<Rightarrow> (uint \<Rightarrow> uchar list) \<Rightarrow> uint \<Rightarrow> uchar list" where
  "blkof bs d n = (case find_idx (\<lambda>x. bdev x = 1 \<and> blockno x = n) (take NBUF bs) of
     None \<Rightarrow> d n | Some i \<Rightarrow> bdata (bs ! i))"

definition hasb :: "buf list \<Rightarrow> nat \<Rightarrow> uint \<Rightarrow> bool" where
  "hasb bs b n \<longleftrightarrow> b < NBUF \<and> busy (bs ! b) \<and> bdev (bs ! b) = 1 \<and> blockno (bs ! b) = n"

definition dirtyof :: "buf list \<Rightarrow> uint set" where
  "dirtyof bs = {n. \<exists>i<NBUF. dirty (bs ! i) \<and> bdev (bs ! i) = 1 \<and> blockno (bs ! i) = n}"

abbreviation bc_ok :: "'x bst_scheme \<Rightarrow> bool" where "bc_ok s \<equiv> bc (bufs s) (disk s) (disksize s)"
abbreviation blk :: "'x bst_scheme \<Rightarrow> uint \<Rightarrow> uchar list" where "blk s \<equiv> blkof (bufs s) (disk s)"
abbreviation has :: "'x bst_scheme \<Rightarrow> nat \<Rightarrow> uint \<Rightarrow> bool" where "has s \<equiv> hasb (bufs s)"
abbreviation busyb :: "'x bst_scheme \<Rightarrow> uint set" where "busyb s \<equiv> {n. \<exists>b. has s b n}"
abbreviation dirtyb :: "'x bst_scheme \<Rightarrow> uint set" where "dirtyb s \<equiv> dirtyof (bufs s)"

lemma blkof_cached:
  assumes "bc bs d dz" "i < NBUF" "bdev (bs ! i) = 1"
  shows "blkof bs d (blockno (bs ! i)) = bdata (bs ! i)"
proof -
  let ?P = "\<lambda>x. bdev x = 1 \<and> blockno x = blockno (bs ! i)"
  have l: "length (take NBUF bs) = NBUF" using bcD(3) [OF assms(1)] by simp
  then obtain j where j: "find_idx ?P (take NBUF bs) = Some j"
    using find_idx_exists [of i "take NBUF bs" ?P] assms by auto
  then have "j < NBUF" "?P (bs ! j)" using find_idx_Some [OF j] l by auto
  then have "j = i" using bcD(5) [OF assms(1) _ assms(2) _ assms(3)] by blast
  with j show ?thesis by (simp add: blkof_def)
qed

lemma blkof_uncached:
  assumes "length bs = Suc NBUF" "\<And>i. i < NBUF \<Longrightarrow> bdev (bs ! i) = 1 \<Longrightarrow> blockno (bs ! i) \<noteq> n"
  shows "blkof bs d n = d n"
proof -
  have "find_idx (\<lambda>x. bdev x = 1 \<and> blockno x = n) (take NBUF bs) = None"
    unfolding find_idx_None
  proof
    fix y assume "y \<in> set (take NBUF bs)"
    then obtain i where "i < NBUF" "y = bs ! i" using assms(1) by (auto simp: in_set_conv_nth)
    with assms(2) show "\<not> (bdev y = 1 \<and> blockno y = n)" by blast
  qed
  then show ?thesis by (simp add: blkof_def)
qed

lemma length_blkof: "bc bs d dz \<Longrightarrow> n < dz \<Longrightarrow> length (blkof bs d n) = BSIZE"
  using bcD(2,3,4) [of bs d dz] by (auto simp: blkof_def split: option.split dest!: find_idx_Some)

lemma ring_upd:
  assumes "ring bs xs" "bprev x = bprev (bs ! b)" "bnext x = bnext (bs ! b)"
  shows "ring (bs[b := x]) xs"
proof -
  have "bs[b := x] ! i = bs ! i \<or> i = b \<and> bs[b := x] ! i = x" for i
    by (cases "b < length bs") (auto simp: nth_list_update not_less list_update_beyond)
  then have "bprev (bs[b := x] ! i) = bprev (bs ! i)" "bnext (bs[b := x] ! i) = bnext (bs ! i)" for i
    using assms(2,3) by metis+
  then have "dpath (bs[b := x]) NBUF xs NBUF = dpath bs NBUF xs NBUF" by (intro dpath_cong)
  with assms(1) show ?thesis unfolding ring_def by simp
qed

text \<open>Replacing one buffer.\<close>

lemma bc_upd:
  assumes c: "bc bs d dz" and b: "b < NBUF" "bprev x = bprev (bs ! b)" "bnext x = bnext (bs ! b)"
    and x: "length (bdata x) = BSIZE" "bdev x = 1" "valid x" "blockno x < dz"
    and u: "\<And>i. i < NBUF \<Longrightarrow> i \<noteq> b \<Longrightarrow> bdev (bs ! i) = 1 \<Longrightarrow> blockno (bs ! i) \<noteq> blockno x"
    and k: "\<not> busy x \<Longrightarrow> \<not> dirty x \<Longrightarrow> bdata x = d (blockno x)"
  shows "bc (bs[b := x]) d dz"
proof -
  have l: "b < length bs" using bcD(3) [OF c] b(1) by simp
  have at: "bs[b := x] ! i = (if i = b then x else bs ! i)" for i using l by (simp add: nth_list_update)
  have r: "\<exists>xs. ring (bs[b := x]) xs" using bcD(1) [OF c] ring_upd [OF _ b(2,3)] by blast
  have 2: "\<forall>i<NBUF. length (bdata (bs[b := x] ! i)) = BSIZE" using bcD(4) [OF c] x(1) by (simp add: at)
  have 3: "i = j" if "i < NBUF" "j < NBUF" "bdev (bs[b := x] ! i) = 1" "bdev (bs[b := x] ! j) = 1"
      "blockno (bs[b := x] ! i) = blockno (bs[b := x] ! j)" for i j
    using that u [of i] u [of j] bcD(5) [OF c that(1,2)] by (cases "i = b"; cases "j = b") (auto simp: at)
  have 4: "\<forall>i<NBUF. busy (bs[b := x] ! i) \<or> dirty (bs[b := x] ! i) \<longrightarrow> bdev (bs[b := x] ! i) = 1"
    unfolding at using bcD(6) [OF c] x(2) by simp
  have 5: "\<forall>i<NBUF. bdev (bs[b := x] ! i) = 1 \<longrightarrow> valid (bs[b := x] ! i) \<and> blockno (bs[b := x] ! i) < dz"
    unfolding at using bcD(7) [OF c] x(3,4) by simp
  have 6: "\<forall>i<NBUF. bdev (bs[b := x] ! i) = 1 \<longrightarrow> \<not> busy (bs[b := x] ! i) \<longrightarrow> \<not> dirty (bs[b := x] ! i) \<longrightarrow>
        bdata (bs[b := x] ! i) = d (blockno (bs[b := x] ! i))"
    unfolding at using bcD(8) [OF c] k by simp
  have 7: "\<forall>n < dz. length (d n) = BSIZE" using bcD(2) [OF c] by simp
  from r 2 3 4 5 6 7 show ?thesis unfolding bc_def by blast
qed

lemma blkof_upd:
  assumes c: "bc bs d dz" and c': "bc (bs[b := x]) d dz" and b: "b < NBUF" "bdev x = 1"
  shows "blkof (bs[b := x]) d m = (if m = blockno x then bdata x
    else if bdev (bs ! b) = 1 \<and> m = blockno (bs ! b) then d m else blkof bs d m)"
proof (cases "m = blockno x")
  case True
  then show ?thesis using blkof_cached [OF c' b(1)] b bcD(3) [OF c] by simp
next
  case False
  have at: "bs[b := x] ! i = (if i = b then x else bs ! i)" for i
    using b bcD(3) [OF c] by (simp add: nth_list_update)
  show ?thesis
  proof (cases "\<exists>i<NBUF. i \<noteq> b \<and> bdev (bs ! i) = 1 \<and> blockno (bs ! i) = m")
    case True
    then obtain i where i: "i < NBUF" "i \<noteq> b" "bdev (bs ! i) = 1" "blockno (bs ! i) = m" by auto
    then have "blkof (bs[b := x]) d m = bdata (bs ! i)" "blkof bs d m = bdata (bs ! i)"
      using blkof_cached [OF c', of i] blkof_cached [OF c, of i] by (auto simp: at)
    moreover have "\<not> (bdev (bs ! b) = 1 \<and> m = blockno (bs ! b))"
      using bcD(5) [OF c i(1) b(1) i(3)] i(2,4) by auto
    ultimately show ?thesis using False by auto
  next
    case un: False
    then have "blkof (bs[b := x]) d m = d m"
      using False bcD(3) [OF c] by (intro blkof_uncached) (auto simp: at split: if_splits)
    moreover have "blkof bs d m = d m" if "\<not> (bdev (bs ! b) = 1 \<and> m = blockno (bs ! b))"
      using that un bcD(3) [OF c] by (intro blkof_uncached) blast+
    ultimately show ?thesis using False by auto
  qed
qed

lemma hasb_upd:
  "b < length bs \<Longrightarrow> hasb (bs[b := x]) i n =
     (if i = b then b < NBUF \<and> busy x \<and> bdev x = 1 \<and> blockno x = n else hasb bs i n)"
  by (simp add: hasb_def nth_list_update)

lemma dirtyof_upd_same:
  assumes "b < length bs" "dirty x = dirty (bs ! b)"
    "dirty x \<Longrightarrow> bdev x = bdev (bs ! b) \<and> blockno x = blockno (bs ! b)"
  shows "dirtyof (bs[b := x]) = dirtyof bs"
proof -
  have "dirty (bs[b := x] ! i) \<and> bdev (bs[b := x] ! i) = 1 \<and> blockno (bs[b := x] ! i) = n \<longleftrightarrow>
      dirty (bs ! i) \<and> bdev (bs ! i) = 1 \<and> blockno (bs ! i) = n" for i n
    using assms by (cases "i = b") (auto simp: nth_list_update)
  then show ?thesis by (simp add: dirtyof_def)
qed

lemma body_fields:
  assumes "map body bs' = map body bs" "i < length bs"
  shows "busy (bs' ! i) = busy (bs ! i)" "valid (bs' ! i) = valid (bs ! i)" "dirty (bs' ! i) = dirty (bs ! i)"
    "bdev (bs' ! i) = bdev (bs ! i)" "blockno (bs' ! i) = blockno (bs ! i)" "bdata (bs' ! i) = bdata (bs ! i)"
proof -
  have "length bs' = length bs" by (rule map_eq_imp_length_eq [OF assms(1)])
  with assms have e: "body (bs' ! i) = body (bs ! i)" by (metis nth_map)
  show "busy (bs' ! i) = busy (bs ! i)" "valid (bs' ! i) = valid (bs ! i)" "dirty (bs' ! i) = dirty (bs ! i)"
    "bdev (bs' ! i) = bdev (bs ! i)" "blockno (bs' ! i) = blockno (bs ! i)" "bdata (bs' ! i) = bdata (bs ! i)"
    by (rule body_eqD [OF e])+
qed

lemma body_views:
  assumes "map body bs' = map body bs" "length bs = Suc NBUF"
  shows "dirtyof bs' = dirtyof bs" "hasb bs' = hasb bs" "blkof bs' d = blkof bs d"
    "bc bs d dz \<Longrightarrow> ring bs' xs \<Longrightarrow> bc bs' d dz"
proof -
  note f = body_fields [OF assms(1)]
  have l: "i < NBUF \<Longrightarrow> i < length bs" for i using assms(2) by simp
  show "dirtyof bs' = dirtyof bs" using f l by (auto simp: dirtyof_def)
  show "hasb bs' = hasb bs" using f l by (auto simp: hasb_def fun_eq_iff)
  have fe: "find_idx P xs = find_idx P ys" if "length xs = length ys"
    "\<And>i. i < length xs \<Longrightarrow> P (xs ! i) = P (ys ! i)" for P and xs ys :: "buf list"
    using that
  proof (induction xs ys rule: list_induct2)
    case (Cons x xs y ys)
    then show ?case using Cons.prems [of 0] Cons.prems [of "Suc _"] by fastforce
  qed simp
  have len: "length bs' = length bs" by (rule map_eq_imp_length_eq [OF assms(1)])
  have "find_idx (\<lambda>x. bdev x = 1 \<and> blockno x = n) (take NBUF bs') =
      find_idx (\<lambda>x. bdev x = 1 \<and> blockno x = n) (take NBUF bs)" for n
    using len f l by (intro fe) auto
  then show "blkof bs' d = blkof bs d"
    using f l len assms(2) by (auto simp: blkof_def fun_eq_iff split: option.split dest!: find_idx_Some)
  show "bc bs' d dz" if "bc bs d dz" "ring bs' xs"
    using that f l unfolding bc_def by (simp (no_asm_simp)) blast
qed

text \<open>While fewer than \<open>NBUF\<close> blocks are in use or unwritten, some buffer can be recycled.\<close>

lemma clean_exists:
  assumes c: "bc bs d dz" and n: "card ({n. \<exists>b. hasb bs b n} \<union> dirtyof bs) < NBUF"
  shows "\<exists>i<NBUF. \<not> busy (bs ! i) \<and> \<not> dirty (bs ! i)"
proof (rule ccontr)
  let ?f = "\<lambda>i. blockno (bs ! i)" and ?S = "{n. \<exists>b. hasb bs b n} \<union> dirtyof bs"
  assume "\<not> ?thesis"
  then have all: "busy (bs ! i) \<or> dirty (bs ! i)" if "i < NBUF" for i using that by auto
  have "?S \<subseteq> ?f ` {..<NBUF}" by (auto simp: hasb_def dirtyof_def)
  then have fin: "finite ?S" by (rule finite_subset) simp
  have "inj_on ?f {..<NBUF}" using bcD(5,6) [OF c] all by (auto simp: inj_on_def)
  moreover have "?f ` {..<NBUF} \<subseteq> ?S" using all bcD(6) [OF c] by (auto simp: hasb_def dirtyof_def)
  ultimately have "card {..<NBUF} \<le> card ?S" using fin by (rule card_inj_on_le)
  with n show False by simp
qed

section \<open>What the operations do\<close>

text \<open>\<open>bread\<close> has returned buffer \<open>b\<close> for block \<open>n\<close>.\<close>

definition got :: "'x bst_scheme \<Rightarrow> uint \<Rightarrow> nat \<Rightarrow> 'x bst_scheme \<Rightarrow> bool" where
  "got s n b t \<longleftrightarrow> t = s\<lparr>bufs := bufs t\<rparr> \<and> bc_ok t \<and> blk t = blk s \<and> dirtyb t = dirtyb s \<and>
     (\<forall>b' n'. has t b' n' \<longleftrightarrow> has s b' n' \<or> b' = b \<and> n' = n)"

lemma find_Some_D: "find P xs = Some x \<Longrightarrow> x \<in> set xs \<and> P x"
  by (auto simp: find_Some_iff)

lemma find_None_D: "find P xs = None \<Longrightarrow> x \<in> set xs \<Longrightarrow> \<not> P x"
  by (auto simp: find_None_iff)

lemma release_own [simp]: "s\<lparr>held := held s\<rparr> = s"
  by (cases s) simp

lemma gotI:
  assumes c: "bc_ok s" and b: "b < NBUF" "\<not> busy (bufs s ! b)"
    and x: "bprev x = bprev (bufs s ! b)" "bnext x = bnext (bufs s ! b)" "busy x" "valid x" "bdev x = 1"
      "blockno x = n" "n < disksize s" "bdata x = blk s n"
    and d: "dirty x = dirty (bufs s ! b)" "dirty x \<Longrightarrow> bdev (bufs s ! b) = 1 \<and> blockno (bufs s ! b) = n"
    and u: "\<And>i. i < NBUF \<Longrightarrow> i \<noteq> b \<Longrightarrow> bdev (bufs s ! i) = 1 \<Longrightarrow> blockno (bufs s ! i) \<noteq> n"
  shows "got s n b (s\<lparr>bufs := (bufs s)[b := x]\<rparr>)"
proof -
  have l: "b < length (bufs s)" using bcD(3) [OF c] b(1) by simp
  have bl: "length (blk s n) = BSIZE"
    by (rule length_blkof [OF c x(7)])
  have c': "bc ((bufs s)[b := x]) (disk s) (disksize s)"
    using x d u bl by (intro bc_upd [OF c b(1)]) simp_all
  have "blkof ((bufs s)[b := x]) (disk s) m = blk s m" for m
  proof -
    have "disk s m = blk s m" if "bdev (bufs s ! b) = 1" "m = blockno (bufs s ! b)" "m \<noteq> n"
      using that b d(2) d(1) bcD(8) [OF c b(1)] blkof_cached [OF c b(1)] x(6) by auto
    then show ?thesis using blkof_upd [OF c c' b(1) x(5), of m] x(6,8) by auto
  qed
  moreover have "dirtyof ((bufs s)[b := x]) = dirtyb s"
    using d x by (intro dirtyof_upd_same l) auto
  moreover have "hasb ((bufs s)[b := x]) b' n' \<longleftrightarrow> has s b' n' \<or> b' = b \<and> n' = n" for b' n'
    using b x l by (auto simp: hasb_upd) (auto simp: hasb_def)
  ultimately show ?thesis using c' by (auto simp: got_def)
qed

lemma bread_ok:
  assumes c: "bc_ok s" and n: "n < disksize s" "n \<notin> busyb s" and cap: "n \<in> dirtyb s \<or> card (busyb s \<union> dirtyb s) < NBUF"
    and lk: "LK_bcache \<notin> set (held s)"
  shows "\<exists>b t. bread 1 n s = Ok b t \<and> got s n b t"
proof -
  let ?bs = "bufs s"
  from bcD(1) [OF c] obtain xs where r: "ring ?bs xs" by auto
  then have dp: "dpath ?bs NBUF xs NBUF" "NBUF \<notin> set xs" "set xs = {..<NBUF}" "length xs \<le> NBUF"
    using distinct_card [of xs] by (auto simp: ring_def)
  have len: "length ?bs = Suc NBUF" by (rule bcD(3) [OF c])
  let ?P = "\<lambda>b. bdev (?bs ! b) = 1 \<and> blockno (?bs ! b) = n"
  let ?R = "\<lambda>b. \<not> busy (?bs ! b) \<and> \<not> dirty (?bs ! b)"
  note sc = scan_next [OF dp(1,2,4), of ?P] scan_prev [OF dp(1,2,4), of ?R]
  show ?thesis
  proof (cases "find ?P xs")
    case (Some b)
    then have b: "b < NBUF" "?P b" using find_Some_D [OF Some] dp(3) by auto
    then have nbz: "\<not> busy (?bs ! b)" using n(2) by (auto simp: hasb_def)
    note v = bcD(7) [OF c b(1)]
    let ?t = "s\<lparr>bufs := ?bs[b := (?bs ! b)\<lparr>busy := True\<rparr>]\<rparr>"
    have "bread 1 n s = Ok b ?t"
      using Some sc(1) nbz lk b v len by (simp add: bread_def bget_def bget_loop_def del: scan.simps)
    moreover have "got s n b ?t"
    proof (rule gotI [OF c b(1) nbz])
      show "blockno (?bs ! i) \<noteq> n" if "i < NBUF" "i \<noteq> b" "bdev (?bs ! i) = 1" for i
        using bcD(5) [OF c that(1) b(1) that(3)] b(2) that(2) by auto
    qed (use b v n blkof_cached [OF c b(1)] in simp_all)
    ultimately show ?thesis by blast
  next
    case None
    then have "n \<notin> dirtyb s" using find_None_D [OF None] dp(3) by (auto simp: dirtyof_def)
    with cap have "card (busyb s \<union> dirtyb s) < NBUF" by simp
    from clean_exists [OF c this] obtain i where i: "i < NBUF" "?R i" by auto
    then obtain b where f: "find ?R (rev xs) = Some b"
      using find_None_D [of ?R "rev xs" i] dp(3) by (cases "find ?R (rev xs)") auto
    then have b: "b < NBUF" "?R b" using find_Some_D [OF f] dp(3) by auto
    have un: "\<not> ?P i" if "i < NBUF" for i using find_None_D [OF None, of i] that dp(3) by auto
    let ?x = "(?bs ! b)\<lparr>bdev := 1, blockno := n, busy := True, valid := False, dirty := False,
      bdata := disk s n, valid := True\<rparr>"
    have "bread 1 n s = Ok b (s\<lparr>bufs := ?bs[b := ?x]\<rparr>)"
      using None f sc lk b n(1) len by (simp add: bread_def bget_def bget_loop_def iderw_def not_le del: scan.simps)
    moreover have "blk s n = disk s n" by (rule blkof_uncached [OF len]) (use un in blast)
    then have "got s n b (s\<lparr>bufs := ?bs[b := ?x]\<rparr>)"
      using b n un by (intro gotI [OF c]) simp_all
    ultimately show ?thesis by blast
  qed
qed

lemma hasD:
  assumes "has s b n" "bc_ok s"
  shows "b < NBUF" "b < length (bufs s)" "busy (bufs s ! b)" "bdev (bufs s ! b) = 1" "blockno (bufs s ! b) = n"
    "valid (bufs s ! b)" "n < disksize s" "bdata (bufs s ! b) = blk s n" "length (blk s n) = BSIZE"
    "\<And>i. i < NBUF \<Longrightarrow> i \<noteq> b \<Longrightarrow> bdev (bufs s ! i) = 1 \<Longrightarrow> blockno (bufs s ! i) \<noteq> n"
    "dirty (bufs s ! b) \<longleftrightarrow> n \<in> dirtyb s"
proof -
  show b: "b < NBUF" "busy (bufs s ! b)" "bdev (bufs s ! b) = 1" "blockno (bufs s ! b) = n"
    using assms(1) by (auto simp: hasb_def)
  show "b < length (bufs s)" using b bcD(3) [OF assms(2)] by simp
  show "valid (bufs s ! b)" "n < disksize s" using bcD(7) [OF assms(2) b(1,3)] b(4) by auto
  show d: "bdata (bufs s ! b) = blk s n" using blkof_cached [OF assms(2) b(1,3)] b(4) by simp
  then show "length (blk s n) = BSIZE" using bcD(4) [OF assms(2) b(1)] by simp
  show u: "blockno (bufs s ! i) \<noteq> n" if "i < NBUF" "i \<noteq> b" "bdev (bufs s ! i) = 1" for i
    using bcD(5) [OF assms(2) that(1) b(1) that(3) b(3)] that(2) b(4) by auto
  show "dirty (bufs s ! b) \<longleftrightarrow> n \<in> dirtyb s"
    using b u by (auto simp: dirtyof_def)
qed

lemma set_bdat_ok:
  assumes h: "has s b n" and c: "bc_ok s" and d: "length d = BSIZE"
  shows "bc_ok (set_bdat b d s) \<and> blk (set_bdat b d s) = (blk s)(n := d) \<and>
    dirtyb (set_bdat b d s) = dirtyb s \<and> has (set_bdat b d s) = has s"
proof -
  note H = hasD [OF h c]
  let ?x = "(bufs s ! b)\<lparr>bdata := d\<rparr>"
  have c': "bc ((bufs s)[b := ?x]) (disk s) (disksize s)"
    using H d by (intro bc_upd [OF c H(1)]) simp_all
  have "blkof ((bufs s)[b := ?x]) (disk s) = (blk s)(n := d)"
    using H(4,5) by (auto simp: fun_eq_iff blkof_upd [OF c c' H(1)])
  moreover have "dirtyof ((bufs s)[b := ?x]) = dirtyb s" using H by (intro dirtyof_upd_same) auto
  moreover have "hasb ((bufs s)[b := ?x]) = has s" using H by (auto simp: fun_eq_iff hasb_upd) (auto simp: hasb_def)
  ultimately show ?thesis using c' by (simp add: set_bdat_def)
qed

text \<open>\<open>log_write\<close> sets \<open>B_DIRTY\<close>.\<close>

lemma dirtyof_set:
  assumes "b < NBUF" "b < length bs" "bdev x = 1" "blockno x = n" "bdev (bs ! b) = 1" "blockno (bs ! b) = n"
    and "\<And>i. i < NBUF \<Longrightarrow> i \<noteq> b \<Longrightarrow> bdev (bs ! i) = 1 \<Longrightarrow> blockno (bs ! i) \<noteq> n"
  shows "dirtyof (bs[b := x]) = (if dirty x then insert n (dirtyof bs) else dirtyof bs - {n})"
proof -
  have at: "bs[b := x] ! i = (if i = b then x else bs ! i)" for i using assms(2) by (simp add: nth_list_update)
  have "m \<in> dirtyof (bs[b := x]) \<longleftrightarrow> (if m = n then dirty x else m \<in> dirtyof bs)" for m
  proof (cases "m = n")
    case True
    then show ?thesis using assms by (auto simp: dirtyof_def at)
  next
    case False
    then show ?thesis using assms by (fastforce simp: dirtyof_def at)
  qed
  then show ?thesis by (auto simp: set_eq_iff split: if_splits)
qed

lemma mark_ok:
  assumes h: "has s b n" and c: "bc_ok s" and t: "t = s\<lparr>bufs := (bufs s)[b := (bufs s ! b)\<lparr>dirty := True\<rparr>]\<rparr>"
  shows "bc_ok t \<and> blk t = blk s \<and> dirtyb t = insert n (dirtyb s) \<and> has t = has s"
proof -
  note H = hasD [OF h c]
  let ?x = "(bufs s ! b)\<lparr>dirty := True\<rparr>"
  have l: "length (bdata (bufs s ! b)) = BSIZE" using H(8,9) by simp
  have c': "bc ((bufs s)[b := ?x]) (disk s) (disksize s)"
    using H l by (intro bc_upd [OF c H(1)]) simp_all
  have "blkof ((bufs s)[b := ?x]) (disk s) = blk s"
    using H(4,5,8) by (auto simp: fun_eq_iff blkof_upd [OF c c' H(1)])
  moreover have "dirtyof ((bufs s)[b := ?x]) = insert n (dirtyb s)" using H by (subst dirtyof_set) auto
  moreover have "hasb ((bufs s)[b := ?x]) = has s" using H by (auto simp: fun_eq_iff hasb_upd) (auto simp: hasb_def)
  ultimately show ?thesis using c' by (simp add: t)
qed

lemma bwrite_ok:
  assumes h: "has s b n" and c: "bc_ok s"
  shows "\<exists>t. bwrite b s = Ok () t \<and> t = s\<lparr>bufs := bufs t, disk := (disk s)(n := blk s n),
      dwrites := dwrites s @ [(n, blk s n)]\<rparr> \<and>
    bc_ok t \<and> blk t = blk s \<and> dirtyb t = dirtyb s - {n} \<and> has t = has s"
proof -
  note H = hasD [OF h c]
  let ?x = "(bufs s ! b)\<lparr>dirty := False, valid := True\<rparr>"
  let ?bs = "(bufs s)[b := ?x]"
  let ?t = "s\<lparr>bufs := ?bs, disk := (disk s)(n := blk s n), dwrites := dwrites s @ [(n, blk s n)]\<rparr>"
  have "bwrite b s = Ok () ?t" using H by (simp add: bwrite_def iderw_def not_le)
  moreover have c1: "bc ?bs (disk s) (disksize s)"
    using H by (intro bc_upd [OF c H(1)]) simp_all
  have at: "?bs ! i = (if i = b then ?x else bufs s ! i)" for i using H(2) by (simp add: nth_list_update)
  have ne: "blockno (?bs ! i) = n \<Longrightarrow> i = b" if "i < NBUF" "bdev (?bs ! i) = 1" for i
    using H(10) [of i] that by (cases "i = b") (simp_all add: at)
  have c2: "bc ?bs (disk ?t) (disksize s)"
  proof -
    have "\<forall>m < disksize s. length (((disk s)(n := blk s n)) m) = BSIZE" using bcD(2) [OF c1] H(9) by simp
    moreover have "bdata (?bs ! i) = ((disk s)(n := blk s n)) (blockno (?bs ! i))"
      if "i < NBUF" "bdev (?bs ! i) = 1" "\<not> busy (?bs ! i)" "\<not> dirty (?bs ! i)" for i
    proof -
      have "i \<noteq> b" using that(3) H(3) by (auto simp: at)
      then have "blockno (?bs ! i) \<noteq> n" using ne [OF that(1,2)] by blast
      then show ?thesis using bcD(8) [OF c1 that] by simp
    qed
    ultimately show ?thesis using c1 unfolding bc_def by simp
  qed
  moreover have "blkof ?bs (disk ?t) = blk s"
  proof
    fix m
    show "blkof ?bs (disk ?t) m = blk s m"
    proof (cases "m = n")
      case True
      then show ?thesis using blkof_cached [OF c2 H(1)] H(2,4,5,8) by simp
    next
      case False
      have "blkof ?bs (disk ?t) m = blkof ?bs (disk s) m" using False by (simp add: blkof_def split: option.split)
      also have "\<dots> = blk s m" using blkof_upd [OF c c1 H(1)] H(4,5) False by simp
      finally show ?thesis .
    qed
  qed
  moreover have "dirtyof ?bs = dirtyb s - {n}" using H by (subst dirtyof_set) auto
  moreover have "hasb ?bs = has s" using H by (auto simp: fun_eq_iff hasb_upd) (auto simp: hasb_def)
  ultimately show ?thesis by (intro exI [of _ ?t]) simp
qed

text \<open>Processes that were asleep and are now runnable; nothing else changes.\<close>

definition woken :: "proc list \<Rightarrow> proc list \<Rightarrow> bool" where
  "woken ps qs \<longleftrightarrow> list_all2 (\<lambda>p q. q = p \<or> pstate p = SLEEPING \<and> q = p\<lparr>pstate := RUNNABLE\<rparr>) ps qs"

lemma woken_refl [simp]: "woken ps ps"
  by (simp add: woken_def list_all2_refl)

lemma woken_trans: "woken ps rs" if "woken ps qs" "woken qs rs"
  unfolding woken_def by (rule list_all2_trans [OF _ that [unfolded woken_def]]) auto

lemma woken_wakeup: "woken ps (map (wake_proc ch) ps)"
  by (simp add: woken_def list_all2_conv_all_nth wake_proc_def)

lemma brelse_ok:
  assumes h: "has s b n" and c: "bc_ok s" and k: "n \<in> dirtyb s \<or> blk s n = disk s n"
    and lk: "LK_bcache \<notin> set (held s)" "LK_ptable \<notin> set (held s)"
  shows "\<exists>t. brelse b s = Ok () t \<and> t = s\<lparr>bufs := bufs t, procs := procs t\<rparr> \<and> woken (procs s) (procs t) \<and>
    bc_ok t \<and> blk t = blk s \<and> dirtyb t = dirtyb s \<and> (\<forall>b' n'. has t b' n' \<longleftrightarrow> has s b' n' \<and> b' \<noteq> b)"
proof -
  note H = hasD [OF h c]
  from bcD(1) [OF c] obtain xs where r: "ring (bufs s) xs" by auto
  then obtain ys zs where xs: "xs = ys @ b # zs" using H(1) split_list [of b xs] by (auto simp: ring_def)
  let ?m = "move_to_front b (bufs s)"
  have rm: "ring ?m (b # ys @ zs)" using ring_move_to_front r xs by simp
  note V = body_views [OF body_move_to_front [of b "bufs s"] bcD(3) [OF c]]
  have cm: "bc ?m (disk s) (disksize s)" by (rule V(4) [OF c rm])
  let ?x = "(?m ! b)\<lparr>busy := False\<rparr>"
  let ?bs = "?m[b := ?x]"
  let ?t = "s\<lparr>bufs := ?bs, procs := map (wake_proc (Ch_buf b)) (procs s)\<rparr>"
  let ?sm = "s\<lparr>bufs := ?m\<rparr>"
  have hm: "has ?sm b n" "bc_ok ?sm" using h cm V(2) by simp_all
  note M = hasD [OF hm, simplified]
  have "brelse b s = Ok () ?t"
    using H(3) lk by (simp add: brelse_def wakeup_ok)
  moreover have c': "bc ?bs (disk s) (disksize s)"
  proof (rule bc_upd [OF cm H(1)])
    show "bdata ?x = disk s (blockno ?x)" if "\<not> busy ?x" "\<not> dirty ?x"
      using that k M(5,8,11) V(1,3) by auto
  qed (use M in simp_all)
  moreover have "blkof ?bs (disk s) = blk s"
    using M(4,5,8) V(3) by (auto simp: fun_eq_iff blkof_upd [OF cm c' H(1)])
  moreover have "dirtyof ?bs = dirtyb s" using M(2) V(1) by (subst dirtyof_upd_same) auto
  moreover have "hasb ?bs b' n' \<longleftrightarrow> has s b' n' \<and> b' \<noteq> b" for b' n'
    using M(2) V(2) by (simp add: hasb_upd)
  ultimately show ?thesis by (intro exI [of _ ?t]) (simp add: woken_wakeup)
qed

section \<open>The contract of a block cache\<close>

text \<open>
  What the log and the file system rely on: \<open>blk s\<close> is the store a client sees, \<open>dsk s\<close> what
  the disk has, \<open>dirt s\<close> the blocks that differ, \<open>has s b n\<close> that buffer \<open>b\<close> is held for block
  \<open>n\<close>, and \<open>rest s t\<close> that nothing outside the cache changed.
\<close>

locale block_store =
  fixes ok :: "'s \<Rightarrow> bool" and idle :: "'s \<Rightarrow> bool" and dsize :: "'s \<Rightarrow> uint" and cap :: nat
    and blk :: "'s \<Rightarrow> uint \<Rightarrow> uchar list" and dsk :: "'s \<Rightarrow> uint \<Rightarrow> uchar list"
    and dwr :: "'s \<Rightarrow> (uint \<times> uchar list) list"
    and dirt :: "'s \<Rightarrow> uint set" and has :: "'s \<Rightarrow> nat \<Rightarrow> uint \<Rightarrow> bool" and rest :: "'s \<Rightarrow> 's \<Rightarrow> bool"
    and bread :: "uint \<Rightarrow> ('s, nat) kop" and bwrite :: "nat \<Rightarrow> ('s, unit) kop"
    and brelse :: "nat \<Rightarrow> ('s, unit) kop"
    and data :: "'s \<Rightarrow> nat \<Rightarrow> uchar list" and setd :: "nat \<Rightarrow> uchar list \<Rightarrow> 's \<Rightarrow> 's"
  assumes bread_law: "ok s \<Longrightarrow> idle s \<Longrightarrow> n < dsize s \<Longrightarrow> (\<And>b. \<not> has s b n) \<Longrightarrow>
      n \<in> dirt s \<or> card ({m. \<exists>b. has s b m} \<union> dirt s) < cap \<Longrightarrow>
      \<exists>b t. bread n s = Ok b t \<and> ok t \<and> rest s t \<and> blk t = blk s \<and> dsk t = dsk s \<and> dwr t = dwr s \<and>
        dirt t = dirt s \<and> (\<forall>b' n'. has t b' n' \<longleftrightarrow> has s b' n' \<or> b' = b \<and> n' = n)"
    and data_law: "ok s \<Longrightarrow> has s b n \<Longrightarrow> data s b = blk s n \<and> length (blk s n) = BSIZE"
    and setd_law: "ok s \<Longrightarrow> has s b n \<Longrightarrow> length d = BSIZE \<Longrightarrow>
      ok (setd b d s) \<and> rest s (setd b d s) \<and> blk (setd b d s) = (blk s)(n := d) \<and> dsk (setd b d s) = dsk s \<and>
      dwr (setd b d s) = dwr s \<and> dirt (setd b d s) = dirt s \<and> has (setd b d s) = has s"
    and bwrite_law: "ok s \<Longrightarrow> has s b n \<Longrightarrow>
      \<exists>t. bwrite b s = Ok () t \<and> ok t \<and> rest s t \<and> blk t = blk s \<and> dsk t = (dsk s)(n := blk s n) \<and>
        dwr t = dwr s @ [(n, blk s n)] \<and> dirt t = dirt s - {n} \<and> has t = has s"
    and brelse_law: "ok s \<Longrightarrow> idle s \<Longrightarrow> has s b n \<Longrightarrow> n \<in> dirt s \<or> blk s n = dsk s n \<Longrightarrow>
      \<exists>t. brelse b s = Ok () t \<and> ok t \<and> rest s t \<and> blk t = blk s \<and> dsk t = dsk s \<and> dwr t = dwr s \<and>
        dirt t = dirt s \<and> (\<forall>b' n'. has t b' n' \<longleftrightarrow> has s b' n' \<and> b' \<noteq> b)"
    and agree_law: "ok s \<Longrightarrow> (\<And>b. \<not> has s b n) \<Longrightarrow> n \<notin> dirt s \<Longrightarrow> blk s n = dsk s n"
    and has_fun: "has s b n \<Longrightarrow> has s b m \<Longrightarrow> n = m"
    and rest_refl: "rest s s" and rest_trans: "rest s t \<Longrightarrow> rest t u \<Longrightarrow> rest s u"
    and rest_idle: "rest s t \<Longrightarrow> idle t = idle s" and rest_size: "rest s t \<Longrightarrow> dsize t = dsize s"
begin

text \<open>No buffer is held, and at most \<open>k\<close> blocks are unwritten.\<close>

definition quiesced :: "nat \<Rightarrow> 's \<Rightarrow> bool" where
  "quiesced k s \<longleftrightarrow> ok s \<and> idle s \<and> (\<forall>b n. \<not> has s b n) \<and> card (dirt s) \<le> k \<and> finite (dirt s)"

lemma quiesced_agree: "quiesced k s \<Longrightarrow> n \<notin> dirt s \<Longrightarrow> blk s n = dsk s n"
  by (rule agree_law) (auto simp: quiesced_def)

text \<open>Read a block and release it.\<close>

lemma read_block:
  assumes q: "quiesced k s" and k: "k < cap" and n: "n < dsize s"
    and f: "\<And>b t. ok t \<Longrightarrow> has t b n \<Longrightarrow> data t b = blk s n \<Longrightarrow> f b t = Ok (g (blk s n)) t"
  shows "\<exists>t. kbind (bread n) (\<lambda>b. kbind (f b) (\<lambda>x. kthen (brelse b) (kret x))) s = Ok (g (blk s n)) t \<and>
    quiesced k t \<and> rest s t \<and> blk t = blk s \<and> dsk t = dsk s \<and> dwr t = dwr s \<and> dirt t = dirt s"
proof -
  have s: "ok s" "idle s" "\<And>b m. \<not> has s b m" "card (dirt s) \<le> k" "finite (dirt s)" using q by (auto simp: quiesced_def)
  have e: "{m. \<exists>b. has s b m} = {}" using s(3) by auto
  have "n \<in> dirt s \<or> card ({m. \<exists>b. has s b m} \<union> dirt s) < cap" using s(4) k by (simp add: e)
  from bread_law [OF s(1,2) n s(3) this] obtain b t where t: "bread n s = Ok b t" "ok t" "rest s t" "blk t = blk s"
    "dsk t = dsk s" "dwr t = dwr s" "dirt t = dirt s" "\<And>b' n'. has t b' n' \<longleftrightarrow> b' = b \<and> n' = n" using s(3) by auto
  have d: "data t b = blk s n" using data_law [OF t(2), of b n] t(4,8) by simp
  have i: "idle t" using rest_idle [OF t(3)] s(2) by simp
  have "n \<in> dirt t \<or> blk t n = dsk t n" using agree_law [OF s(1,3)] t(4,5,7) by auto
  with brelse_law [OF t(2) i, of b n] t(8) obtain u where u: "brelse b t = Ok () u" "ok u" "rest t u" "blk u = blk t"
    "dsk u = dsk t" "dwr u = dwr t" "dirt u = dirt t" "\<And>b' n'. \<not> has u b' n'" by auto
  have "f b t = Ok (g (blk s n)) t" using f [OF t(2) _ d] t(8) by simp
  with t u i s rest_trans [OF t(3) u(3)] rest_idle [OF u(3)] show ?thesis
    by (intro exI [of _ u]) (simp add: quiesced_def)
qed

text \<open>Change a block and write it through.\<close>

lemma write_block:
  assumes q: "quiesced k s" and k: "k < cap" and n: "n < dsize s" and l: "length (g (blk s n)) = BSIZE"
    and f: "\<And>b t. ok t \<Longrightarrow> has t b n \<Longrightarrow> rest s t \<Longrightarrow> data t b = blk s n \<Longrightarrow> f b t = Ok () (setd b (g (blk s n)) t)"
  shows "\<exists>t. kbind (bread n) (\<lambda>b. kthen (f b) (kthen (bwrite b) (brelse b))) s = Ok () t \<and>
    quiesced k t \<and> rest s t \<and> blk t = (blk s)(n := g (blk s n)) \<and> dsk t = (dsk s)(n := g (blk s n)) \<and>
    dwr t = dwr s @ [(n, g (blk s n))] \<and> dirt t = dirt s - {n}"
proof -
  have s: "ok s" "idle s" "\<And>b m. \<not> has s b m" "card (dirt s) \<le> k" "finite (dirt s)" using q by (auto simp: quiesced_def)
  have e: "{m. \<exists>b. has s b m} = {}" using s(3) by auto
  have "n \<in> dirt s \<or> card ({m. \<exists>b. has s b m} \<union> dirt s) < cap" using s(4) k by (simp add: e)
  from bread_law [OF s(1,2) n s(3) this] obtain b t where t: "bread n s = Ok b t" "ok t" "rest s t" "blk t = blk s"
    "dsk t = dsk s" "dwr t = dwr s" "dirt t = dirt s" "\<And>b' n'. has t b' n' \<longleftrightarrow> b' = b \<and> n' = n" using s(3) by auto
  have hb: "has t b n" using t(8) by simp
  have d: "data t b = blk s n" using data_law [OF t(2) hb] t(4) by simp
  let ?u = "setd b (g (blk s n)) t"
  have ft: "f b t = Ok () ?u" by (rule f [OF t(2) hb t(3) d])
  from setd_law [OF t(2) hb l] have u: "ok ?u" "rest t ?u" "blk ?u = (blk s)(n := g (blk s n))" "dsk ?u = dsk s"
    "dwr ?u = dwr s" "dirt ?u = dirt s" "has ?u = has t" using t by auto
  from bwrite_law [OF u(1), of b n] hb u(7) obtain v where v: "bwrite b ?u = Ok () v" "ok v" "rest ?u v"
    "blk v = blk ?u" "dsk v = (dsk s)(n := g (blk s n))" "dwr v = dwr s @ [(n, g (blk s n))]"
    "dirt v = dirt s - {n}" "has v = has t" using u by auto
  have rv: "rest s v" by (rule rest_trans [OF t(3) rest_trans [OF u(2) v(3)]])
  have iv: "idle v" using rest_idle [OF rv] s(2) by simp
  from brelse_law [OF v(2) iv, of b n] hb v(4,5,8) u(3) obtain w where w: "brelse b v = Ok () w" "ok w" "rest v w"
    "blk w = blk v" "dsk w = dsk v" "dwr w = dwr v" "dirt w = dirt v" "\<And>b' n'. \<not> has w b' n'" using t(8) by auto
  have "idle w" using rest_idle [OF w(3)] iv by simp
  moreover have "card (dirt w) \<le> k" using w(7) v(7) s(4) card_Diff1_le [of "dirt s" n] by simp
  ultimately show ?thesis using t(1) ft u v w s(5) rest_trans [OF rv w(3)]
    by (intro exI [of _ w]) (simp add: quiesced_def)
qed

text \<open>
  Copy one block to another and write it through: the two halves of a commit. The source of
  the copy of the second lemma is read first, as \<open>install_trans\<close> does.
\<close>

lemma two_blocks:
  assumes q: "quiesced k s" and k: "k < cap" and n: "n1 < dsize s" "n2 < dsize s" "n1 \<noteq> n2"
    and d: "n2 \<in> dirt s \<or> Suc k < cap"
  obtains b1 b2 t u where "bread n1 s = Ok b1 t" "bread n2 t = Ok b2 u" "ok u" "rest s u" "idle u"
    "blk u = blk s" "dsk u = dsk s" "dwr u = dwr s" "dirt u = dirt s"
    "\<And>b' n'. has u b' n' \<longleftrightarrow> b' = b1 \<and> n' = n1 \<or> b' = b2 \<and> n' = n2" "b1 \<noteq> b2"
proof -
  have s: "ok s" "idle s" "\<And>b m. \<not> has s b m" "card (dirt s) \<le> k" "finite (dirt s)" using q by (auto simp: quiesced_def)
  have e: "{m. \<exists>b. has s b m} = {}" using s(3) by auto
  have "n1 \<in> dirt s \<or> card ({m. \<exists>b. has s b m} \<union> dirt s) < cap" using s(4) k by (simp add: e)
  from bread_law [OF s(1,2) n(1) s(3) this] obtain b1 t where t: "bread n1 s = Ok b1 t" "ok t" "rest s t" "blk t = blk s"
    "dsk t = dsk s" "dwr t = dwr s" "dirt t = dirt s" "\<And>b' n'. has t b' n' \<longleftrightarrow> b' = b1 \<and> n' = n1" using s(3) by auto
  have it: "idle t" using rest_idle [OF t(3)] s(2) by simp
  have e1: "{m. \<exists>b. has t b m} = {n1}" using t(8) by auto
  have "n2 \<in> dirt t \<or> card ({m. \<exists>b. has t b m} \<union> dirt t) < cap"
    using d s(4,5) by (auto simp: e1 t(7) card_insert_if)
  moreover have "n2 < dsize t" using n(2) rest_size [OF t(3)] by simp
  ultimately obtain b2 u where u: "bread n2 t = Ok b2 u" "ok u" "rest t u" "blk u = blk t" "dsk u = dsk t"
    "dwr u = dwr t" "dirt u = dirt t" "\<And>b' n'. has u b' n' \<longleftrightarrow> has t b' n' \<or> b' = b2 \<and> n' = n2"
    using bread_law [OF t(2) it, of n2] t(8) n(3) by auto
  have "b1 \<noteq> b2" using has_fun [of u b1 n1 n2] u(8) t(8) n(3) by auto
  moreover have "idle u" using rest_idle [OF u(3)] it by simp
  ultimately show thesis
    using that [OF t(1) u(1,2) rest_trans [OF t(3) u(3)]] t u by (simp add: t(8) u(8))
qed

lemma copy_tail:
  assumes u: "ok u" "idle u" "\<And>b' n'. has u b' n' \<longleftrightarrow> b' = x \<and> n' = nx \<or> b' = y \<and> n' = ny" "x \<noteq> y"
    and d: "ny \<in> dirt u \<or> blk u ny = dsk u ny" "nx \<noteq> ny" "finite (dirt u)" "card (dirt u) \<le> k"
    and e: "data u y = v" "length v = BSIZE" "blk u ny = v"
  obtains w where "kthen (kmod (\<lambda>s. setd x (data s y) s)) (kthen (bwrite x) (kthen (brelse y) (brelse x))) u = Ok () w"
    and "kthen (kmod (\<lambda>s. setd x (data s y) s)) (kthen (bwrite x) (kthen (brelse y) (brelse x))) u = Ok () w \<Longrightarrow>
      quiesced k w \<and> rest u w \<and> blk w = (blk u)(nx := v) \<and> dsk w = (dsk u)(nx := v) \<and>
      dwr w = dwr u @ [(nx, v)] \<and> dirt w = dirt u - {nx}"
proof -
  have hx: "has u x nx" and hy: "has u y ny" using u(3) by auto
  let ?a = "setd x v u"
  from setd_law [OF u(1) hx e(2)] have a: "ok ?a" "rest u ?a" "blk ?a = (blk u)(nx := v)" "dsk ?a = dsk u"
    "dwr ?a = dwr u" "dirt ?a = dirt u" "has ?a = has u" by auto
  from bwrite_law [OF a(1), of x nx] hx a obtain b where b: "bwrite x ?a = Ok () b" "ok b" "rest ?a b"
    "blk b = (blk u)(nx := v)" "dsk b = (dsk u)(nx := v)" "dwr b = dwr u @ [(nx, v)]" "dirt b = dirt u - {nx}" "has b = has u"
    by auto
  have rb: "rest u b" by (rule rest_trans [OF a(2) b(3)])
  have ib: "idle b" using rest_idle [OF rb] u(2) by simp
  have "has b y ny" "ny \<in> dirt b \<or> blk b ny = dsk b ny" using hy b(4,5,7,8) d(1,2) by auto
  from brelse_law [OF b(2) ib this] obtain c where c: "brelse y b = Ok () c" "ok c" "rest b c"
    "blk c = blk b" "dsk c = dsk b" "dwr c = dwr b" "dirt c = dirt b"
    and hc: "\<forall>b' n'. has c b' n' \<longleftrightarrow> has b b' n' \<and> b' \<noteq> y" by blast
  have c8: "has c b' n' \<longleftrightarrow> b' = x \<and> n' = nx" for b' n' using hc b(8) u(3,4) by auto
  have rc: "rest u c" by (rule rest_trans [OF rb c(3)])
  have ic: "idle c" using rest_idle [OF rc] u(2) by simp
  from brelse_law [OF c(2) ic, of x nx] c(4,5) c8 b(4,5) obtain w where w: "brelse x c = Ok () w" "ok w" "rest c w"
    "blk w = blk c" "dsk w = dsk c" "dwr w = dwr c" "dirt w = dirt c" "\<And>b' n'. \<not> has w b' n'" by auto
  have "idle w" using rest_idle [OF w(3)] ic by simp
  moreover have "card (dirt w) \<le> k" using w(7) c(7) b(7) d(4) card_Diff1_le [of "dirt u" nx] by simp
  moreover have "rest u w" by (rule rest_trans [OF rc w(3)])
  ultimately show thesis using that [of w] e(1) a b c w d(3) by (simp add: quiesced_def)
qed

lemma copy_to_first:
  assumes q: "quiesced k s" and k: "k < cap" and n: "n1 < dsize s" "n2 < dsize s" "n1 \<noteq> n2"
    and d: "n2 \<in> dirt s \<or> Suc k < cap"
  shows "\<exists>t. kbind (bread n1) (\<lambda>x. kbind (bread n2) (\<lambda>y. kthen (kmod (\<lambda>s. setd x (data s y) s))
      (kthen (bwrite x) (kthen (brelse y) (brelse x))))) s = Ok () t \<and>
    quiesced k t \<and> rest s t \<and> blk t = (blk s)(n1 := blk s n2) \<and> dsk t = (dsk s)(n1 := blk s n2) \<and>
    dwr t = dwr s @ [(n1, blk s n2)] \<and> dirt t = dirt s - {n1}"
proof -
  obtain b1 b2 t u where b: "bread n1 s = Ok b1 t" "bread n2 t = Ok b2 u" and u: "ok u" "rest s u" "idle u"
    "blk u = blk s" "dsk u = dsk s" "dwr u = dwr s" "dirt u = dirt s"
    "\<And>b' n'. has u b' n' \<longleftrightarrow> b' = b1 \<and> n' = n1 \<or> b' = b2 \<and> n' = n2" "b1 \<noteq> b2"
    by (rule two_blocks [OF q k n d], rule that; assumption)
  have v: "data u b2 = blk s n2" "length (blk s n2) = BSIZE" using data_law [OF u(1), of b2 n2] u(4,8) by auto
  have c: "n2 \<in> dirt u \<or> blk u n2 = dsk u n2" "finite (dirt u)" "card (dirt u) \<le> k"
    using quiesced_agree [OF q] q u(4,5,7) by (auto simp: quiesced_def)
  have bu: "blk u n2 = blk s n2" using u(4) by simp
  show ?thesis
    by (rule copy_tail [OF u(1,3,8,9) c(1) n(3) c(2,3) v bu])
       (use b u rest_trans [OF u(2)] in \<open>auto simp: kbind_simps(1)\<close>)
qed

lemma copy_to_second:
  assumes q: "quiesced k s" and k: "k < cap" and n: "n1 < dsize s" "n2 < dsize s" "n1 \<noteq> n2"
    and d: "n2 \<in> dirt s \<or> Suc k < cap"
  shows "\<exists>t. kbind (bread n1) (\<lambda>y. kbind (bread n2) (\<lambda>x. kthen (kmod (\<lambda>s. setd x (data s y) s))
      (kthen (bwrite x) (kthen (brelse y) (brelse x))))) s = Ok () t \<and>
    quiesced k t \<and> rest s t \<and> blk t = (blk s)(n2 := blk s n1) \<and> dsk t = (dsk s)(n2 := blk s n1) \<and>
    dwr t = dwr s @ [(n2, blk s n1)] \<and> dirt t = dirt s - {n2}"
proof -
  obtain b1 b2 t u where b: "bread n1 s = Ok b1 t" "bread n2 t = Ok b2 u" and u: "ok u" "rest s u" "idle u"
    "blk u = blk s" "dsk u = dsk s" "dwr u = dwr s" "dirt u = dirt s"
    "\<And>b' n'. has u b' n' \<longleftrightarrow> b' = b1 \<and> n' = n1 \<or> b' = b2 \<and> n' = n2" "b1 \<noteq> b2"
    by (rule two_blocks [OF q k n d], rule that; assumption)
  have v: "data u b1 = blk s n1" "length (blk s n1) = BSIZE" using data_law [OF u(1), of b1 n1] u(4,8) by auto
  have c: "n1 \<in> dirt u \<or> blk u n1 = dsk u n1" "finite (dirt u)" "card (dirt u) \<le> k"
    using quiesced_agree [OF q] q u(4,5,7) by (auto simp: quiesced_def)
  have h: "has u b' n' \<longleftrightarrow> b' = b2 \<and> n' = n2 \<or> b' = b1 \<and> n' = n1" for b' n' using u(8) by auto
  have bu: "blk u n1 = blk s n1" using u(4) by simp
  show ?thesis
    by (rule copy_tail [OF u(1,3) h u(9) [symmetric] c(1) n(3) [symmetric] c(2,3) v bu])
       (use b u rest_trans [OF u(2)] in \<open>auto simp: kbind_simps(1)\<close>)
qed

end

text \<open>Nothing changed but the cache, the disk, and processes that were woken.\<close>

definition brest :: "'x bst_scheme \<Rightarrow> 'x bst_scheme \<Rightarrow> bool" where
  "brest s t \<longleftrightarrow> t = s\<lparr>bufs := bufs t, disk := disk t, dwrites := dwrites t, procs := procs t\<rparr> \<and>
     woken (procs s) (procs t)"

abbreviation bidle :: "'x bst_scheme \<Rightarrow> bool" where
  "bidle s \<equiv> LK_bcache \<notin> set (held s) \<and> LK_ptable \<notin> set (held s)"

lemma brestD:
  assumes "brest s t"
  shows "held t = held s" "disksize t = disksize s" "cur t = cur s" "bst.more t = bst.more s"
    "woken (procs s) (procs t)" "mem t = mem s" "cr3 t = cr3 s" "initproc t = initproc s" "ticks t = ticks s"
proof -
  show "woken (procs s) (procs t)" using assms by (simp add: brest_def)
  from assms have e: "t = s\<lparr>bufs := bufs t, disk := disk t, dwrites := dwrites t, procs := procs t\<rparr>"
    by (simp add: brest_def)
  show "held t = held s" "disksize t = disksize s" "cur t = cur s" "bst.more t = bst.more s"
    "mem t = mem s" "cr3 t = cr3 s" "initproc t = initproc s" "ticks t = ticks s"
    by (subst e; simp)+
qed

lemma brest_trans: "brest s t \<Longrightarrow> brest t u \<Longrightarrow> brest s u"
proof -
  assume a: "brest s t" "brest t u"
  have "u = t\<lparr>bufs := bufs u, disk := disk u, dwrites := dwrites u, procs := procs u\<rparr>"
    and "t = s\<lparr>bufs := bufs t, disk := disk t, dwrites := dwrites t, procs := procs t\<rparr>"
    using a by (simp_all add: brest_def)
  then have "u = s\<lparr>bufs := bufs u, disk := disk u, dwrites := dwrites u, procs := procs u\<rparr>"
    by (cases s; cases t; cases u) simp
  with a show ?thesis by (auto simp: brest_def intro: woken_trans)
qed

interpretation bio: block_store "bc_ok :: 'x bst_scheme \<Rightarrow> bool" bidle disksize NBUF blk disk dwrites dirtyb has
  brest "bread 1" bwrite brelse bdat set_bdat
proof
  fix s t u :: "'x bst_scheme" and n m :: uint and b :: nat and d :: "uchar list"
  show "\<exists>b t. bread 1 n s = Ok b t \<and> bc_ok t \<and> brest s t \<and> blk t = blk s \<and> disk t = disk s \<and> dwrites t = dwrites s \<and>
      dirtyb t = dirtyb s \<and> (\<forall>b' n'. has t b' n' \<longleftrightarrow> has s b' n' \<or> b' = b \<and> n' = n)"
    if "bc_ok s" "bidle s" "n < disksize s" "\<And>b. \<not> has s b n" "n \<in> dirtyb s \<or> card (busyb s \<union> dirtyb s) < NBUF"
  proof -
    from bread_ok [OF that(1,3) _ that(5)] that(2,4) obtain b t where t: "bread 1 n s = Ok b t" "got s n b t" by blast
    then have e: "t = s\<lparr>bufs := bufs t\<rparr>" by (simp add: got_def)
    have "disk t = disk s" "dwrites t = dwrites s" "procs t = procs s" by (subst e; simp)+
    moreover from this have "brest s t" using e unfolding brest_def by (cases s; cases t) simp
    ultimately show ?thesis using t by (auto simp: got_def)
  qed
  show "bdat s b = blk s n \<and> length (blk s n) = BSIZE" if "bc_ok s" "has s b n"
    using hasD [OF that(2,1)] by (simp add: bdat_def)
  show "bc_ok (set_bdat b d s) \<and> brest s (set_bdat b d s) \<and> blk (set_bdat b d s) = (blk s)(n := d) \<and>
      disk (set_bdat b d s) = disk s \<and> dwrites (set_bdat b d s) = dwrites s \<and>
      dirtyb (set_bdat b d s) = dirtyb s \<and> has (set_bdat b d s) = has s"
    if "bc_ok s" "has s b n" "length d = BSIZE"
    using set_bdat_ok [OF that(2,1,3)] by (simp add: brest_def set_bdat_def)
  show "\<exists>t. bwrite b s = Ok () t \<and> bc_ok t \<and> brest s t \<and> blk t = blk s \<and> disk t = (disk s)(n := blk s n) \<and>
      dwrites t = dwrites s @ [(n, blk s n)] \<and> dirtyb t = dirtyb s - {n} \<and> has t = has s" if "bc_ok s" "has s b n"
  proof -
    from bwrite_ok [OF that(2,1)] obtain t where t: "bwrite b s = Ok () t"
      and e: "t = s\<lparr>bufs := bufs t, disk := (disk s)(n := blk s n), dwrites := dwrites s @ [(n, blk s n)]\<rparr>"
      and r: "bc_ok t" "blk t = blk s" "dirtyb t = dirtyb s - {n}" "has t = has s" by blast
    have f: "disk t = (disk s)(n := blk s n)" "dwrites t = dwrites s @ [(n, blk s n)]" "procs t = procs s"
      by (subst e; simp)+
    moreover have "brest s t" using e f unfolding brest_def by (cases s; cases t) simp
    ultimately show ?thesis using t r by blast
  qed
  show "\<exists>t. brelse b s = Ok () t \<and> bc_ok t \<and> brest s t \<and> blk t = blk s \<and> disk t = disk s \<and> dwrites t = dwrites s \<and>
      dirtyb t = dirtyb s \<and> (\<forall>b' n'. has t b' n' \<longleftrightarrow> has s b' n' \<and> b' \<noteq> b)"
    if "bc_ok s" "bidle s" "has s b n" "n \<in> dirtyb s \<or> blk s n = disk s n"
  proof -
    from brelse_ok [OF that(3,1,4)] that(2) obtain t where t: "brelse b s = Ok () t"
      and e: "t = s\<lparr>bufs := bufs t, procs := procs t\<rparr>" and w: "woken (procs s) (procs t)"
      and r: "bc_ok t" "blk t = blk s" "dirtyb t = dirtyb s" "\<forall>b' n'. has t b' n' \<longleftrightarrow> has s b' n' \<and> b' \<noteq> b" by blast
    have f: "disk t = disk s" "dwrites t = dwrites s" by (subst e; simp)+
    moreover have "brest s t" using e f w unfolding brest_def by (cases s; cases t) simp
    ultimately show ?thesis using t r by blast
  qed
  show "blk s n = disk s n" if c: "bc_ok s" and "\<And>b. \<not> has s b n" "n \<notin> dirtyb s"
  proof (cases "\<exists>i<NBUF. bdev (bufs s ! i) = 1 \<and> blockno (bufs s ! i) = n")
    case True
    then obtain i where i: "i < NBUF" "bdev (bufs s ! i) = 1" "blockno (bufs s ! i) = n" by auto
    then have "\<not> busy (bufs s ! i)" "\<not> dirty (bufs s ! i)" using that(2,3) by (auto simp: hasb_def dirtyof_def)
    then show ?thesis using bcD(8) [OF c i(1,2)] blkof_cached [OF c i(1,2)] i(3) by simp
  next
    case False
    then show ?thesis by (intro blkof_uncached [OF bcD(3) [OF c]]) blast
  qed
  show "n = m" if "has s b n" "has s b m" using that by (simp add: hasb_def)
  show "brest s s" by (simp add: brest_def)
  show "brest s u" if "brest s t" "brest t u" using brest_trans that .
  show "bidle t = bidle s" "disksize t = disksize s" if "brest s t" using brestD [OF that] by simp_all
qed

text \<open>No buffer is in use.\<close>

definition settled :: "'x bst_scheme \<Rightarrow> bool" where
  "settled s \<longleftrightarrow> bc_ok s \<and> bidle s \<and> busyb s = {}"

lemma finite_dirtyof [simp]: "finite (dirtyof bs)"
proof (rule finite_subset)
  show "dirtyof bs \<subseteq> (\<lambda>i. blockno (bs ! i)) ` {..<NBUF}" by (auto simp: dirtyof_def)
qed simp

lemma quiesced_settled: "bio.quiesced k s \<longleftrightarrow> settled s \<and> card (dirtyb s) \<le> k"
  by (auto simp: bio.quiesced_def settled_def)

section \<open>Initialisation\<close>

lemma binit_step_dpath:
  assumes l: "length bs = Suc NBUF" and b: "b < NBUF" "b \<notin> set xs" "NBUF \<notin> set xs" "set xs \<subseteq> {..<NBUF}" "distinct xs"
    and d: "dpath bs NBUF xs NBUF"
  shows "dpath (binit_step bs b) NBUF (b # xs) NBUF"
proof -
  define f where "f = bnext (bs ! NBUF)"
  have f: "f = hd (xs @ [NBUF])" using d by (cases xs) (auto simp: f_def)
  have fr: "f \<le> NBUF" "f \<noteq> b" using f b by (cases xs; auto)+
  let ?b1 = "bs[b := (bs ! b)\<lparr>bnext := f\<rparr>]"
  let ?b2 = "?b1[b := (?b1 ! b)\<lparr>bprev := NBUF\<rparr>]"
  let ?b3 = "?b2[b := (?b2 ! b)\<lparr>bdev := - 1\<rparr>]"
  let ?b4 = "?b3[f := (?b3 ! f)\<lparr>bprev := b\<rparr>]"
  define B where "B = ?b4[NBUF := (?b4 ! NBUF)\<lparr>bnext := b\<rparr>]"
  have lens: "b < length bs" "NBUF < length bs" "f < length bs" using l b(1) fr by auto
  have dv: "bnext (cs[b := (cs ! b)\<lparr>bdev := - 1\<rparr>] ! j) = bnext (cs ! j)"
    "bprev (cs[b := (cs ! b)\<lparr>bdev := - 1\<rparr>] ! j) = bprev (cs ! j)" if "b < length cs" for cs j
    using that by (auto simp: nth_list_update)
  note U = links_upd dv length_list_update lens
  have "bnext (?b3 ! NBUF) = f" using b(1) by (simp add: U f_def)
  then have e: "binit_step bs b = B" by (simp add: binit_step_def Let_def f_def B_def)
  have n: "bnext (B ! i) = (if i = NBUF then b else if i = b then f else bnext (bs ! i))" for i
    unfolding B_def by (simp only: U)
  have p: "bprev (B ! i) = (if i = f then b else if i = b then NBUF else bprev (bs ! i))" for i
    unfolding B_def by (simp only: U)
  show ?thesis
  proof (cases xs)
    case Nil
    then show ?thesis using f fr b(1) by (simp add: e n p)
  next
    case (Cons x ys)
    then have fx: "f = x" using f by simp
    have "dpath B x ys NBUF = dpath bs x ys NBUF"
      using b Cons fx by (intro dpath_cong) (auto simp: n p)
    then show ?thesis using d Cons fx b fr by (simp add: e n p)
  qed
qed

definition zero_buf :: "buf \<Rightarrow> bool" where
  "zero_buf x \<longleftrightarrow> \<not> busy x \<and> \<not> valid x \<and> \<not> dirty x \<and> length (bdata x) = BSIZE"

lemma binit_step_bufs:
  assumes "length bs = Suc NBUF" "b < NBUF" "bnext (bs ! NBUF) \<le> NBUF"
  shows "length (binit_step bs b) = Suc NBUF"
    and "(\<forall>x\<in>set bs. zero_buf x) \<Longrightarrow> \<forall>x\<in>set (binit_step bs b). zero_buf x"
    and "bdev (binit_step bs b ! i) = (if i = b then - 1 else bdev (bs ! i))"
proof -
  show "length (binit_step bs b) = Suc NBUF" using assms(1) by (simp add: binit_step_def Let_def)
  have z: "zero_buf (cs[k := (cs ! k)\<lparr>bnext := j\<rparr>] ! i) = zero_buf (cs ! i)"
    "zero_buf (cs[k := (cs ! k)\<lparr>bprev := j\<rparr>] ! i) = zero_buf (cs ! i)"
    "zero_buf (cs[k := (cs ! k)\<lparr>bdev := d\<rparr>] ! i) = zero_buf (cs ! i)" for cs k j i d
    by (cases "k < length cs"; cases "i = k"; simp add: not_less list_update_beyond zero_buf_def)+
  show "\<forall>x\<in>set (binit_step bs b). zero_buf x" if "\<forall>x\<in>set bs. zero_buf x"
    using that unfolding all_set_conv_all_nth binit_step_def Let_def length_list_update z .
  have dl: "bdev (cs[k := (cs ! k)\<lparr>bnext := j\<rparr>] ! i) = bdev (cs ! i)"
    "bdev (cs[k := (cs ! k)\<lparr>bprev := j\<rparr>] ! i) = bdev (cs ! i)" for cs k j i
    by (cases "k < length cs"; cases "i = k"; simp add: not_less list_update_beyond)+
  show "bdev (binit_step bs b ! i) = (if i = b then - 1 else bdev (bs ! i))"
    unfolding binit_step_def Let_def dl using assms by (cases "i = b") (simp_all add: dl)
qed

lemma binit_runs:
  assumes "length (bufs s) = Suc NBUF" "\<forall>x\<in>set (bufs s). zero_buf x"
  shows "\<exists>bs. binit (s :: 'a bst_scheme) = Ok () (s\<lparr>bufs := bs\<rparr>) \<and> ring bs (rev [0..<NBUF]) \<and> (\<forall>x\<in>set bs. zero_buf x) \<and>
    (\<forall>i<NBUF. bdev (bs ! i) = - 1)"
proof -
  define st :: "nat \<Rightarrow> ('a bst_scheme, unit) kop"
    where "st = (\<lambda>b. kmod (\<lambda>s. s\<lparr>bufs := binit_step (bufs s) b\<rparr>))"
  have sa: "st b u = Ok () (u\<lparr>bufs := binit_step (bufs u) b\<rparr>)" for b u by (simp add: st_def)
  define b0 where "b0 = (bufs s)[NBUF := (bufs s ! NBUF)\<lparr>bprev := NBUF, bnext := NBUF\<rparr>]"
  have *: "\<exists>bs. kfor [0..<k] st (s\<lparr>bufs := b0\<rparr>) = Ok () (s\<lparr>bufs := bs\<rparr>) \<and>
      length bs = Suc NBUF \<and> dpath bs NBUF (rev [0..<k]) NBUF \<and> (\<forall>x\<in>set bs. zero_buf x) \<and>
      (\<forall>i<k. bdev (bs ! i) = - 1)" if "k \<le> NBUF" for k
    using that
  proof (induction k)
    case 0
    have "\<forall>x\<in>set b0. zero_buf x" using assms
      by (auto simp: b0_def zero_buf_def dest!: set_update_subset_insert [THEN subsetD])
    then show ?case using assms by (intro exI [of _ b0]) (simp add: b0_def)
  next
    case (Suc k)
    from Suc.IH [OF Suc_leD [OF Suc.prems]] obtain bs where bs: "kfor [0..<k] st (s\<lparr>bufs := b0\<rparr>) = Ok () (s\<lparr>bufs := bs\<rparr>)"
      "length bs = Suc NBUF" "dpath bs NBUF (rev [0..<k]) NBUF" "\<forall>x\<in>set bs. zero_buf x" "\<forall>i<k. bdev (bs ! i) = - 1" by blast
    have h: "bnext (bs ! NBUF) \<le> NBUF" using bs(3) Suc.prems by (cases k) auto
    note B = binit_step_bufs [OF bs(2) _ h]
    have "dpath (binit_step bs k) NBUF (k # rev [0..<k]) NBUF"
      using Suc.prems by (intro binit_step_dpath bs) auto
    moreover have "kfor [0..<Suc k] st (s\<lparr>bufs := b0\<rparr>) = st k (s\<lparr>bufs := bs\<rparr>)"
      using kthen_simps(1) [where m = "kfor [0..<k] st" and n = "st k", OF bs(1)] by (simp add: kfor_append)
    then have "kfor [0..<Suc k] st (s\<lparr>bufs := b0\<rparr>) = Ok () (s\<lparr>bufs := binit_step bs k\<rparr>)" unfolding sa by simp
    ultimately show ?case using bs(2-5) Suc.prems B [of k]
      by (intro exI [of _ "binit_step bs k"]) (auto simp: less_Suc_eq)
  qed
  from * [OF order_refl] obtain bs where bs: "kfor [0..<NBUF] st (s\<lparr>bufs := b0\<rparr>) = Ok () (s\<lparr>bufs := bs\<rparr>)"
    "length bs = Suc NBUF" "dpath bs NBUF (rev [0..<NBUF]) NBUF" "\<forall>x\<in>set bs. zero_buf x" "\<forall>i<NBUF. bdev (bs ! i) = - 1" by blast
  have "binit s = Ok () (s\<lparr>bufs := bs\<rparr>)"
    using bs(1) assms(1) by (simp add: binit_def b0_def st_def)
  moreover have "ring bs (rev [0..<NBUF])" using bs by (auto simp: ring_def)
  ultimately show ?thesis using bs by blast
qed

lemma fresh_bc:
  assumes "ring bs xs" "\<forall>x\<in>set bs. zero_buf x" "\<forall>i<NBUF. bdev (bs ! i) = - 1" "\<forall>n. n < dz \<longrightarrow> length (d n) = BSIZE"
  shows "bc bs d dz" "dirtyof bs = {}" "\<not> hasb bs b n" "blkof bs d = d"
proof -
  have l: "length bs = Suc NBUF" using assms(1) by (simp add: ring_def)
  then have z: "zero_buf (bs ! i)" if "i < NBUF" for i using assms(2) that by auto
  have e: "(- 1 :: uint) \<noteq> 1" by simp
  show "bc bs d dz" unfolding bc_def using assms(1,3,4) z e by (auto simp: zero_buf_def)
  show "dirtyof bs = {}" "\<not> hasb bs b n" using assms(3) e by (auto simp: dirtyof_def hasb_def)
  show "blkof bs d = d" using assms(3) by (intro ext blkof_uncached l) auto
qed

section \<open>Properties\<close>

definition wit_buf :: buf where
  "wit_buf = \<lparr>busy = False, valid = False, dirty = False, bdev = 0, blockno = 0, bprev = 0, bnext = 0,
     bdata = replicate 512 0\<rparr>"

definition wit_bst :: "buf list \<Rightarrow> bst" where
  "wit_bst bs = \<lparr>held = [], locking = True, panicked = False, uart = True, uart_out = [],
     crt = \<lambda>_. 0, cpos = 0, mem = \<lambda>_. 0, kend = 0x80100000, use_lock = True, freelist = 0,
     kdata = 0, kpgdir = 0, cr3 = 0, esp0 = 0, procs = replicate 64 proc_zero,
     nextpid = 2, initproc = Some 0, cur = None, ticks = 0,
     disk = \<lambda>n. replicate 512 (ucast n), disksize = 2000, dwrites = [], bufs = bs\<rparr>"

lemma wit_bst_init:
  obtains bs where "binit (wit_bst (replicate 31 wit_buf)) = Ok () (wit_bst bs)"
    "bc_ok (wit_bst bs)" "dirtyb (wit_bst bs) = {}" "\<And>b n. \<not> has (wit_bst bs) b n" "blk (wit_bst bs) = disk (wit_bst bs)"
proof -
  let ?s = "wit_bst (replicate 31 wit_buf)"
  have "length (bufs ?s) = Suc NBUF" "\<forall>x\<in>set (bufs ?s). zero_buf x"
    by (simp_all add: wit_bst_def wit_buf_def NBUF_def zero_buf_def BSIZE_def)
  from binit_runs [OF this] obtain bs where bs: "binit ?s = Ok () (?s\<lparr>bufs := bs\<rparr>)" "ring bs (rev [0..<NBUF])"
    "\<forall>x\<in>set bs. zero_buf x" "\<forall>i<NBUF. bdev (bs ! i) = - 1" by blast
  have u: "?s\<lparr>bufs := bs\<rparr> = wit_bst bs" by (simp add: wit_bst_def)
  show thesis
  proof (rule that [of bs])
    show "binit ?s = Ok () (wit_bst bs)" using bs(1) u by simp
  qed (use fresh_bc [OF bs(2-4), of 2000 "\<lambda>n. replicate 512 (ucast n)"] in \<open>simp_all add: wit_bst_def BSIZE_def\<close>)
qed

text \<open>
  C29. \<open>binit\<close> on the zeroed cache returns with a well-formed cache: the \<open>next\<close> and \<open>prev\<close>
  fields thread all \<open>NBUF\<close> buffers in one ring through the head, no buffer is busy or dirty,
  and a reader sees the disk.
\<close>

theorem binit_establishes:
  assumes "length (bufs s) = Suc NBUF" "\<forall>x\<in>set (bufs s). zero_buf x"
    and "\<forall>n. n < disksize s \<longrightarrow> length (disk s n) = BSIZE"
  shows "\<exists>t. binit s = Ok () t \<and> bc_ok t \<and> ring (bufs t) (rev [0..<NBUF]) \<and> dirtyb t = {} \<and> busyb t = {} \<and>
    blk t = disk s"
proof -
  from binit_runs [OF assms(1,2)] obtain bs where bs: "binit s = Ok () (s\<lparr>bufs := bs\<rparr>)" "ring bs (rev [0..<NBUF])"
    "\<forall>x\<in>set bs. zero_buf x" "\<forall>i<NBUF. bdev (bs ! i) = - 1" by blast
  from fresh_bc [OF bs(2-4) assms(3)] bs show ?thesis by (intro exI [of _ "s\<lparr>bufs := bs\<rparr>"]) auto
qed

theorem binit_establishes_witness:
  "\<exists>t. binit (wit_bst (replicate 31 wit_buf)) = Ok () t \<and> bc_ok t \<and> dirtyb t = {}"
  using binit_establishes [of "wit_bst (replicate 31 wit_buf)"]
  by (auto simp: wit_bst_def wit_buf_def NBUF_def zero_buf_def BSIZE_def)

text \<open>
  C9. Reading a block through the cache: while fewer than \<open>NBUF\<close> blocks are in use or
  unwritten, \<open>bread\<close> of a block nobody holds returns a busy buffer with the block's current
  content, whether or not it was cached, and no block's content changes; \<open>brelse\<close> gives the
  buffer up again and leaves every content and every unwritten block as it was.
\<close>

theorem bread_brelse_coherent:
  assumes "bc_ok s" "bidle s" "n < disksize s" "n \<notin> busyb s" "card (busyb s \<union> dirtyb s) < NBUF"
  shows "\<exists>b t u. bread 1 n s = Ok b t \<and> has t b n \<and> bdata (bufs t ! b) = blk s n \<and> blk t = blk s \<and>
    disk t = disk s \<and> busyb t = insert n (busyb s) \<and> brelse b t = Ok () u \<and> bc_ok u \<and> blk u = blk s \<and>
    disk u = disk s \<and> busyb u = busyb s \<and> dirtyb u = dirtyb s"
proof -
  from bio.bread_law [OF assms(1-3)] assms(4,5) obtain b t where t: "bread 1 n s = Ok b t" "bc_ok t" "brest s t"
    "blk t = blk s" "disk t = disk s" "dirtyb t = dirtyb s" and h: "\<And>b' n'. has t b' n' \<longleftrightarrow> has s b' n' \<or> b' = b \<and> n' = n"
    by blast
  have hb: "has t b n" using h by simp
  have bs: "\<not> has s b m" for m
    using bio.has_fun [of t b n m] h assms(4) hb by auto
  have "n \<in> dirtyb t \<or> blk t n = disk t n" using bio.agree_law [OF assms(1), of n] assms(4) t(4-6) by auto
  with bio.brelse_law [OF t(2) _ hb] bio.rest_idle [OF t(3)] assms(2) obtain u where u: "brelse b t = Ok () u" "bc_ok u"
    "blk u = blk t" "disk u = disk t" "dirtyb u = dirtyb t" and h': "\<And>b' n'. has u b' n' \<longleftrightarrow> has t b' n' \<and> b' \<noteq> b" by blast
  have "busyb u = busyb s" using h h' bs by auto
  moreover have "busyb t = insert n (busyb s)" using h by auto
  ultimately show ?thesis using t u hb hasD(8) [OF hb t(2)] by auto
qed

theorem bread_brelse_coherent_witness:
  "\<exists>s b t u. binit (wit_bst (replicate 31 wit_buf)) = Ok () s \<and> bread 1 7 s = Ok b t \<and>
     bdata (bufs t ! b) = replicate 512 7 \<and> brelse b t = Ok () u"
proof -
  obtain bs where bs: "binit (wit_bst (replicate 31 wit_buf)) = Ok () (wit_bst bs)" "bc_ok (wit_bst bs)"
    "dirtyb (wit_bst bs) = {}" "\<And>b n. \<not> has (wit_bst bs) b n" "blk (wit_bst bs) = disk (wit_bst bs)"
    by (rule wit_bst_init) blast
  have "blk (wit_bst bs) 7 = replicate 512 7" by (subst bs(5)) (simp add: wit_bst_def)
  moreover have "busyb (wit_bst bs) = {}" using bs(4) by simp
  moreover have "bidle (wit_bst bs)" "(7 :: uint) < disksize (wit_bst bs)" by (simp_all add: wit_bst_def)
  ultimately show ?thesis
    using bs(1) bread_brelse_coherent [OF bs(2), of 7] bs(3) by (simp add: NBUF_def) metis
qed

text \<open>
  C30. The cache never steals a buffer: if the block is not cached and every buffer is in use or
  holds changes that are not on disk yet, \<open>bread\<close> panics.
\<close>

theorem bread_panics_when_full:
  assumes "bc_ok s" "bidle s" "\<forall>i<NBUF. busy (bufs s ! i) \<or> dirty (bufs s ! i)"
    and "\<forall>i<NBUF. blockno (bufs s ! i) \<noteq> n"
  shows "bread 1 n s = Panic ''bget: no buffers''"
proof -
  from bcD(1) [OF assms(1)] obtain xs where r: "ring (bufs s) xs" by auto
  then have dp: "dpath (bufs s) NBUF xs NBUF" "NBUF \<notin> set xs" "set xs = {..<NBUF}" "length xs \<le> NBUF"
    using distinct_card [of xs] by (auto simp: ring_def)
  let ?P = "\<lambda>b. bdev (bufs s ! b) = 1 \<and> blockno (bufs s ! b) = n"
  let ?R = "\<lambda>b. \<not> busy (bufs s ! b) \<and> \<not> dirty (bufs s ! b)"
  have "find ?P xs = None" "find ?R (rev xs) = None" using assms(3,4) dp(3) by (auto simp: find_None_iff)
  with scan_next [OF dp(1,2,4), of ?P] scan_prev [OF dp(1,2,4), of ?R] assms(2) show ?thesis
    by (simp add: bread_def bget_def bget_loop_def del: scan.simps)
qed

text \<open>Buffers threaded in the order of their indices.\<close>

definition wit_bufs :: "(nat \<Rightarrow> buf) \<Rightarrow> buf list" where
  "wit_bufs f = map (\<lambda>i. (f i)\<lparr>bprev := (if i = 0 then 30 else i - 1), bnext := (if i = 30 then 0 else Suc i)\<rparr>) [0..<31]"

lemma wit_bufs_nth [simp]:
  "i < 31 \<Longrightarrow> wit_bufs f ! i = (f i)\<lparr>bprev := (if i = 0 then 30 else i - 1), bnext := (if i = 30 then 0 else Suc i)\<rparr>"
  "length (wit_bufs f) = 31"
  by (simp_all add: wit_bufs_def del: upt_Suc)

lemma wit_bufs_ring: "ring (wit_bufs f) [0..<30]"
proof -
  have "dpath (wit_bufs f) k [Suc k..<30] 30" if "k < 30" for k
    using that
  proof (induction "30 - k" arbitrary: k)
    case (Suc m)
    show ?case
    proof (cases "Suc k = 30")
      case True
      then show ?thesis by (auto simp: upt_rec)
    next
      case False
      then have "[Suc k..<30] = Suc k # [Suc (Suc k)..<30]" using Suc.prems by (simp add: upt_rec)
      then show ?thesis using Suc.hyps(1) [of "Suc k"] Suc.hyps(2) Suc.prems False by simp
    qed
  qed simp
  from this [of 0] have "dpath (wit_bufs f) 30 [0..<30] 30" by (simp add: upt_conv_Cons)
  then show ?thesis by (auto simp: ring_def NBUF_def)
qed

lemma wit_bufs_ring_ex [simp]: "\<exists>xs. ring (wit_bufs f) xs" "Ex (ring (wit_bufs f))"
  using wit_bufs_ring by auto

definition wit_full :: bst where
  "wit_full = wit_bst (wit_bufs (\<lambda>i. wit_buf\<lparr>valid := True, dirty := i < 30, bdev := 1, blockno := of_nat i\<rparr>))"

theorem bread_panics_when_full_witness:
  "bread 1 40 wit_full = Panic ''bget: no buffers''"
proof (rule bread_panics_when_full)
  let ?bs = "wit_bufs (\<lambda>i. wit_buf\<lparr>valid := True, dirty := i < 30, bdev := 1, blockno := of_nat i\<rparr>)"
  have "of_nat i = (of_nat j :: uint) \<longleftrightarrow> i = j" if "i < 30" "j < 30" for i j
    using that of_nat_uint_eq_iff [of i j] by simp
  moreover have "of_nat i < (2000 :: uint)" if "i < 30" for i
    using that by (simp add: word_less_nat_alt unat_of_nat_uint)
  ultimately show "bc_ok wit_full"
    unfolding bc_def NBUF_def by (auto simp: wit_full_def wit_bst_def wit_buf_def BSIZE_def)
  show "bidle wit_full" by (simp add: wit_full_def wit_bst_def)
  show "\<forall>i<NBUF. busy (bufs wit_full ! i) \<or> dirty (bufs wit_full ! i)" by (simp add: NBUF_def wit_full_def wit_bst_def)
  show "\<forall>i<NBUF. blockno (bufs wit_full ! i) \<noteq> 40"
  proof (intro allI impI)
    fix i assume "i < NBUF"
    then have "of_nat i \<noteq> (of_nat 40 :: uint)" using of_nat_uint_eq_iff [of i 40] by (simp add: NBUF_def)
    then show "blockno (bufs wit_full ! i) \<noteq> 40" using \<open>i < NBUF\<close> by (simp add: NBUF_def wit_full_def wit_bst_def)
  qed
qed

end
