(* ===== verification/Ide.thy ===== *)
theory Ide
  imports Bio
begin

text \<open>
  The interrupt-driven disk driver (\<open>ide.c\<close>), which the ordinary kernel links in place of
  \<open>memide.c\<close>. The controller is what the ports show of it: the task-file registers, the status
  port as a sequence of values, one per read, the sector buffer that a read command fills, and
  the two drives. Drive 1 is the \<open>disk\<close> of the buffer cache's model.
\<close>

section \<open>The controller\<close>

definition FSSIZE :: uint where "FSSIZE = 2000"
definition SECTOR_SIZE :: nat where "SECTOR_SIZE = 512"
definition IDE_BSY :: uchar where "IDE_BSY = 0x80"
definition IDE_DRDY :: uchar where "IDE_DRDY = 0x40"
definition IDE_DF :: uchar where "IDE_DF = 0x20"
definition IDE_ERR :: uchar where "IDE_ERR = 0x01"

text \<open>
  \<open>hstat\<close> is the sequence of status values and \<open>hpos\<close> the number of reads so far; \<open>hpoll\<close>
  bounds the polls of one wait, beyond which the kernel counts as hung.
\<close>

record hdst = bst +
  disk0 :: "uint \<Rightarrow> uchar list"
  rcount :: uchar
  rlba0 :: uchar
  rlba1 :: uchar
  rlba2 :: uchar
  rdev :: uchar
  hstat :: "nat \<Rightarrow> uchar"
  hpos :: nat
  hpoll :: nat
  hbuf :: "uchar list"
  idequeue :: "nat option"
  qnext :: "nat \<Rightarrow> nat option"
  havedisk1 :: bool

definition inb_status :: "('x hdst_scheme, uchar) kop" where
  "inb_status s = Ok (hstat s (hpos s)) (s\<lparr>hpos := Suc (hpos s)\<rparr>)"

definition lba :: "'x hdst_scheme \<Rightarrow> uint" where
  "lba s = ucast (rlba0 s) OR push_bit 8 (ucast (rlba1 s)) OR push_bit 16 (ucast (rlba2 s))
     OR push_bit 24 (ucast (rdev s) AND 0xF)"

definition drive1 :: "'x hdst_scheme \<Rightarrow> bool" where
  "drive1 s \<longleftrightarrow> rdev s AND 0x10 \<noteq> 0"

definition cmd_read :: "('x hdst_scheme, unit) kop" where
  "cmd_read = kmod (\<lambda>s. s\<lparr>hbuf := (if drive1 s then disk s (lba s) else disk0 s (lba s))\<rparr>)"

definition cmd_write :: "uchar list \<Rightarrow> ('x hdst_scheme, unit) kop" where
  "cmd_write d = kmod (\<lambda>s. if drive1 s then s\<lparr>disk := (disk s)(lba s := d), dwrites := dwrites s @ [(lba s, d)]\<rparr>
                           else s\<lparr>disk0 := (disk0 s)(lba s := d)\<rparr>)"

section \<open>The driver\<close>

primrec idewait_loop :: "nat \<Rightarrow> ('x hdst_scheme, uchar) kop" where
  "idewait_loop 0 = (\<lambda>s. Hang)"
| "idewait_loop (Suc n) =
     kbind inb_status (\<lambda>r.
     if r AND (IDE_BSY OR IDE_DRDY) \<noteq> IDE_DRDY then idewait_loop n else kret r)"

definition idewait :: "bool \<Rightarrow> ('x hdst_scheme, int) kop" where
  "idewait checkerr =
     kbind (kget hpoll) (\<lambda>n.
     kbind (idewait_loop n) (\<lambda>r.
     kret (if checkerr \<and> r AND (IDE_DF OR IDE_ERR) \<noteq> 0 then - 1 else 0)))"

primrec probe_loop :: "nat \<Rightarrow> ('x hdst_scheme, unit) kop" where
  "probe_loop 0 = kret ()"
| "probe_loop (Suc n) =
     kbind inb_status (\<lambda>r. if r \<noteq> 0 then kmod (\<lambda>s. s\<lparr>havedisk1 := True\<rparr>) else probe_loop n)"

definition ideinit :: "('x hdst_scheme, unit) kop" where
  "ideinit =
     kbind (idewait False) (\<lambda>_.
     kthen (kmod (\<lambda>s. s\<lparr>rdev := 0xF0\<rparr>)) (
     kthen (probe_loop 1000)
       (kmod (\<lambda>s. s\<lparr>rdev := 0xE0\<rparr>))))"

definition idestart :: "nat option \<Rightarrow> ('x hdst_scheme, unit) kop" where
  "idestart b =
     (case b of None \<Rightarrow> panic ''idestart'' | Some b \<Rightarrow>
     kbind (kget (\<lambda>s. bufs s ! b)) (\<lambda>x.
     kthen (kguard (blockno x \<ge> FSSIZE) ''incorrect blockno'') (
     let spb = BSIZE div SECTOR_SIZE; sector = blockno x * of_nat spb in
     kthen (kguard (spb > 7) ''idestart'') (
     kbind (idewait False) (\<lambda>_.
     kthen (kmod (\<lambda>s. s\<lparr>rcount := of_nat spb, rlba0 := ucast (sector AND 0xFF),
              rlba1 := ucast (drop_bit 8 sector AND 0xFF), rlba2 := ucast (drop_bit 16 sector AND 0xFF),
              rdev := ucast (0xE0 OR push_bit 4 (bdev x AND 1) OR (drop_bit 24 sector AND 0x0F))\<rparr>))
       (if dirty x then cmd_write (bdata x) else cmd_read))))))"

definition ideintr :: "('x hdst_scheme, unit) kop" where
  "ideintr =
     kthen (acquire LK_ide) (
     kbind (kget idequeue) (\<lambda>q.
     case q of
       None \<Rightarrow> release LK_ide
     | Some b \<Rightarrow>
         kthen (kmod (\<lambda>s. s\<lparr>idequeue := qnext s b\<rparr>)) (
         kbind (kget (\<lambda>s. dirty (bufs s ! b))) (\<lambda>d.
         kthen (kwhen (\<not> d) (kbind (idewait True) (\<lambda>r.
                  kwhen (r \<ge> 0) (kmod (\<lambda>s. s\<lparr>bufs := (bufs s)[b := (bufs s ! b)\<lparr>bdata := hbuf s\<rparr>]\<rparr>))))) (
         kthen (upd_buf b (\<lambda>x. x\<lparr>valid := True\<rparr>)) (
         kthen (upd_buf b (\<lambda>x. x\<lparr>dirty := False\<rparr>)) (
         kthen (wakeup (Ch_buf b)) (
         kbind (kget idequeue) (\<lambda>q.
         kthen (kwhen (q \<noteq> None) (idestart q)) (release LK_ide))))))))))"

text \<open>
  Appending to the queue: walk from the queue pointer (\<open>at = None\<close>) along \<open>qnext\<close> to the null
  link. A queue of distinct buffers has at most \<open>NBUF\<close> links.
\<close>

primrec ide_append :: "nat \<Rightarrow> nat \<Rightarrow> nat option \<Rightarrow> ('x hdst_scheme, unit) kop" where
  "ide_append 0 b at = (\<lambda>s. Hang)"
| "ide_append (Suc n) b at =
     kbind (kget (\<lambda>s. case at of None \<Rightarrow> idequeue s | Some a \<Rightarrow> qnext s a)) (\<lambda>link.
     case link of
       Some c \<Rightarrow> ide_append n b (Some c)
     | None \<Rightarrow> kmod (\<lambda>s. case at of None \<Rightarrow> s\<lparr>idequeue := Some b\<rparr> | Some a \<Rightarrow> s\<lparr>qnext := (qnext s)(a := Some b)\<rparr>))"

definition ide_wait_loop :: "nat \<Rightarrow> ('x hdst_scheme, unit) kop" where
  "ide_wait_loop b =
     kbind (kget (\<lambda>s. bufs s ! b)) (\<lambda>x.
     if \<not> (valid x \<and> \<not> dirty x) then sleep (Ch_buf b) (Some LK_ide) else release LK_ide)"

definition ide_rw :: "nat \<Rightarrow> ('x hdst_scheme, unit) kop" where
  "ide_rw b =
     kbind (kget (\<lambda>s. (bufs s ! b, havedisk1 s))) (\<lambda>(x, d1).
     kthen (kguard (\<not> busy x) ''iderw: buf not busy'') (
     kthen (kguard (valid x \<and> \<not> dirty x) ''iderw: nothing to do'') (
     kthen (kguard (bdev x \<noteq> 0 \<and> \<not> d1) ''iderw: ide disk 1 not present'') (
     kthen (acquire LK_ide) (
     kthen (kmod (\<lambda>s. s\<lparr>qnext := (qnext s)(b := None)\<rparr>)) (
     kthen (ide_append (Suc NBUF) b None) (
     kbind (kget idequeue) (\<lambda>q.
     kthen (kwhen (q = Some b) (idestart q))
       (ide_wait_loop b)))))))))"

definition ide_rw_resume :: "nat \<Rightarrow> ('x hdst_scheme, unit) kop" where
  "ide_rw_resume b = kthen (sleep_resume (Some LK_ide)) (ide_wait_loop b)"

end
