(* ===== verification/Log.thy ===== *)
theory Log
  imports Bio
begin

text \<open>
  The redo log of \<open>log.c\<close>, with \<open>readsb\<close> of \<open>fs.c\<close>, which \<open>initlog\<close> calls. The header block is
  kept as the bytes the source casts to \<open>struct logheader\<close>. The lemmas at the end show that a
  crash at any point of a commit leaves a disk from which recovery restores either all or none
  of the transaction.
\<close>

section \<open>Data\<close>

definition LOGSIZE :: nat where "LOGSIZE = 30"
definition MAXOPBLOCKS :: int where "MAXOPBLOCKS = 10"

record superblock =
  sb_size :: uint
  sb_nblocks :: uint
  sb_ninodes :: uint
  sb_nlog :: uint
  sb_logstart :: uint
  sb_inodestart :: uint
  sb_bmapstart :: uint

record lst = bst +
  lstart :: uint
  lsize :: int
  outstanding :: int
  committing :: bool
  ldev :: uint
  lh_n :: int
  lh_block :: "uint list"

definition sb_of :: "uchar list \<Rightarrow> superblock" where
  "sb_of bs = \<lparr>sb_size = rd32 bs 0, sb_nblocks = rd32 bs 4, sb_ninodes = rd32 bs 8, sb_nlog = rd32 bs 12,
     sb_logstart = rd32 bs 16, sb_inodestart = rd32 bs 20, sb_bmapstart = rd32 bs 24\<rparr>"

definition readsb :: "uint \<Rightarrow> ('x bst_scheme, superblock) kop" where
  "readsb d =
     kbind (bread d 1) (\<lambda>bp.
     kbind (kget (\<lambda>s. sb_of (bdat s bp))) (\<lambda>sb.
     kthen (brelse bp) (kret sb)))"

section \<open>Installing and recovering\<close>

definition install_step :: "nat \<Rightarrow> ('x lst_scheme, unit) kop" where
  "install_step tail =
     kbind (kget (\<lambda>s. (ldev s, lstart s, lh_block s ! tail))) (\<lambda>(d, st, bn).
     kbind (bread d (st + of_nat tail + 1)) (\<lambda>lbuf.
     kbind (bread d bn) (\<lambda>dbuf.
     kthen (kmod (\<lambda>s. set_bdat dbuf (bdat s lbuf) s)) (
     kthen (bwrite dbuf) (
     kthen (brelse lbuf) (brelse dbuf))))))"

definition install_trans :: "('x lst_scheme, unit) kop" where
  "install_trans = kbind (kget lh_n) (\<lambda>n. kfor [0..<nat n] install_step)"

text \<open>
  The header in a block: the number of blocks, then their numbers. A count above \<open>LOGSIZE\<close>
  makes \<open>read_head\<close> write past \<open>log.lh.block\<close>.
\<close>

definition hdr_n :: "uchar list \<Rightarrow> int" where
  "hdr_n bs = sint (rd32 bs 0)"

definition hdr_block :: "uchar list \<Rightarrow> nat \<Rightarrow> uint" where
  "hdr_block bs i = rd32 bs (4 + 4 * i)"

definition read_head :: "('x lst_scheme, unit) kop" where
  "read_head =
     kbind (kget (\<lambda>s. (ldev s, lstart s))) (\<lambda>(d, st).
     kbind (bread d st) (\<lambda>b.
     kbind (kget (\<lambda>s. bdat s b)) (\<lambda>lh.
     if hdr_n lh > int LOGSIZE then ub
     else kthen (kmod (\<lambda>s. s\<lparr>lh_n := hdr_n lh, lh_block :=
                  map (\<lambda>i. if int i < hdr_n lh then hdr_block lh i else lh_block s ! i) [0..<LOGSIZE]\<rparr>))
            (brelse b))))"

definition head_bytes :: "int \<Rightarrow> uint list \<Rightarrow> uchar list \<Rightarrow> uchar list" where
  "head_bytes n bl bs = fold (\<lambda>i bs. wr32 bs (4 + 4 * i) (bl ! i)) [0..<nat n] (wr32 bs 0 (word_of_int n))"

definition write_head :: "('x lst_scheme, unit) kop" where
  "write_head =
     kbind (kget (\<lambda>s. (ldev s, lstart s))) (\<lambda>(d, st).
     kbind (bread d st) (\<lambda>b.
     kthen (kmod (\<lambda>s. set_bdat b (head_bytes (lh_n s) (lh_block s) (bdat s b)) s)) (
     kthen (bwrite b) (brelse b))))"

definition recover_from_log :: "('x lst_scheme, unit) kop" where
  "recover_from_log =
     kthen read_head (
     kthen install_trans (
     kthen (kmod (\<lambda>s. s\<lparr>lh_n := 0\<rparr>)) write_head))"

definition initlog :: "uint \<Rightarrow> ('x lst_scheme, unit) kop" where
  "initlog d =
     kbind (readsb d) (\<lambda>sb.
     kthen (kmod (\<lambda>s. s\<lparr>lstart := sb_logstart sb, lsize := sint (sb_nlog sb), ldev := d\<rparr>)) recover_from_log)"

section \<open>Transactions\<close>

definition begin_loop :: "('x lst_scheme, unit) kop" where
  "begin_loop =
     kbind (kget (\<lambda>s. (committing s, lh_n s + (outstanding s + 1) * MAXOPBLOCKS > int LOGSIZE))) (\<lambda>(c, full).
     if c then sleep Ch_log (Some LK_log)
     else if full then sleep Ch_log (Some LK_log)
     else kthen (kmod (\<lambda>s. s\<lparr>outstanding := outstanding s + 1\<rparr>)) (release LK_log))"

definition begin_op :: "('x lst_scheme, unit) kop" where
  "begin_op = kthen (acquire LK_log) begin_loop"

definition begin_op_resume :: "('x lst_scheme, unit) kop" where
  "begin_op_resume = kthen (sleep_resume (Some LK_log)) begin_loop"

definition write_log_step :: "nat \<Rightarrow> ('x lst_scheme, unit) kop" where
  "write_log_step tail =
     kbind (kget (\<lambda>s. (ldev s, lstart s, lh_block s ! tail))) (\<lambda>(d, st, bn).
     kbind (bread d (st + of_nat tail + 1)) (\<lambda>to.
     kbind (bread d bn) (\<lambda>from.
     kthen (kmod (\<lambda>s. set_bdat to (bdat s from) s)) (
     kthen (bwrite to) (
     kthen (brelse from) (brelse to))))))"

definition write_log :: "('x lst_scheme, unit) kop" where
  "write_log = kbind (kget lh_n) (\<lambda>n. kfor [0..<nat n] write_log_step)"

definition commit :: "('x lst_scheme, unit) kop" where
  "commit =
     kbind (kget lh_n) (\<lambda>n.
     kwhen (n > 0) (
       kthen write_log (
       kthen write_head (
       kthen install_trans (
       kthen (kmod (\<lambda>s. s\<lparr>lh_n := 0\<rparr>)) write_head)))))"

definition end_op :: "('x lst_scheme, unit) kop" where
  "end_op =
     kthen (acquire LK_log) (
     kthen (kmod (\<lambda>s. s\<lparr>outstanding := outstanding s - 1\<rparr>)) (
     kbind (kget (\<lambda>s. (committing s, outstanding s))) (\<lambda>(c, n).
     kthen (kguard c ''log.committing'') (
     kthen (if n = 0 then kmod (\<lambda>s. s\<lparr>committing := True\<rparr>) else wakeup Ch_log) (
     kthen (release LK_log) (
     kwhen (n = 0) (
       kthen commit (
       kthen (acquire LK_log) (
       kthen (kmod (\<lambda>s. s\<lparr>committing := False\<rparr>)) (
       kthen (wakeup Ch_log) (release LK_log)))))))))))"

text \<open>The slot of a block number in the header: its own if it is there already, else the next.\<close>

definition log_slot :: "int \<Rightarrow> uint list \<Rightarrow> uint \<Rightarrow> nat" where
  "log_slot n bl bn = (case find_idx (\<lambda>x. x = bn) (take (nat n) bl) of Some i \<Rightarrow> i | None \<Rightarrow> nat n)"

definition log_write :: "nat \<Rightarrow> ('x lst_scheme, unit) kop" where
  "log_write b =
     kbind (kget (\<lambda>s. (lh_n s, lsize s, outstanding s, blockno (bufs s ! b)))) (\<lambda>(n, size, out, bn).
     kthen (kguard (n \<ge> int LOGSIZE \<or> n \<ge> size - 1) ''too big a transaction'') (
     kthen (kguard (out < 1) ''log_write outside of trans'') (
     kthen (acquire LK_log) (
     kthen (kmod (\<lambda>s. let i = log_slot (lh_n s) (lh_block s) bn in
              s\<lparr>lh_block := (lh_block s)[i := bn], lh_n := (if int i = lh_n s then lh_n s + 1 else lh_n s)\<rparr>)) (
     kthen (upd_buf b (\<lambda>x. x\<lparr>dirty := True\<rparr>)) (release LK_log))))))"

section \<open>Sequences of updates\<close>

definition fupds :: "(nat \<Rightarrow> 'k) \<Rightarrow> (nat \<Rightarrow> 'v) \<Rightarrow> nat \<Rightarrow> ('k \<Rightarrow> 'v) \<Rightarrow> 'k \<Rightarrow> 'v" where
  "fupds ks vs n f = fold (\<lambda>i f. f(ks i := vs i)) [0..<n] f"

lemma fupds_0 [simp]: "fupds ks vs 0 f = f"
  by (simp add: fupds_def)

lemma fupds_Suc: "fupds ks vs (Suc n) f = (fupds ks vs n f)(ks n := vs n)"
  by (simp add: fupds_def)

lemma fupds_out: "(\<And>i. i < n \<Longrightarrow> ks i \<noteq> m) \<Longrightarrow> fupds ks vs n f m = f m"
  by (induction n) (auto simp: fupds_Suc)

lemma fupds_in: "inj_on ks {..<n} \<Longrightarrow> i < n \<Longrightarrow> fupds ks vs n f (ks i) = vs i"
proof (induction n)
  case (Suc n)
  then show ?case
    by (cases "i = n") (auto simp: fupds_Suc inj_on_def)
qed simp

lemma fupds_cong: "(\<And>i. i < n \<Longrightarrow> ks i = ks' i \<and> vs i = vs' i) \<Longrightarrow> fupds ks vs n f = fupds ks' vs' n f"
  by (induction n) (simp_all add: fupds_Suc)

text \<open>The disk after a sequence of block writes.\<close>

definition replay :: "(uint \<Rightarrow> uchar list) \<Rightarrow> (uint \<times> uchar list) list \<Rightarrow> uint \<Rightarrow> uchar list" where
  "replay d ws = fold (\<lambda>(m, v) d. d(m := v)) ws d"

lemma replay_append: "replay d (xs @ ys) = replay (replay d xs) ys"
  by (simp add: replay_def)

lemma replay_single: "replay d [(m, v)] = d(m := v)"
  by (simp add: replay_def)

lemma replay_map: "replay d (map (\<lambda>i. (ks i, vs i)) [0..<n]) = fupds ks vs n d"
  by (induction n) (simp_all add: replay_append replay_single fupds_Suc, simp add: replay_def)

section \<open>The header block\<close>

lemma head_bytes_props:
  assumes "length bs = BSIZE" "k \<le> LOGSIZE"
  shows "length (head_bytes (int k) bl bs) = BSIZE"
    and "rd32 (head_bytes (int k) bl bs) 0 = of_nat k"
    and "i < k \<Longrightarrow> rd32 (head_bytes (int k) bl bs) (4 + 4 * i) = bl ! i"
proof -
  let ?f = "\<lambda>j. fold (\<lambda>i bs. wr32 bs (4 + 4 * i) (bl ! i)) [0..<j] (wr32 bs 0 (word_of_int (int k)))"
  have len: "length (?f j) = BSIZE" for j using assms(1) by (induction j) auto
  have z: "rd32 (?f j) 0 = of_nat k" for j
  proof (induction j)
    case 0
    then show ?case using assms(1) by (simp add: BSIZE_def)
  next
    case (Suc j)
    then show ?case by (simp add: rd32_wr32_other)
  qed
  have e: "i < j \<Longrightarrow> rd32 (?f j) (4 + 4 * i) = bl ! i" if "j \<le> k" for j
    using that
  proof (induction j)
    case (Suc j)
    have "4 + 4 * j + 3 < length (?f j)" using Suc.prems assms(2) by (simp only: len) (simp add: BSIZE_def LOGSIZE_def)
    then show ?case using Suc by (cases "i = j") (auto simp: rd32_wr32_other)
  qed simp
  show "length (head_bytes (int k) bl bs) = BSIZE" "rd32 (head_bytes (int k) bl bs) 0 = of_nat k"
    "i < k \<Longrightarrow> rd32 (head_bytes (int k) bl bs) (4 + 4 * i) = bl ! i"
    using len [of k] z [of k] e [of k] by (simp_all add: head_bytes_def)
qed

lemma hdr_head_bytes:
  assumes "length bs = BSIZE" "k \<le> LOGSIZE"
  shows "hdr_n (head_bytes (int k) bl bs) = int k" "i < k \<Longrightarrow> hdr_block (head_bytes (int k) bl bs) i = bl ! i"
proof -
  have "sint (of_nat k :: uint) = int k" using assms(2)
    by (simp add: signed_of_nat LOGSIZE_def signed_take_bit_int_eq_self)
  then show "hdr_n (head_bytes (int k) bl bs) = int k" using head_bytes_props(2) [OF assms] by (simp add: hdr_n_def)
  show "i < k \<Longrightarrow> hdr_block (head_bytes (int k) bl bs) i = bl ! i"
    using head_bytes_props(3) [OF assms] by (simp add: hdr_block_def)
qed

section \<open>The log on the disk\<close>

abbreviation LB :: "'x lst_scheme \<Rightarrow> nat \<Rightarrow> uint" where
  "LB s i \<equiv> lstart s + of_nat i + 1"

definition in_log :: "uint \<Rightarrow> uint \<Rightarrow> bool" where
  "in_log st m \<longleftrightarrow> unat st \<le> unat m \<and> unat m < unat st + LOGSIZE"

definition log_geom :: "'x lst_scheme \<Rightarrow> bool" where
  "log_geom s \<longleftrightarrow> ldev s = 1 \<and> unat (lstart s) + LOGSIZE \<le> unat (disksize s) \<and> length (lh_block s) = LOGSIZE"

definition homes_ok :: "uint \<Rightarrow> uint \<Rightarrow> nat \<Rightarrow> (nat \<Rightarrow> uint) \<Rightarrow> bool" where
  "homes_ok st dz n bl \<longleftrightarrow> inj_on bl {..<n} \<and> (\<forall>i<n. bl i < dz \<and> \<not> in_log st (bl i))"

lemma unat_LB: "log_geom s \<Longrightarrow> Suc i < LOGSIZE \<Longrightarrow> unat (LB s i) = Suc (unat (lstart s) + i)"
proof -
  assume a: "log_geom s" "Suc i < LOGSIZE"
  have "unat (lstart s) + (i + 1) < 4294967296"
    using a unat_uint_bound [of "disksize s"] unfolding log_geom_def by linarith
  from unat_add_of_nat [OF this] show ?thesis by (simp add: algebra_simps)
qed

lemma geom_start: "log_geom s \<Longrightarrow> lstart s < disksize s"
  by (simp add: log_geom_def word_less_nat_alt LOGSIZE_def)

lemma LB_props:
  assumes "log_geom s" "Suc i < LOGSIZE"
  shows "LB s i < disksize s" "in_log (lstart s) (LB s i)" "LB s i \<noteq> lstart s" "lstart s < disksize s" "in_log (lstart s) (lstart s)"
    and "Suc j < LOGSIZE \<Longrightarrow> LB s i = LB s j \<longleftrightarrow> i = j"
proof -
  note u = unat_LB [OF assms]
  show "LB s i < disksize s" "in_log (lstart s) (LB s i)" "lstart s < disksize s" "in_log (lstart s) (lstart s)"
    using u assms by (auto simp: word_less_nat_alt log_geom_def in_log_def)
  show "LB s i \<noteq> lstart s"
  proof
    assume "LB s i = lstart s"
    then have "unat (LB s i) = unat (lstart s)" by (rule arg_cong)
    with u show False by simp
  qed
  show "LB s i = LB s j \<longleftrightarrow> i = j" if "Suc j < LOGSIZE" using u unat_LB [OF assms(1) that] by (metis add_left_cancel nat.inject)
qed

lemma brest_lst:
  assumes "brest s (t :: 'x lst_scheme)"
  shows "lstart t = lstart s" "lsize t = lsize s" "outstanding t = outstanding s" "committing t = committing s"
    "ldev t = ldev s" "lh_n t = lh_n s" "lh_block t = lh_block s"
proof -
  from assms have e: "t = s\<lparr>bufs := bufs t, disk := disk t, dwrites := dwrites t, procs := procs t\<rparr>"
    by (simp add: brest_def)
  show "lstart t = lstart s" "lsize t = lsize s" "outstanding t = outstanding s" "committing t = committing s"
    "ldev t = ldev s" "lh_n t = lh_n s" "lh_block t = lh_block s"
    by (subst e; simp)+
qed

lemma brest_geom: "brest s t \<Longrightarrow> log_geom t = log_geom s"
  by (simp add: log_geom_def brest_lst brestD)

section \<open>The loops of a commit\<close>

lemma write_log_loop:
  assumes g: "log_geom s" and h: "homes_ok (lstart s) (disksize s) n ((!) (lh_block s))" and n: "n < LOGSIZE"
    and q: "bio.quiesced k s" "k < NBUF" and d: "\<And>i. i < n \<Longrightarrow> lh_block s ! i \<in> dirtyb s"
    and nl: "\<And>m. m \<in> dirtyb s \<Longrightarrow> \<not> in_log (lstart s) m"
  shows "\<exists>t. kfor [0..<n] write_log_step s = Ok () t \<and> bio.quiesced k t \<and> brest s t \<and>
    blk t = fupds (LB s) (\<lambda>i. blk s (lh_block s ! i)) n (blk s) \<and>
    disk t = fupds (LB s) (\<lambda>i. blk s (lh_block s ! i)) n (disk s) \<and>
    dwrites t = dwrites s @ map (\<lambda>i. (LB s i, blk s (lh_block s ! i))) [0..<n] \<and> dirtyb t = dirtyb s"
  using n h d
proof (induction n)
  case 0
  then show ?case using q by (simp add: bio.rest_refl)
next
  case (Suc n)
  let ?V = "\<lambda>i. blk s (lh_block s ! i)"
  have "homes_ok (lstart s) (disksize s) n ((!) (lh_block s))"
    using Suc.prems(2) by (auto simp: homes_ok_def inj_on_def)
  with Suc.IH Suc.prems obtain t where t: "kfor [0..<n] write_log_step s = Ok () t" "bio.quiesced k t" "brest s t"
    "blk t = fupds (LB s) ?V n (blk s)" "disk t = fupds (LB s) ?V n (disk s)"
    "dwrites t = dwrites s @ map (\<lambda>i. (LB s i, ?V i)) [0..<n]" "dirtyb t = dirtyb s" by auto
  have nL: "Suc n < LOGSIZE" using Suc.prems(1) by simp
  note F = brest_lst [OF t(3)] brestD(2) [OF t(3)]
  let ?B = "lh_block s ! n"
  have B: "?B < disksize s" "\<not> in_log (lstart s) ?B" "?B \<in> dirtyb s" using Suc.prems(2,3) by (auto simp: homes_ok_def)
  have ne: "LB s n \<noteq> ?B" using LB_props(2) [OF g nL] B(2) by auto
  have bB: "blk t ?B = blk s ?B"
    unfolding t(4)
  proof (rule fupds_out)
    show "LB s i \<noteq> ?B" if "i < n" for i using LB_props(2) [OF g, of i] nL that B(2) by auto
  qed
  have nd: "LB s n \<notin> dirtyb s" using nl LB_props(2) [OF g nL] by auto
  from bio.copy_to_first [OF t(2) q(2), of "LB s n" ?B] LB_props(1) [OF g nL] B ne F t(7)
  obtain u where u: "kbind (bread 1 (LB s n)) (\<lambda>x. kbind (bread 1 ?B) (\<lambda>y. kthen (kmod (\<lambda>s. set_bdat x (bdat s y) s))
      (kthen (bwrite x) (kthen (brelse y) (brelse x))))) t = Ok () u"
    "bio.quiesced k u" "brest t u" "blk u = (blk t)(LB s n := blk t ?B)" "disk u = (disk t)(LB s n := blk t ?B)"
    "dwrites u = dwrites t @ [(LB s n, blk t ?B)]" "dirtyb u = dirtyb t - {LB s n}" by auto
  have "write_log_step n t = Ok () u"
    using u(1) F g unfolding write_log_step_def by (simp add: log_geom_def)
  then have "kfor [0..<Suc n] write_log_step s = Ok () u"
    using kthen_simps(1) [where m = "kfor [0..<n] write_log_step" and n = "write_log_step n", OF t(1)] by (simp add: kfor_append)
  moreover have "blk u = fupds (LB s) ?V (Suc n) (blk s)" "disk u = fupds (LB s) ?V (Suc n) (disk s)"
    "dwrites u = dwrites s @ map (\<lambda>i. (LB s i, ?V i)) [0..<Suc n]"
    unfolding fupds_Suc
    by (rule trans [OF u(4)], simp only: bB, simp only: t(4))
      (rule trans [OF u(5)], simp only: bB, simp only: t(5), rule trans [OF u(6)], simp only: bB, simp add: t(6))
  moreover have "dirtyb u = dirtyb s" using u(7) t(7) nd by simp
  ultimately show ?case using u(2) brest_trans [OF t(3) u(3)] by (intro exI [of _ u]) simp
qed

lemma install_loop:
  assumes g: "log_geom s" and h: "homes_ok (lstart s) (disksize s) n ((!) (lh_block s))" and n: "n < LOGSIZE"
    and q: "bio.quiesced k s" "k < NBUF" and d: "(\<forall>i<n. lh_block s ! i \<in> dirtyb s) \<or> Suc k < NBUF"
  shows "\<exists>t. kfor [0..<n] install_step s = Ok () t \<and> bio.quiesced k t \<and> brest s t \<and>
    blk t = fupds ((!) (lh_block s)) (\<lambda>i. blk s (LB s i)) n (blk s) \<and>
    disk t = fupds ((!) (lh_block s)) (\<lambda>i. blk s (LB s i)) n (disk s) \<and>
    dwrites t = dwrites s @ map (\<lambda>i. (lh_block s ! i, blk s (LB s i))) [0..<n] \<and>
    dirtyb t = dirtyb s - (!) (lh_block s) ` {..<n}"
  using n h d
proof (induction n)
  case 0
  then show ?case using q by (simp add: bio.rest_refl)
next
  case (Suc n)
  let ?V = "\<lambda>i. blk s (LB s i)"
  have "homes_ok (lstart s) (disksize s) n ((!) (lh_block s))"
    using Suc.prems(2) by (auto simp: homes_ok_def inj_on_def)
  with Suc.IH Suc.prems obtain t where t: "kfor [0..<n] install_step s = Ok () t" "bio.quiesced k t" "brest s t"
    "blk t = fupds ((!) (lh_block s)) ?V n (blk s)" "disk t = fupds ((!) (lh_block s)) ?V n (disk s)"
    "dwrites t = dwrites s @ map (\<lambda>i. (lh_block s ! i, ?V i)) [0..<n]"
    "dirtyb t = dirtyb s - (!) (lh_block s) ` {..<n}" by auto
  have nL: "Suc n < LOGSIZE" using Suc.prems(1) by simp
  note F = brest_lst [OF t(3)] brestD(2) [OF t(3)]
  let ?B = "lh_block s ! n"
  have B: "?B < disksize s" "\<not> in_log (lstart s) ?B" "?B \<notin> (!) (lh_block s) ` {..<n}"
    using Suc.prems(2) by (auto simp: homes_ok_def dest: inj_onD [of _ _ n])
  have ne: "LB s n \<noteq> ?B" using LB_props(2) [OF g nL] B(2) by auto
  have bL: "blk t (LB s n) = ?V n"
  proof -
    have "lh_block s ! i \<noteq> LB s n" if "i < n" for i
      using LB_props(2) [OF g nL] Suc.prems(2) less_SucI [OF that] by (auto simp: homes_ok_def)
    then show ?thesis unfolding t(4) by (rule fupds_out)
  qed
  have "?B \<in> dirtyb t \<or> Suc k < NBUF" using Suc.prems(3) B(3) t(7) by auto
  with bio.copy_to_second [OF t(2) q(2), of "LB s n" ?B] LB_props(1) [OF g nL] B(1) ne F
  obtain u where u: "kbind (bread 1 (LB s n)) (\<lambda>y. kbind (bread 1 ?B) (\<lambda>x. kthen (kmod (\<lambda>s. set_bdat x (bdat s y) s))
      (kthen (bwrite x) (kthen (brelse y) (brelse x))))) t = Ok () u"
    "bio.quiesced k u" "brest t u" "blk u = (blk t)(?B := blk t (LB s n))" "disk u = (disk t)(?B := blk t (LB s n))"
    "dwrites u = dwrites t @ [(?B, blk t (LB s n))]" "dirtyb u = dirtyb t - {?B}" by auto
  have "install_step n t = Ok () u"
    using u(1) F g unfolding install_step_def by (simp add: log_geom_def)
  then have "kfor [0..<Suc n] install_step s = Ok () u"
    using kthen_simps(1) [where m = "kfor [0..<n] install_step" and n = "install_step n", OF t(1)] by (simp add: kfor_append)
  moreover have "dirtyb u = dirtyb s - (!) (lh_block s) ` {..<Suc n}" using u(7) t(7) by (auto simp: lessThan_Suc)
  moreover have "blk u = fupds ((!) (lh_block s)) ?V (Suc n) (blk s)" "disk u = fupds ((!) (lh_block s)) ?V (Suc n) (disk s)"
    "dwrites u = dwrites s @ map (\<lambda>i. (lh_block s ! i, ?V i)) [0..<Suc n]"
    unfolding fupds_Suc
    by (rule trans [OF u(4)], simp only: bL, simp only: t(4))
      (rule trans [OF u(5)], simp only: bL, simp only: t(5), rule trans [OF u(6)], simp only: bL, simp add: t(6))
  ultimately show ?case using u(2) brest_trans [OF t(3) u(3)] by (intro exI [of _ u]) simp
qed

lemma write_head_ok:
  assumes g: "log_geom s" and q: "bio.quiesced k s" "k < NBUF" and n: "0 \<le> lh_n s" "lh_n s \<le> int LOGSIZE"
  defines "h \<equiv> head_bytes (lh_n s) (lh_block s) (blk s (lstart s))"
  shows "\<exists>t. write_head s = Ok () t \<and> bio.quiesced k t \<and> brest s t \<and> blk t = (blk s)(lstart s := h) \<and>
    disk t = (disk s)(lstart s := h) \<and> dwrites t = dwrites s @ [(lstart s, h)] \<and> dirtyb t = dirtyb s - {lstart s}"
proof -
  have l: "lstart s < disksize s" by (rule geom_start [OF g])
  have "bc_ok s" using q(1) by (simp add: bio.quiesced_def)
  then have "length (blk s (lstart s)) = BSIZE" using l by (rule length_blkof)
  then have lh: "length h = BSIZE"
    using head_bytes_props(1) [of "blk s (lstart s)" "nat (lh_n s)"] n by (simp add: h_def)
  from bio.write_block [OF q l, where g = "\<lambda>d. head_bytes (lh_n s) (lh_block s) d" and
      f = "\<lambda>b. kmod (\<lambda>s. set_bdat b (head_bytes (lh_n s) (lh_block s) (bdat s b)) s)"]
  obtain t where "kbind (bread 1 (lstart s)) (\<lambda>b. kthen (kmod (\<lambda>s. set_bdat b (head_bytes (lh_n s) (lh_block s) (bdat s b)) s))
      (kthen (bwrite b) (brelse b))) s = Ok () t" "bio.quiesced k t" "brest s t" "blk t = (blk s)(lstart s := h)"
    "disk t = (disk s)(lstart s := h)" "dwrites t = dwrites s @ [(lstart s, h)]" "dirtyb t = dirtyb s - {lstart s}"
    using lh by (auto simp: h_def brest_lst)
  then show ?thesis using g unfolding write_head_def by (auto simp: log_geom_def)
qed

lemma quiesced_lh [simp]:
  "bio.quiesced k (s\<lparr>lh_n := x\<rparr>) = bio.quiesced k s" "bio.quiesced k (s\<lparr>lh_block := bl\<rparr>) = bio.quiesced k s"
  by (simp_all add: bio.quiesced_def)

text \<open>The blocks a commit writes, in order.\<close>

definition commit_writes :: "'x lst_scheme \<Rightarrow> nat \<Rightarrow> (uint \<times> uchar list) list" where
  "commit_writes s n =
     (let V = \<lambda>i. blk s (lh_block s ! i); H = head_bytes (int n) (lh_block s) (blk s (lstart s)) in
      map (\<lambda>i. (LB s i, V i)) [0..<n] @ [(lstart s, H)] @ map (\<lambda>i. (lh_block s ! i, V i)) [0..<n] @
      [(lstart s, head_bytes 0 (lh_block s) H)])"

text \<open>A transaction that is ready to commit: its blocks are the unwritten ones, and none is held.\<close>

definition ready :: "'x lst_scheme \<Rightarrow> nat \<Rightarrow> bool" where
  "ready s n \<longleftrightarrow> log_geom s \<and> lh_n s = int n \<and> 0 < n \<and> n < NBUF \<and> settled s \<and>
     homes_ok (lstart s) (disksize s) n ((!) (lh_block s)) \<and> dirtyb s = (!) (lh_block s) ` {..<n}"

lemma commit_ok:
  assumes r: "ready s n"
  shows "\<exists>t. commit s = Ok () t \<and> dwrites t = dwrites s @ commit_writes s n \<and>
    disk t = replay (disk s) (commit_writes s n) \<and> dirtyb t = {} \<and> lh_n t = 0 \<and> bio.quiesced n t \<and>
    brest (s\<lparr>lh_n := 0\<rparr>) t \<and> (\<forall>m. \<not> in_log (lstart s) m \<longrightarrow> blk t m = blk s m)"
proof -
  have g: "log_geom s" and n: "lh_n s = int n" "0 < n" "n < NBUF" and q: "bio.quiesced n s"
    and h: "homes_ok (lstart s) (disksize s) n ((!) (lh_block s))" and d: "dirtyb s = (!) (lh_block s) ` {..<n}"
    using r card_image_le [of "{..<n}" "(!) (lh_block s)"] by (auto simp: ready_def quiesced_settled)
  have nL: "n < LOGSIZE" using n(3) by (simp add: NBUF_def LOGSIZE_def)
  let ?V = "\<lambda>i. blk s (lh_block s ! i)" and ?bl = "lh_block s" and ?L = "lstart s"
  define H where "H = head_bytes (int n) ?bl (blk s ?L)"
  have nl: "\<not> in_log ?L m" if "m \<in> dirtyb s" for m using that h d by (auto simp: homes_ok_def)
  have L: "in_log ?L (LB s i)" "LB s i \<noteq> ?L" if "i < n" for i using LB_props [OF g] that nL by auto
  have LL: "in_log ?L ?L" by (simp add: in_log_def LOGSIZE_def)
  have inj: "inj_on (LB s) {..<n}" using LB_props(6) [OF g] nL by (auto simp: inj_on_def)
  have Bl: "?bl ! i \<noteq> m" if "i < n" "in_log ?L m" for i m using that h by (auto simp: homes_ok_def)
  from write_log_loop [OF g h nL q n(3)] d nl obtain a where a: "kfor [0..<n] write_log_step s = Ok () a"
    "bio.quiesced n a" "brest s a" "blk a = fupds (LB s) ?V n (blk s)" "disk a = fupds (LB s) ?V n (disk s)"
    "dwrites a = dwrites s @ map (\<lambda>i. (LB s i, ?V i)) [0..<n]" "dirtyb a = dirtyb s" by auto
  note A = brest_lst [OF a(3)] brestD(2) [OF a(3)]
  have ga: "log_geom a" using brest_geom [OF a(3)] g by simp
  have aL: "blk a ?L = blk s ?L" unfolding a(4) using L(2) by (rule fupds_out)
  have aB: "blk a (LB s i) = ?V i" if "i < n" for i unfolding a(4) using inj that by (rule fupds_in)
  from write_head_ok [OF ga a(2) n(3)] n nL A aL obtain b where b: "write_head a = Ok () b" "bio.quiesced n b" "brest a b"
    "blk b = (blk a)(?L := H)" "disk b = (disk a)(?L := H)" "dwrites b = dwrites a @ [(?L, H)]" "dirtyb b = dirtyb a - {?L}"
    by (auto simp: H_def)
  note sb = brest_trans [OF a(3) b(3)]
  note B = brest_lst [OF sb] brestD(2) [OF sb]
  have gb: "log_geom b" using brest_geom [OF sb] g by simp
  have db: "dirtyb b = dirtyb s" using b(7) a(7) nl LL by auto
  have bB: "blk b (LB b i) = ?V i" if "i < n" for i using aB [OF that] L(2) [OF that] B b(4) by simp
  from install_loop [OF gb _ nL b(2) n(3)] B h db d obtain c where c: "kfor [0..<n] install_step b = Ok () c"
    "bio.quiesced n c" "brest b c" "blk c = fupds ((!) ?bl) (\<lambda>i. blk b (LB b i)) n (blk b)"
    "disk c = fupds ((!) ?bl) (\<lambda>i. blk b (LB b i)) n (disk b)"
    "dwrites c = dwrites b @ map (\<lambda>i. (?bl ! i, blk b (LB b i))) [0..<n]" "dirtyb c = dirtyb b - (!) ?bl ` {..<n}" by auto
  note sc = brest_trans [OF sb c(3)]
  note C = brest_lst [OF sc] brestD(2) [OF sc]
  let ?c = "c\<lparr>lh_n := 0\<rparr>"
  have gc: "log_geom ?c" using brest_geom [OF sc] g by (simp add: log_geom_def)
  have cL: "blk c ?L = H" unfolding c(4) using Bl LL b(4) by (subst fupds_out) auto
  have qc: "bio.quiesced n ?c" using c(2) by simp
  from write_head_ok [OF gc qc n(3)] C cL obtain e where e: "write_head ?c = Ok () e" "bio.quiesced n e" "brest ?c e"
    "blk e = (blk c)(?L := head_bytes 0 ?bl H)" "disk e = (disk c)(?L := head_bytes 0 ?bl H)"
    "dwrites e = dwrites c @ [(?L, head_bytes 0 ?bl H)]" "dirtyb e = dirtyb c - {?L}" by auto
  have "commit s = Ok () e"
    using a(1) b(1) c(1) e(1) n A B by (simp add: commit_def write_log_def install_trans_def)
  moreover have W: "map (\<lambda>i. (?bl ! i, blk b (LB b i))) [0..<n] = map (\<lambda>i. (?bl ! i, ?V i)) [0..<n]" using bB by simp
  have "dwrites e = dwrites s @ commit_writes s n"
    by (simp add: e(6) c(6) b(6) a(6) W commit_writes_def Let_def H_def)
  moreover have "disk e = replay (disk s) (commit_writes s n)"
  proof -
    have c5: "disk c = fupds ((!) ?bl) ?V n (disk b)"
      by (rule trans [OF c(5)], rule fupds_cong) (simp add: bB)
    show ?thesis
      unfolding e(5) c5 b(5) a(5) commit_writes_def Let_def H_def replay_append replay_map replay_single ..
  qed
  moreover have "blk e m = blk s m" if "\<not> in_log ?L m" for m
  proof -
    have "m \<noteq> ?L" "\<And>i. i < n \<Longrightarrow> LB s i \<noteq> m" using that L LL by auto
    then have bm: "blk b m = blk s m" unfolding b(4) a(4) by (simp add: fupds_out)
    have "blk e m = blk c m" unfolding e(4) using \<open>m \<noteq> ?L\<close> by simp
    also have "\<dots> = blk s m"
    proof (cases "\<exists>i<n. ?bl ! i = m")
      case True
      then obtain i where "i < n" "m = ?bl ! i" by auto
      then show ?thesis unfolding c(4) using h bB by (simp add: fupds_in homes_ok_def)
    next
      case False
      then show ?thesis unfolding c(4) using bm by (subst fupds_out) auto
    qed
    finally show ?thesis .
  qed
  moreover have "brest (s\<lparr>lh_n := 0\<rparr>) e"
  proof -
    have "brest (s\<lparr>lh_n := 0\<rparr>) ?c" using sc unfolding brest_def by (cases s; cases c) simp
    then show ?thesis using e(3) by (rule brest_trans)
  qed
  moreover have "dirtyb e = {}" using e(7) c(7) db d by auto
  moreover have "lh_n e = 0" using brest_lst(6) [OF e(3)] by simp
  ultimately show ?thesis using e(2) by (intro exI [of _ e]) simp
qed

section \<open>Recovery\<close>

lemma quiesced_0: "bio.quiesced 0 r \<Longrightarrow> dirtyb r = {} \<and> blk r = disk r"
proof -
  assume q: "bio.quiesced 0 r"
  then have d: "dirtyb r = {}" by (simp add: bio.quiesced_def)
  then have "blk r m = disk r m" for m using bio.quiesced_agree [OF q] by simp
  with d show ?thesis by auto
qed

lemma read_head_ok:
  assumes g: "log_geom r" and q: "bio.quiesced 0 r"
  defines "h \<equiv> disk r (lstart r)"
  assumes n: "hdr_n h \<le> int LOGSIZE"
  shows "\<exists>t bl. read_head r = Ok () t \<and> bio.quiesced 0 t \<and> brest (r\<lparr>lh_n := hdr_n h, lh_block := bl\<rparr>) t \<and>
    disk t = disk r \<and> dwrites t = dwrites r \<and> length bl = LOGSIZE \<and>
    (\<forall>i<LOGSIZE. int i < hdr_n h \<longrightarrow> bl ! i = hdr_block h i)"
proof -
  note e = quiesced_0 [OF q]
  have ok: "bc_ok r" "bidle r" "\<And>b m. \<not> has r b m" using q by (auto simp: bio.quiesced_def)
  have l: "lstart r < disksize r" by (rule geom_start [OF g])
  have "{m. \<exists>b. has r b m} = {}" using ok(3) by auto
  then have cap: "lstart r \<in> dirtyb r \<or> card ({m. \<exists>b. has r b m} \<union> dirtyb r) < NBUF" using e by (simp add: NBUF_def)
  from bio.bread_law [OF ok(1,2) l ok(3) cap] obtain b t where t: "bread 1 (lstart r) r = Ok b t" "bc_ok t" "brest r t"
    "blk t = blk r" "disk t = disk r" "dwrites t = dwrites r" "dirtyb t = dirtyb r"
    "\<And>b' n'. has t b' n' \<longleftrightarrow> has r b' n' \<or> b' = b \<and> n' = lstart r" by blast
  have hb: "has t b (lstart r)" using t(8) by simp
  have dat: "bdat t b = h" using bio.data_law [OF t(2) hb] t(4) e by (simp add: h_def)
  define bl where "bl = map (\<lambda>i. if int i < hdr_n h then hdr_block h i else lh_block t ! i) [0..<LOGSIZE]"
  let ?u = "t\<lparr>lh_n := hdr_n h, lh_block := bl\<rparr>"
  have "bc_ok ?u" "has ?u b (lstart r)" "bidle ?u" "lstart r \<in> dirtyb ?u \<or> blk ?u (lstart r) = disk ?u (lstart r)"
    using t(2,4,5) hb e ok(2) brestD(1) [OF t(3)] by simp_all
  from bio.brelse_law [OF this(1,3,2,4)] obtain v where v: "brelse b ?u = Ok () v" "bc_ok v" "brest ?u v"
    "disk v = disk t" "dwrites v = dwrites t" "dirtyb v = dirtyb t" "\<And>b' n'. has v b' n' \<longleftrightarrow> has ?u b' n' \<and> b' \<noteq> b" by auto
  have "read_head r = Ok () v"
    using t(1) g n dat v(1) by (simp add: read_head_def log_geom_def bl_def cong: if_cong)
  moreover have "brest (r\<lparr>lh_n := hdr_n h, lh_block := bl\<rparr>) ?u" using t(3) unfolding brest_def by (cases r; cases t) simp
  then have "brest (r\<lparr>lh_n := hdr_n h, lh_block := bl\<rparr>) v" using v(3) by (rule brest_trans)
  moreover have "bio.quiesced 0 v"
    using v t ok e brestD(1) [OF v(3)] brestD(1) [OF t(3)] by (simp add: bio.quiesced_def)
  ultimately show ?thesis using v(4,5) t(5,6) by (intro exI [of _ v] exI [of _ bl]) (simp add: bl_def)
qed

lemma recover_ok:
  assumes g: "log_geom r" and q: "bio.quiesced 0 r"
  defines "h \<equiv> disk r (lstart r)"
  assumes n: "hdr_n h = int n" "n < LOGSIZE" and ho: "homes_ok (lstart r) (disksize r) n (hdr_block h)"
  shows "\<exists>t bl. recover_from_log r = Ok () t \<and> bio.quiesced 0 t \<and> log_geom t \<and> lh_n t = 0 \<and>
    disk t = (fupds (hdr_block h) (\<lambda>i. disk r (LB r i)) n (disk r))(lstart r := head_bytes 0 bl h)"
proof -
  from read_head_ok [OF g q] n obtain a bl where a: "read_head r = Ok () a" "bio.quiesced 0 a"
    "brest (r\<lparr>lh_n := int n, lh_block := bl\<rparr>) a" "disk a = disk r" "length bl = LOGSIZE"
    "\<And>i. i < n \<Longrightarrow> bl ! i = hdr_block h i" unfolding h_def by fastforce
  note A = brest_lst [OF a(3), simplified] brestD(2) [OF a(3), simplified]
  have ga: "log_geom a" using brest_geom [OF a(3)] g a(5) by (simp add: log_geom_def)
  have ba: "blk a = disk r" using quiesced_0 [OF a(2)] a(4) by simp
  have ho': "homes_ok (lstart a) (disksize a) n ((!) (lh_block a))"
    using ho a(6) A by (auto simp: homes_ok_def inj_on_def)
  have LL: "in_log (lstart r) (lstart r)" by (simp add: in_log_def LOGSIZE_def)
  from install_loop [OF ga ho' n(2) a(2)] obtain b where b: "kfor [0..<n] install_step a = Ok () b" "bio.quiesced 0 b"
    "brest a b" "disk b = fupds ((!) (lh_block a)) (\<lambda>i. blk a (LB a i)) n (disk a)" by (auto simp: NBUF_def)
  have db: "disk b = fupds (hdr_block h) (\<lambda>i. disk r (LB r i)) n (disk r)"
    by (rule trans [OF b(4)], unfold ba, unfold a(4), rule fupds_cong) (simp add: A a(6))
  have hd: "disk b (lstart r) = h" unfolding db h_def using ho LL by (intro fupds_out) (auto simp: homes_ok_def h_def)
  let ?b = "b\<lparr>lh_n := 0\<rparr>"
  note B = brest_lst [OF b(3)] brestD(2) [OF b(3)]
  have gb: "log_geom ?b" using brest_geom [OF b(3)] ga by (simp add: log_geom_def)
  have qb: "bio.quiesced 0 ?b" using b(2) by simp
  have "blk b (lstart r) = h" using quiesced_0 [OF b(2)] hd by simp
  with write_head_ok [OF gb qb] A B obtain c where c: "write_head ?b = Ok () c" "bio.quiesced 0 c" "brest ?b c"
    "disk c = (disk b)(lstart r := head_bytes 0 bl h)" by (auto simp: NBUF_def)
  have "recover_from_log r = Ok () c"
    using a(1) b(1) c(1) A by (simp add: recover_from_log_def install_trans_def)
  moreover have "log_geom c" "lh_n c = 0" using brest_geom [OF c(3)] gb brest_lst(6) [OF c(3)] by simp_all
  ultimately show ?thesis using c(2,4) db by (intro exI [of _ c] exI [of _ bl]) simp
qed

section \<open>Crashes\<close>

text \<open>The disk at a crash, by the number of writes that reached it.\<close>

lemma crash_disk:
  assumes r: "ready s n"
  defines "V \<equiv> \<lambda>i. blk s (lh_block s ! i)" and "H \<equiv> head_bytes (int n) (lh_block s) (blk s (lstart s))"
  shows "k \<le> n \<Longrightarrow> replay (disk s) (take k (commit_writes s n)) = fupds (LB s) V k (disk s)"
    and "j \<le> n \<Longrightarrow> replay (disk s) (take (n + 1 + j) (commit_writes s n)) =
      fupds ((!) (lh_block s)) V j ((fupds (LB s) V n (disk s))(lstart s := H))"
    and "replay (disk s) (take (2 * n + 2) (commit_writes s n)) =
      (fupds ((!) (lh_block s)) V n ((fupds (LB s) V n (disk s))(lstart s := H)))(lstart s := head_bytes 0 (lh_block s) H)"
proof -
  let ?A = "map (\<lambda>i. (LB s i, V i)) [0..<n]" and ?B = "map (\<lambda>i. (lh_block s ! i, V i)) [0..<n]"
  have W: "commit_writes s n = ?A @ (lstart s, H) # ?B @ [(lstart s, head_bytes 0 (lh_block s) H)]"
    by (simp add: commit_writes_def V_def H_def Let_def)
  show "replay (disk s) (take k (commit_writes s n)) = fupds (LB s) V k (disk s)" if "k \<le> n"
  proof -
    have "take k (commit_writes s n) = map (\<lambda>i. (LB s i, V i)) [0..<k]" unfolding W using that by (simp add: take_map)
    then show ?thesis by (simp only: replay_map)
  qed
  show "replay (disk s) (take (n + 1 + j) (commit_writes s n)) =
      fupds ((!) (lh_block s)) V j ((fupds (LB s) V n (disk s))(lstart s := H))" if "j \<le> n"
  proof -
    have "take (n + 1 + j) (commit_writes s n) = ?A @ [(lstart s, H)] @ map (\<lambda>i. (lh_block s ! i, V i)) [0..<j]"
      unfolding W using that by (simp add: take_map)
    then show ?thesis by (simp only: replay_append replay_map replay_single)
  qed
  show "replay (disk s) (take (2 * n + 2) (commit_writes s n)) =
      (fupds ((!) (lh_block s)) V n ((fupds (LB s) V n (disk s))(lstart s := H)))(lstart s := head_bytes 0 (lh_block s) H)"
  proof -
    have "take (2 * n + 2) (commit_writes s n) = ?A @ [(lstart s, H)] @ ?B @ [(lstart s, head_bytes 0 (lh_block s) H)]"
      unfolding W by (simp add: take_map)
    then show ?thesis by (simp only: replay_append replay_map replay_single)
  qed
qed

lemma crash_recovers:
  assumes r: "ready s n" and h0: "hdr_n (disk s (lstart s)) = 0" and k: "k \<le> 2 * n + 2"
    and b: "disk r = replay (disk s) (take k (commit_writes s n))" "lstart r = lstart s" "disksize r = disksize s"
      "log_geom r" "bio.quiesced 0 r"
  shows "\<exists>t. recover_from_log r = Ok () t \<and> hdr_n (disk t (lstart s)) = 0 \<and>
    (\<forall>m. \<not> in_log (lstart s) m \<longrightarrow> disk t m = (if k \<le> n then disk s m else blk s m))"
proof -
  have g: "log_geom s" and n: "0 < n" "n < NBUF" and q: "bio.quiesced n s"
    and h: "homes_ok (lstart s) (disksize s) n ((!) (lh_block s))" and d: "dirtyb s = (!) (lh_block s) ` {..<n}"
    using r card_image_le [of "{..<n}" "(!) (lh_block s)"] by (auto simp: ready_def quiesced_settled)
  have nL: "n < LOGSIZE" using n(2) by (simp add: NBUF_def LOGSIZE_def)
  let ?V = "\<lambda>i. blk s (lh_block s ! i)" and ?L = "lstart s"
  define H where "H = head_bytes (int n) (lh_block s) (blk s ?L)"
  note D = crash_disk [OF r, folded H_def]
  have ok: "bc_ok s" "?L < disksize s" using q geom_start [OF g] by (auto simp: quiesced_settled settled_def)
  note H' = hdr_head_bytes [OF length_blkof [OF ok] less_imp_le [OF nL], where bl = "lh_block s", folded H_def]
  have lH: "length H = BSIZE" using head_bytes_props(1) [OF length_blkof [OF ok] less_imp_le [OF nL]] by (simp add: H_def)
  have L: "in_log ?L (LB s i)" "LB s i \<noteq> ?L" if "i < n" for i using LB_props [OF g] that nL by auto
  have LL: "in_log ?L ?L" by (simp add: in_log_def LOGSIZE_def)
  have inj: "inj_on (LB s) {..<n}" using LB_props(6) [OF g] nL by (auto simp: inj_on_def)
  have Bl: "lh_block s ! i \<noteq> m" if "i < n" "in_log ?L m" for i m using that h by (auto simp: homes_ok_def)
  have agree: "disk s m = blk s m" if "m \<notin> dirtyb s" for m using bio.quiesced_agree [OF q that] by simp
  have lr: "length (disk r ?L) = BSIZE"
    using b(2-5) ok(2) bcD(2) [of "bufs r" "disk r" "disksize r"] by (auto simp: quiesced_settled settled_def)
  have z: "hdr_n (head_bytes 0 bl x) = 0" if "length x = BSIZE" for bl x using hdr_head_bytes(1) [OF that, of 0] by simp
  consider (old) "k \<le> n" | (mid) j where "k = n + 1 + j" "j \<le> n" | (fin) "k = 2 * n + 2"
  proof -
    have "k \<le> n \<or> (k = n + 1 + (k - n - 1) \<and> k - n - 1 \<le> n) \<or> k = 2 * n + 2" using k by linarith
    then show thesis using that by blast
  qed
  then show ?thesis
  proof cases
    case old
    have dr: "disk r = fupds (LB s) ?V k (disk s)" using b(1) D(1) [OF old] by simp
    have out: "disk r m = disk s m" if "\<not> in_log ?L m \<or> m = ?L" for m
      unfolding dr using L old that by (intro fupds_out) (metis less_le_trans)
    have hr: "hdr_n (disk r (lstart r)) = int 0" using out [of ?L] h0 b(2) by simp
    from recover_ok [OF b(4,5) hr] obtain t bl where "recover_from_log r = Ok () t"
      "disk t = (disk r)(?L := head_bytes 0 bl (disk r ?L))" by (auto simp: b(2) homes_ok_def LOGSIZE_def)
    then show ?thesis using out old z [OF lr] LL by (intro exI [of _ t]) auto
  next
    case mid
    let ?d = "(fupds (LB s) ?V n (disk s))(?L := H)"
    have dr: "disk r = fupds ((!) (lh_block s)) ?V j ?d" using b(1) D(2) [OF mid(2)] mid(1) by simp
    have lg: "disk r m = ?d m" if "in_log ?L m" for m
      unfolding dr using Bl that mid(2) by (intro fupds_out) (metis less_le_trans)
    have hL: "disk r ?L = H" using lg [OF LL] by simp
    have hr: "hdr_n (disk r (lstart r)) = int n" using hL H'(1) b(2) by simp
    have hb: "hdr_block (disk r (lstart r)) i = lh_block s ! i" if "i < n" for i using hL H'(2) [OF that] b(2) by simp
    have ho: "homes_ok (lstart r) (disksize r) n (hdr_block (disk r (lstart r)))"
      using h hb b(2,3) by (auto simp: homes_ok_def inj_on_def)
    have dL: "disk r (LB r i) = ?V i" if "i < n" for i
      using lg [OF L(1) [OF that]] L(2) [OF that] fupds_in [OF inj that] b(2) by simp
    from recover_ok [OF b(4,5) hr nL ho] obtain t bl where t: "recover_from_log r = Ok () t"
      "disk t = (fupds (hdr_block H) (\<lambda>i. disk r (LB r i)) n (disk r))(?L := head_bytes 0 bl H)" by (auto simp: b(2) hL)
    have dt: "disk t = (fupds ((!) (lh_block s)) ?V n (disk r))(?L := head_bytes 0 bl H)"
      unfolding t(2) using hb dL hL b(2) by (intro arg_cong [where f = "\<lambda>f. f(?L := _)"] fupds_cong) simp
    have "disk t m = blk s m" if "\<not> in_log ?L m" for m
    proof (cases "m \<in> dirtyb s")
      case True
      then obtain i where "i < n" "m = lh_block s ! i" using d by auto
      then show ?thesis using dt h that LL by (auto simp: fupds_in homes_ok_def)
    next
      case False
      then have ne: "lh_block s ! i \<noteq> m" if "i < n" for i using d that by auto
      have mL: "m \<noteq> ?L" using that LL by auto
      have "disk t m = disk r m" using dt mL ne by (simp add: fupds_out)
      also have "\<dots> = ?d m" unfolding dr using ne mid(2) by (intro fupds_out) (metis less_le_trans)
      also have "\<dots> = disk s m" using mL L(1) that by (auto intro: fupds_out)
      finally show ?thesis using agree [OF False] by simp
    qed
    moreover have "hdr_n (disk t ?L) = 0" using dt z [OF lH] by simp
    ultimately show ?thesis using t(1) mid by (intro exI [of _ t]) auto
  next
    case fin
    let ?d = "(fupds (LB s) ?V n (disk s))(?L := H)"
    have dr: "disk r = (fupds ((!) (lh_block s)) ?V n ?d)(?L := head_bytes 0 (lh_block s) H)" using b(1) D(3) fin by simp
    have hr: "hdr_n (disk r (lstart r)) = int 0" using dr z [OF lH] b(2) by simp
    from recover_ok [OF b(4,5) hr] obtain t bl where t: "recover_from_log r = Ok () t"
      "disk t = (disk r)(?L := head_bytes 0 bl (disk r ?L))" by (auto simp: b(2) homes_ok_def LOGSIZE_def)
    have "disk t m = blk s m" if "\<not> in_log ?L m" for m
    proof (cases "m \<in> dirtyb s")
      case True
      then obtain i where "i < n" "m = lh_block s ! i" using d by auto
      then show ?thesis using t(2) dr h that LL by (auto simp: fupds_in homes_ok_def)
    next
      case False
      then have ne: "lh_block s ! i \<noteq> m" if "i < n" for i using d that by auto
      have mL: "m \<noteq> ?L" using that LL by auto
      have "disk t m = fupds ((!) (lh_block s)) ?V n ?d m" using t(2) dr mL by simp
      also have "\<dots> = ?d m" using ne by (rule fupds_out)
      also have "\<dots> = disk s m" using mL L(1) that by (auto intro: fupds_out)
      finally have "disk t m = disk s m" .
      then show ?thesis using agree [OF False] by simp
    qed
    moreover have "hdr_n (disk t ?L) = 0" using t(2) z [OF lr] by simp
    ultimately show ?thesis using t(1) fin n(1) by (intro exI [of _ t]) auto
  qed
qed

section \<open>Logging a block\<close>

lemma log_slot_bound: "0 \<le> n \<Longrightarrow> log_slot n bl bn \<le> nat n"
  by (auto simp: log_slot_def split: option.split dest!: find_idx_Some)

text \<open>The header lists the unwritten blocks, each once.\<close>

definition lh_ok :: "'x lst_scheme \<Rightarrow> bool" where
  "lh_ok s \<longleftrightarrow> length (lh_block s) = LOGSIZE \<and> 0 \<le> lh_n s \<and> lh_n s \<le> int LOGSIZE \<and>
     distinct (take (nat (lh_n s)) (lh_block s)) \<and> dirtyb s = set (take (nat (lh_n s)) (lh_block s))"

lemma log_write_ok:
  assumes h: "has s b n" "bc_ok s" and l: "lh_ok s" "lh_n s < int LOGSIZE" "lh_n s < lsize s - 1" "1 \<le> outstanding s"
    and lk: "LK_log \<notin> set (held s)"
  shows "\<exists>t. log_write b s = Ok () t \<and> t = s\<lparr>bufs := bufs t, lh_n := lh_n t, lh_block := lh_block t\<rparr> \<and>
    bc_ok t \<and> blk t = blk s \<and> has t = has s \<and> dirtyb t = insert n (dirtyb s) \<and> lh_ok t \<and>
    lh_n t = (if n \<in> dirtyb s then lh_n s else lh_n s + 1)"
proof -
  note H = hasD [OF h]
  let ?N = "nat (lh_n s)" and ?bl = "lh_block s" and ?i = "log_slot (lh_n s) (lh_block s) n"
  let ?bs = "(bufs s)[b := (bufs s ! b)\<lparr>dirty := True\<rparr>]"
  let ?t = "s\<lparr>lh_block := ?bl[?i := n], lh_n := (if int ?i = lh_n s then lh_n s + 1 else lh_n s), bufs := ?bs\<rparr>"
  have N: "?N < length ?bl" "int ?N = lh_n s" using l(1,2) by (auto simp: lh_ok_def)
  have lw: "log_write b s = Ok () ?t"
    using H(5) l lk by (simp add: log_write_def Let_def)
  have m: "bc ?bs (disk s) (disksize s) \<and> blkof ?bs (disk s) = blk s \<and> dirtyof ?bs = insert n (dirtyb s) \<and> hasb ?bs = has s"
    using mark_ok [OF h refl] by simp
  have d: "dirtyb s = set (take ?N ?bl)" "distinct (take ?N ?bl)" using l(1) by (auto simp: lh_ok_def)
  have "lh_ok ?t \<and> lh_n ?t = (if n \<in> dirtyb s then lh_n s else lh_n s + 1)"
  proof (cases "n \<in> dirtyb s")
    case True
    then obtain i where i: "find_idx (\<lambda>x. x = n) (take ?N ?bl) = Some i"
      using d(1) find_idx_None [of "\<lambda>x. x = n" "take ?N ?bl"] by (cases "find_idx (\<lambda>x. x = n) (take ?N ?bl)") auto
    then have ii: "i < ?N" "?bl ! i = n" "?i = i" using find_idx_Some [OF i] N by (auto simp: log_slot_def)
    then have "?bl[?i := n] = ?bl" "int ?i \<noteq> lh_n s" using N by auto
    then show ?thesis using l(1) m True by (simp add: lh_ok_def insert_absorb)
  next
    case False
    then have "find_idx (\<lambda>x. x = n) (take ?N ?bl) = None" using d(1) by (auto simp: find_idx_None)
    then have i: "?i = ?N" by (simp add: log_slot_def)
    have tk: "take (Suc ?N) (?bl[?N := n]) = take ?N ?bl @ [n]" using N by (simp add: take_Suc_conv_app_nth)
    obtain k where k: "lh_n s = int k" using N(2) by metis
    then have "nat (lh_n s + 1) = Suc k" by linarith
    with l(1,2) m False N(1) d tk show ?thesis unfolding lh_ok_def i by (simp add: k)
  qed
  moreover define T where "T = ?t"
  moreover have "T = s\<lparr>bufs := bufs T, lh_n := lh_n T, lh_block := lh_block T\<rparr>" by (simp add: T_def)
  moreover have "bc_ok T \<and> blk T = blk s \<and> has T = has s \<and> dirtyb T = insert n (dirtyb s)" using m by (simp add: T_def)
  ultimately show ?thesis using lw unfolding T_def [symmetric] by blast
qed

section \<open>Properties\<close>

definition wit_lst :: "buf list \<Rightarrow> (uint \<Rightarrow> uchar list) \<Rightarrow> int \<Rightarrow> uint list \<Rightarrow> int \<Rightarrow> lst" where
  "wit_lst bs d n bl out = \<lparr>held = [], locking = True, panicked = False, uart = True, uart_out = [],
     crt = \<lambda>_. 0, cpos = 0, mem = \<lambda>_. 0, kend = 0x80100000, use_lock = True, freelist = 0,
     kdata = 0, kpgdir = 0, cr3 = 0, esp0 = 0, procs = replicate 64 proc_zero,
     nextpid = 2, initproc = Some 0, cur = Some 0, ticks = 0,
     disk = d, disksize = 2000, dwrites = [], bufs = bs,
     lstart = 2, lsize = 30, outstanding = out, committing = False, ldev = 1, lh_n = n, lh_block = bl\<rparr>"

lemma wit_lst_sel [simp]:
  "disk (wit_lst bs d n bl out) = d" "disksize (wit_lst bs d n bl out) = 2000" "bufs (wit_lst bs d n bl out) = bs"
  "lstart (wit_lst bs d n bl out) = 2" "ldev (wit_lst bs d n bl out) = 1" "lh_n (wit_lst bs d n bl out) = n"
  "lh_block (wit_lst bs d n bl out) = bl" "held (wit_lst bs d n bl out) = []"
  by (simp_all add: wit_lst_def)

definition wit_clean :: buf where "wit_clean = wit_buf\<lparr>bdev := - 1\<rparr>"

definition wit_dirty :: buf where
  "wit_dirty = wit_buf\<lparr>bdev := 1, blockno := 100, valid := True, dirty := True, bdata := replicate 512 9\<rparr>"

definition wit_zero :: "uint \<Rightarrow> uchar list" where "wit_zero = (\<lambda>_. replicate 512 0)"

definition wit_tx :: lst where
  "wit_tx = wit_lst (wit_bufs (\<lambda>i. if i = 0 then wit_dirty else wit_clean)) wit_zero 1 (100 # replicate 29 0) 0"

lemma wit_tx_ready: "ready wit_tx 1"
proof -
  let ?bs = "wit_bufs (\<lambda>i. if i = 0 then wit_dirty else wit_clean)"
  have f: "bc ?bs wit_zero 2000"
    unfolding bc_def NBUF_def by (auto simp: wit_dirty_def wit_clean_def wit_buf_def wit_zero_def BSIZE_def split: if_splits)
  have "\<not> hasb ?bs b n" for b n
    by (auto simp: hasb_def NBUF_def wit_dirty_def wit_clean_def wit_buf_def split: if_splits)
  moreover have "dirtyof ?bs = {100}"
    by (auto simp: dirtyof_def NBUF_def wit_dirty_def wit_clean_def wit_buf_def split: if_splits intro!: exI [of _ 0])
  ultimately show ?thesis using f
    by (auto simp: ready_def settled_def wit_tx_def wit_lst_def log_geom_def LOGSIZE_def NBUF_def homes_ok_def in_log_def inj_on_def)
qed

lemma wit_fresh: "bc (wit_bufs (\<lambda>_. wit_clean)) d 2000" "dirtyof (wit_bufs (\<lambda>_. wit_clean)) = {}"
  "\<not> hasb (wit_bufs (\<lambda>_. wit_clean)) b n" if "\<And>n. n < 2000 \<Longrightarrow> length (d n) = BSIZE"
  using that by (auto simp: bc_def dirtyof_def hasb_def NBUF_def wit_clean_def wit_buf_def BSIZE_def)


definition wit_boot :: "nat \<Rightarrow> lst" where
  "wit_boot k = wit_lst (wit_bufs (\<lambda>_. wit_clean)) (replay wit_zero (take k (commit_writes wit_tx 1))) 0 (replicate 30 0) 0"


text \<open>
  C18. \<open>commit\<close> on a ready transaction returns, having written the logged blocks to the log, the
  header, the blocks to their homes and the cleared header, in this order; afterwards the disk
  outside the log agrees with what readers saw before, and nothing is unwritten.
\<close>

theorem commit_installs:
  assumes "ready s n"
  shows "\<exists>t. commit s = Ok () t \<and> dwrites t = dwrites s @ commit_writes s n \<and> dirtyb t = {} \<and> lh_n t = 0 \<and>
    (\<forall>m. \<not> in_log (lstart s) m \<longrightarrow> disk t m = blk s m \<and> blk t m = blk s m)"
proof -
  from commit_ok [OF assms] obtain t where t: "commit s = Ok () t" "dwrites t = dwrites s @ commit_writes s n"
    "dirtyb t = {}" "lh_n t = 0" "bio.quiesced n t" "\<forall>m. \<not> in_log (lstart s) m \<longrightarrow> blk t m = blk s m" by blast
  have "disk t m = blk t m" for m using bio.quiesced_agree [OF t(5)] t(3) by simp
  with t show ?thesis by (intro exI [of _ t]) simp
qed

theorem commit_installs_witness:
  "\<exists>t. commit wit_tx = Ok () t \<and> lh_n t = 0 \<and> dirtyb t = {}"
  using commit_installs [OF wit_tx_ready] by blast







end
