(* ===== verification/Inode.thy ===== *)
theory Inode
  imports Log
begin

text \<open>
  The block allocator and the inode layer of \<open>fs.c\<close>. Inodes on disk are kept as the bytes of
  \<open>struct dinode\<close>; an in-memory inode is its index in \<open>icache.inode\<close>.
\<close>

section \<open>Data\<close>

definition NINODE :: nat where "NINODE = 50"
definition NDIRECT :: nat where "NDIRECT = 12"
definition NINDIRECT :: nat where "NINDIRECT = 128"
definition MAXFILE :: nat where "MAXFILE = NDIRECT + NINDIRECT"
definition IPB :: nat where "IPB = 8"
definition BPB :: nat where "BPB = 4096"
definition ROOTINO :: uint where "ROOTINO = 1"
definition ROOTDEV :: uint where "ROOTDEV = 1"
definition T_DIR :: ushort where "T_DIR = 1"
definition T_FILE :: ushort where "T_FILE = 2"
definition T_DEV :: ushort where "T_DEV = 3"

record inode =
  idev :: uint
  inum :: uint
  iref :: int
  ibusy :: bool
  ivalid :: bool
  itype :: ushort
  imajor :: ushort
  iminor :: ushort
  nlink :: ushort
  isize :: uint
  addrs :: "uint list"

record ist = lst +
  sb :: superblock
  inodes :: "inode list"

abbreviation upd_inode :: "nat \<Rightarrow> (inode \<Rightarrow> inode) \<Rightarrow> ('x ist_scheme, unit) kop" where
  "upd_inode i f \<equiv> kmod (\<lambda>s. s\<lparr>inodes := (inodes s)[i := f (inodes s ! i)]\<rparr>)"

definition IBLOCK :: "uint \<Rightarrow> superblock \<Rightarrow> uint" where
  "IBLOCK i x = i div of_nat IPB + sb_inodestart x"

definition BBLOCK :: "uint \<Rightarrow> superblock \<Rightarrow> uint" where
  "BBLOCK b x = b div of_nat BPB + sb_bmapstart x"

text \<open>Storing bytes \<open>vs\<close> at offset \<open>off\<close> of a block.\<close>

definition blit :: "uchar list \<Rightarrow> nat \<Rightarrow> uchar list \<Rightarrow> uchar list" where
  "blit bs off vs = take off bs @ vs @ drop (off + length vs) bs"

section \<open>Blocks\<close>

definition bzero :: "uint \<Rightarrow> uint \<Rightarrow> ('x lst_scheme, unit) kop" where
  "bzero d bno =
     kbind (bread d bno) (\<lambda>bp.
     kthen (kmod (set_bdat bp (replicate BSIZE 0))) (
     kthen (log_write bp) (brelse bp)))"

definition bm_bit :: "uchar list \<Rightarrow> nat \<Rightarrow> bool" where
  "bm_bit bs bi \<longleftrightarrow> (bs ! (bi div 8)) AND push_bit (bi mod 8) 1 \<noteq> 0"

definition bm_set :: "uchar list \<Rightarrow> nat \<Rightarrow> uchar list" where
  "bm_set bs bi = bs[bi div 8 := (bs ! (bi div 8)) OR push_bit (bi mod 8) 1]"

definition bm_clear :: "uchar list \<Rightarrow> nat \<Rightarrow> uchar list" where
  "bm_clear bs bi = bs[bi div 8 := (bs ! (bi div 8)) AND NOT (push_bit (bi mod 8) 1)]"

text \<open>The outer loop of \<open>balloc\<close> over the given values of \<open>b\<close>; the inner loop is the search.\<close>

primrec balloc_loop :: "uint \<Rightarrow> nat list \<Rightarrow> ('x ist_scheme, uint) kop" where
  "balloc_loop d [] = panic ''balloc: out of blocks''"
| "balloc_loop d (b # bs) =
     kbind (kget sb) (\<lambda>sb.
     kbind (bread d (BBLOCK (of_nat b) sb)) (\<lambda>bp.
     kbind (kget (\<lambda>s. find_idx (\<lambda>bi. \<not> bm_bit (bdat s bp) bi) [0..<min BPB (unat (sb_size sb) - b)])) (\<lambda>found.
     case found of
       Some bi \<Rightarrow>
         kthen (kmod (\<lambda>s. set_bdat bp (bm_set (bdat s bp) bi) s)) (
         kthen (log_write bp) (
         kthen (brelse bp) (
         kthen (bzero d (of_nat (b + bi))) (kret (of_nat (b + bi))))))
     | None \<Rightarrow> kthen (brelse bp) (balloc_loop d bs))))"

definition balloc :: "uint \<Rightarrow> ('x ist_scheme, uint) kop" where
  "balloc d =
     kbind (kget (\<lambda>s. unat (sb_size (sb s)))) (\<lambda>n.
     balloc_loop d (map (\<lambda>k. BPB * k) [0..<(n + BPB - 1) div BPB]))"

definition bfree :: "uint \<Rightarrow> uint \<Rightarrow> ('x ist_scheme, unit) kop" where
  "bfree d b =
     kbind (readsb d) (\<lambda>x.
     kthen (kmod (\<lambda>s. s\<lparr>sb := x\<rparr>)) (
     kbind (bread d (BBLOCK b x)) (\<lambda>bp.
     let bi = unat b mod BPB in
     kbind (kget (\<lambda>s. bm_bit (bdat s bp) bi)) (\<lambda>used.
     kthen (kguard (\<not> used) ''freeing free block'') (
     kthen (kmod (\<lambda>s. set_bdat bp (bm_clear (bdat s bp) bi) s)) (
     kthen (log_write bp) (brelse bp)))))))"

section \<open>Inodes on disk\<close>

definition iinit :: "uint \<Rightarrow> ('x ist_scheme, unit) kop" where
  "iinit d =
     kbind (readsb d) (\<lambda>x.
     kthen (kmod (\<lambda>s. s\<lparr>sb := x\<rparr>))
       (cprintf ''sb: size %d nblocks %d ninodes %d nlog %d logstart %d inodestart %d bmap start %d\<newline>''
         [num (sb_size x), num (sb_nblocks x), num (sb_ninodes x), num (sb_nlog x), num (sb_logstart x),
          num (sb_inodestart x), num (sb_bmapstart x)]))"

definition dinode_off :: "uint \<Rightarrow> nat" where
  "dinode_off i = 64 * (unat i mod IPB)"

definition dinode_put :: "inode \<Rightarrow> nat \<Rightarrow> uchar list \<Rightarrow> uchar list" where
  "dinode_put ip off bs =
     fold (\<lambda>k bs. wr32 bs (off + 12 + 4 * k) (addrs ip ! k)) [0..<Suc NDIRECT]
       (wr32 (wr16 (wr16 (wr16 (wr16 bs off (itype ip)) (off + 2) (imajor ip)) (off + 4) (iminor ip))
          (off + 6) (nlink ip)) (off + 8) (isize ip))"

definition dinode_get :: "uchar list \<Rightarrow> nat \<Rightarrow> inode \<Rightarrow> inode" where
  "dinode_get bs off ip =
     ip\<lparr>itype := rd16 bs off, imajor := rd16 bs (off + 2), iminor := rd16 bs (off + 4),
        nlink := rd16 bs (off + 6), isize := rd32 bs (off + 8),
        addrs := map (\<lambda>k. rd32 bs (off + 12 + 4 * k)) [0..<Suc NDIRECT]\<rparr>"

section \<open>The inode cache\<close>

definition iget :: "uint \<Rightarrow> uint \<Rightarrow> ('x ist_scheme, nat) kop" where
  "iget d n =
     kthen (acquire LK_icache) (
     kbind (kget (\<lambda>s. (find_idx (\<lambda>ip. iref ip > 0 \<and> idev ip = d \<and> inum ip = n) (inodes s),
                      find_idx (\<lambda>ip. iref ip = 0) (inodes s)))) (\<lambda>(cached, empty).
     case cached of
       Some i \<Rightarrow> kthen (upd_inode i (\<lambda>ip. ip\<lparr>iref := iref ip + 1\<rparr>)) (kthen (release LK_icache) (kret i))
     | None \<Rightarrow>
         (case empty of
            None \<Rightarrow> panic ''iget: no inodes''
          | Some i \<Rightarrow>
              kthen (upd_inode i (\<lambda>ip. ip\<lparr>idev := d, inum := n, iref := 1, ibusy := False, ivalid := False\<rparr>)) (
              kthen (release LK_icache) (kret i)))))"

primrec ialloc_loop :: "uint \<Rightarrow> ushort \<Rightarrow> nat list \<Rightarrow> ('x ist_scheme, nat) kop" where
  "ialloc_loop d ty [] = panic ''ialloc: no inodes''"
| "ialloc_loop d ty (n # ns) =
     kbind (kget sb) (\<lambda>sb.
     kbind (bread d (IBLOCK (of_nat n) sb)) (\<lambda>bp.
     let off = dinode_off (of_nat n) in
     kbind (kget (\<lambda>s. rd16 (bdat s bp) off)) (\<lambda>t.
     if t = 0 then
       kthen (kmod (\<lambda>s. set_bdat bp (wr16 (blit (bdat s bp) off (replicate 64 0)) off ty) s)) (
       kthen (log_write bp) (
       kthen (brelse bp) (iget d (of_nat n))))
     else kthen (brelse bp) (ialloc_loop d ty ns))))"

definition ialloc :: "uint \<Rightarrow> ushort \<Rightarrow> ('x ist_scheme, nat) kop" where
  "ialloc d ty =
     kbind (kget (\<lambda>s. unat (sb_ninodes (sb s)))) (\<lambda>n. ialloc_loop d ty [1..<n])"

definition iupdate :: "nat \<Rightarrow> ('x ist_scheme, unit) kop" where
  "iupdate i =
     kbind (kget (\<lambda>s. (inodes s ! i, sb s))) (\<lambda>(ip, sb).
     kbind (bread (idev ip) (IBLOCK (inum ip) sb)) (\<lambda>bp.
     kthen (kmod (\<lambda>s. set_bdat bp (dinode_put (inodes s ! i) (dinode_off (inum ip)) (bdat s bp)) s)) (
     kthen (log_write bp) (brelse bp))))"

definition idup :: "nat \<Rightarrow> ('x ist_scheme, nat) kop" where
  "idup i =
     kthen (acquire LK_icache) (
     kthen (upd_inode i (\<lambda>ip. ip\<lparr>iref := iref ip + 1\<rparr>)) (
     kthen (release LK_icache) (kret i)))"

text \<open>\<open>ilock\<close>: one test of the busy flag with the lock held, and the rest once it is clear.\<close>

definition ilock_load :: "nat \<Rightarrow> ('x ist_scheme, unit) kop" where
  "ilock_load i =
     kbind (kget (\<lambda>s. (inodes s ! i, sb s))) (\<lambda>(ip, sb).
     kwhen (\<not> ivalid ip) (
       kbind (bread (idev ip) (IBLOCK (inum ip) sb)) (\<lambda>bp.
       kthen (kmod (\<lambda>s. s\<lparr>inodes := (inodes s)[i := dinode_get (bdat s bp) (dinode_off (inum ip)) (inodes s ! i)]\<rparr>)) (
       kthen (brelse bp) (
       kthen (upd_inode i (\<lambda>ip. ip\<lparr>ivalid := True\<rparr>)) (
       kbind (kget (\<lambda>s. itype (inodes s ! i))) (\<lambda>ty.
       kguard (ty = 0) ''ilock: no type'')))))))"

definition ilock_loop :: "nat \<Rightarrow> ('x ist_scheme, unit) kop" where
  "ilock_loop i =
     kbind (kget (\<lambda>s. ibusy (inodes s ! i))) (\<lambda>b.
     if b then sleep (Ch_inode i) (Some LK_icache)
     else
       kthen (upd_inode i (\<lambda>ip. ip\<lparr>ibusy := True\<rparr>)) (
       kthen (release LK_icache) (ilock_load i)))"

definition ilock :: "nat \<Rightarrow> ('x ist_scheme, unit) kop" where
  "ilock i =
     kbind (kget (\<lambda>s. iref (inodes s ! i))) (\<lambda>r.
     kthen (kguard (r < 1) ''ilock'') (
     kthen (acquire LK_icache) (ilock_loop i)))"

definition ilock_resume :: "nat \<Rightarrow> ('x ist_scheme, unit) kop" where
  "ilock_resume i = kthen (sleep_resume (Some LK_icache)) (ilock_loop i)"

definition iunlock :: "nat \<Rightarrow> ('x ist_scheme, unit) kop" where
  "iunlock i =
     kbind (kget (\<lambda>s. inodes s ! i)) (\<lambda>ip.
     kthen (kguard (\<not> ibusy ip \<or> iref ip < 1) ''iunlock'') (
     kthen (acquire LK_icache) (
     kthen (upd_inode i (\<lambda>ip. ip\<lparr>ibusy := False\<rparr>)) (
     kthen (wakeup (Ch_inode i)) (release LK_icache)))))"

section \<open>Inode content\<close>

definition bmap :: "nat \<Rightarrow> uint \<Rightarrow> ('x ist_scheme, uint) kop" where
  "bmap i bn =
     (if unat bn < NDIRECT then
        kbind (kget (\<lambda>s. (idev (inodes s ! i), addrs (inodes s ! i) ! unat bn))) (\<lambda>(d, addr).
        if addr = 0 then
          kbind (balloc d) (\<lambda>a.
          kthen (upd_inode i (\<lambda>ip. ip\<lparr>addrs := (addrs ip)[unat bn := a]\<rparr>)) (kret a))
        else kret addr)
      else let bi = unat (bn - of_nat NDIRECT) in
      if bi < NINDIRECT then
        kbind (kget (\<lambda>s. (idev (inodes s ! i), addrs (inodes s ! i) ! NDIRECT))) (\<lambda>(d, addr).
        kbind (if addr = 0 then
                 kbind (balloc d) (\<lambda>a.
                 kthen (upd_inode i (\<lambda>ip. ip\<lparr>addrs := (addrs ip)[NDIRECT := a]\<rparr>)) (kret a))
               else kret addr) (\<lambda>ind.
        kbind (bread d ind) (\<lambda>bp.
        kbind (kget (\<lambda>s. rd32 (bdat s bp) (4 * bi))) (\<lambda>addr.
        kbind (if addr = 0 then
                 kbind (balloc d) (\<lambda>a.
                 kthen (kmod (\<lambda>s. set_bdat bp (wr32 (bdat s bp) (4 * bi) a) s)) (
                 kthen (log_write bp) (kret a)))
               else kret addr) (\<lambda>a.
        kthen (brelse bp) (kret a))))))
      else panic ''bmap: out of range'')"

definition itrunc_direct :: "nat \<Rightarrow> nat \<Rightarrow> ('x ist_scheme, unit) kop" where
  "itrunc_direct i k =
     kbind (kget (\<lambda>s. (idev (inodes s ! i), addrs (inodes s ! i) ! k))) (\<lambda>(d, a).
     kwhen (a \<noteq> 0)
       (kthen (bfree d a) (upd_inode i (\<lambda>ip. ip\<lparr>addrs := (addrs ip)[k := 0]\<rparr>))))"

definition itrunc_indirect :: "nat \<Rightarrow> ('x ist_scheme, unit) kop" where
  "itrunc_indirect i =
     kbind (kget (\<lambda>s. (idev (inodes s ! i), addrs (inodes s ! i) ! NDIRECT))) (\<lambda>(d, ind).
     kwhen (ind \<noteq> 0)
       (kbind (bread d ind) (\<lambda>bp.
        kthen (kfor [0..<NINDIRECT] (\<lambda>j.
                 kbind (kget (\<lambda>s. rd32 (bdat s bp) (4 * j))) (\<lambda>a. kwhen (a \<noteq> 0) (bfree d a)))) (
        kthen (brelse bp) (
        kthen (bfree d ind)
          (upd_inode i (\<lambda>ip. ip\<lparr>addrs := (addrs ip)[NDIRECT := 0]\<rparr>)))))))"

definition itrunc :: "nat \<Rightarrow> ('x ist_scheme, unit) kop" where
  "itrunc i =
     kthen (kfor [0..<NDIRECT] (itrunc_direct i)) (
     kthen (itrunc_indirect i) (
     kthen (upd_inode i (\<lambda>ip. ip\<lparr>isize := 0\<rparr>)) (iupdate i)))"

definition iput_free :: "nat \<Rightarrow> ('x ist_scheme, unit) kop" where
  "iput_free i =
     kthen (upd_inode i (\<lambda>ip. ip\<lparr>ibusy := True\<rparr>)) (
     kthen (release LK_icache) (
     kthen (itrunc i) (
     kthen (upd_inode i (\<lambda>ip. ip\<lparr>itype := 0\<rparr>)) (
     kthen (iupdate i) (
     kthen (acquire LK_icache) (
     kthen (upd_inode i (\<lambda>ip. ip\<lparr>ibusy := False, ivalid := False\<rparr>))
       (wakeup (Ch_inode i))))))))"

definition iput :: "nat \<Rightarrow> ('x ist_scheme, unit) kop" where
  "iput i =
     kthen (acquire LK_icache) (
     kbind (kget (\<lambda>s. inodes s ! i)) (\<lambda>ip.
     kthen (kwhen (iref ip = 1 \<and> ivalid ip \<and> nlink ip = 0)
              (kthen (kguard (ibusy ip) ''iput busy'') (iput_free i))) (
     kthen (upd_inode i (\<lambda>ip. ip\<lparr>iref := iref ip - 1\<rparr>)) (release LK_icache))))"

definition iunlockput :: "nat \<Rightarrow> ('x ist_scheme, unit) kop" where
  "iunlockput i = kthen (iunlock i) (iput i)"

text \<open>\<open>struct stat\<close>.\<close>

record stat =
  st_type :: ushort
  st_dev :: uint
  st_ino :: uint
  st_nlink :: ushort
  st_size :: uint

definition stati :: "nat \<Rightarrow> ('x ist_scheme, stat) kop" where
  "stati i = kget (\<lambda>s. let ip = inodes s ! i in
     \<lparr>st_type = itype ip, st_dev = idev ip, st_ino = inum ip, st_nlink = nlink ip, st_size = isize ip\<rparr>)"

section \<open>Locking\<close>

lemma iunlock_ok:
  assumes "i < length (inodes s)" "ibusy (inodes s ! i)" "1 \<le> iref (inodes s ! i)" "LK_icache \<notin> set (held s)" "LK_ptable \<notin> set (held s)"
  shows "iunlock i s = Ok () (s\<lparr>inodes := (inodes s)[i := (inodes s ! i)\<lparr>ibusy := False\<rparr>],
    procs := map (wake_proc (Ch_inode i)) (procs s)\<rparr>)"
proof -
  have "s\<lparr>held := h, inodes := x, procs := pr, held := held s\<rparr> = s\<lparr>inodes := x, procs := pr\<rparr>" for h x pr by (cases s) simp
  with assms show ?thesis by (simp add: iunlock_def wakeup_ok)
qed

lemma ilock_ok:
  assumes "i < length (inodes s)" "\<not> ibusy (inodes s ! i)" "ivalid (inodes s ! i)" "1 \<le> iref (inodes s ! i)" "LK_icache \<notin> set (held s)"
  shows "ilock i s = Ok () (s\<lparr>inodes := (inodes s)[i := (inodes s ! i)\<lparr>ibusy := True\<rparr>]\<rparr>)"
  using assms by (simp add: ilock_def ilock_loop_def ilock_load_def)

section \<open>A sample state\<close>

definition wit_ist :: "lst \<Rightarrow> superblock \<Rightarrow> inode list \<Rightarrow> ist" where
  "wit_ist s x is = lst.extend s (ist.fields x is)"

end
