(* ===== verification/Ring.thy ===== *)
theory Ring
  imports Prelude
begin

text \<open>
  Ring buffers addressed by two free-running 32-bit counters, as \<open>pipe.c\<close> and the input half
  of \<open>console.c\<close> use them: the content, and what storing at the write counter and advancing
  either counter do to it. The laws need the size to divide \<open>2 ^ 32\<close>, so that the slots stay in
  step when a counter wraps around.
\<close>

definition ring_content :: "nat \<Rightarrow> 'a list \<Rightarrow> uint \<Rightarrow> uint \<Rightarrow> 'a list" where
  "ring_content n buf r w = map (\<lambda>i. buf ! (unat (r + of_nat i) mod n)) [0..<unat (w - r)]"

lemma length_ring_content [simp]: "length (ring_content n buf r w) = unat (w - r)"
  by (simp add: ring_content_def)

lemma ring_content_empty [simp]: "ring_content n buf r r = []"
  by (simp add: ring_content_def)

lemma unat_minus_Suc: "unat (w - r) < 4294967295 \<Longrightarrow> unat (w + 1 - r) = Suc (unat (w - r))" for w r :: uint
  using unat_add_of_nat [of "w - r" 1] by (simp add: algebra_simps)

lemma unat_minus_pred: "w \<noteq> r \<Longrightarrow> unat (w - r) = Suc (unat (w - (r + 1)))" for w r :: uint
proof -
  assume "w \<noteq> r"
  then have "w - r \<noteq> 0" by simp
  then have "unat (w - r - 1) = unat (w - r) - 1" "0 < unat (w - r)"
    by (simp_all add: unat_minus_one unat_gt_0)
  then show ?thesis by (simp add: algebra_simps)
qed

lemma ring_content_append:
  assumes "unat (w - r) \<le> unat (e - r)"
  shows "ring_content n buf r w @ ring_content n buf w e = ring_content n buf r e"
proof -
  have "e - w = (e - r) - (w - r)" by simp
  then have "unat (e - w) = unat (e - r) - unat (w - r)"
    using assms unat_sub [of "w - r" "e - r"] by (simp only: word_le_nat_alt)
  then have l: "unat (e - r) = unat (w - r) + unat (e - w)" using assms by simp
  have "map (\<lambda>i. buf ! (unat (r + of_nat i) mod n)) [unat (w - r)..<unat (w - r) + unat (e - w)] =
      map (\<lambda>i. buf ! (unat (w + of_nat i) mod n)) [0..<unat (e - w)]"
  proof (rule nth_equalityI)
    show "length (map (\<lambda>i. buf ! (unat (r + of_nat i) mod n)) [unat (w - r)..<unat (w - r) + unat (e - w)]) =
        length (map (\<lambda>i. buf ! (unat (w + of_nat i) mod n)) [0..<unat (e - w)])" by simp
    fix i assume "i < length (map (\<lambda>i. buf ! (unat (r + of_nat i) mod n)) [unat (w - r)..<unat (w - r) + unat (e - w)])"
    moreover have "r + of_nat (unat (w - r) + i) = w + of_nat i" by simp
    ultimately show "map (\<lambda>i. buf ! (unat (r + of_nat i) mod n)) [unat (w - r)..<unat (w - r) + unat (e - w)] ! i =
        map (\<lambda>i. buf ! (unat (w + of_nat i) mod n)) [0..<unat (e - w)] ! i"
      by (simp del: of_nat_add)
  qed
  moreover have "[0..<unat (e - r)] = [0..<unat (w - r)] @ [unat (w - r)..<unat (w - r) + unat (e - w)]"
    unfolding l by (rule upt_add_eq_append) simp
  ultimately show ?thesis by (simp add: ring_content_def)
qed

locale ring_size =
  fixes n :: nat
  assumes pos: "0 < n" and wraps: "n dvd 4294967296"
begin

lemma unat_add_mod: "unat (x + y) mod n = (unat x + unat y) mod n" for x y :: uint
  using wraps by (simp add: unat_word_ariths mod_mod_cancel)

lemma slots_differ:
  fixes r :: uint
  assumes "i < k" "k < i + n" "k < 4294967296"
  shows "unat (r + of_nat i) mod n \<noteq> unat (r + of_nat k) mod n"
proof
  assume "unat (r + of_nat i) mod n = unat (r + of_nat k) mod n"
  then have "(unat r + i) mod n = (unat r + k) mod n"
    using assms by (simp add: unat_add_mod unat_of_nat_uint)
  then have "n dvd (unat r + k) - (unat r + i)" using assms(1) mod_eq_dvd_iff_nat [of "unat r + i" "unat r + k" n] by simp
  then have "n dvd k - i" by simp
  with assms show False by (auto dest!: dvd_imp_le)
qed

lemma push:
  assumes "length buf = n" "unat (w - r) < n" "n < 4294967296"
  shows "ring_content n (buf[unat w mod n := c]) r (w + 1) = ring_content n buf r w @ [c]"
proof -
  let ?k = "unat (w - r)"
  have k: "?k < 4294967295" using assms by simp
  have w: "w = r + of_nat ?k" by simp
  have "buf[unat w mod n := c] ! (unat (r + of_nat i) mod n) = buf ! (unat (r + of_nat i) mod n)" if "i < ?k" for i
    using slots_differ [of i ?k r] that assms by simp
  moreover have "buf[unat w mod n := c] ! (unat (r + of_nat ?k) mod n) = c"
    using assms(1) pos by simp
  ultimately show ?thesis unfolding ring_content_def unat_minus_Suc [OF k] by simp
qed

lemma pop:
  assumes "w \<noteq> r"
  shows "ring_content n buf r w = buf ! (unat r mod n) # ring_content n buf (r + 1) w"
proof -
  have "[0..<unat (w - r)] = 0 # map Suc [0..<unat (w - (r + 1))]"
    by (simp add: unat_minus_pred [OF assms] upt_conv_Cons map_Suc_upt del: upt_Suc)
  then show ?thesis by (simp add: ring_content_def comp_def algebra_simps)
qed

lemma unpush:
  assumes "w \<noteq> r"
  shows "ring_content n buf r (w - 1) = butlast (ring_content n buf r w)"
proof -
  have "w - r \<noteq> 0" using assms by simp
  then have "unat (w - r - 1) = unat (w - r) - 1" by (simp add: unat_minus_one)
  moreover have "w - 1 - r = w - r - 1" by simp
  ultimately have "unat (w - 1 - r) = unat (w - r) - 1" by metis
  moreover obtain k where "unat (w - r) = Suc k" using \<open>w - r \<noteq> 0\<close> by (metis not0_implies_Suc unat_eq_0)
  ultimately show ?thesis by (simp add: ring_content_def)
qed

end

end
