(* ===== verification/ConsoleIn.thy ===== *)
theory ConsoleIn
  imports Inode Ring
begin

text \<open>
  The input half of \<open>console.c\<close>: the line buffer that the keyboard and serial interrupts fill
  and \<open>consoleread\<close> empties, and the console device's \<open>write\<close>. \<open>devcons\<close> says whether
  \<open>consoleinit\<close> has entered the console in \<open>devsw\<close>.
\<close>

section \<open>Data\<close>

definition INPUT_BUF :: nat where "INPUT_BUF = 128"

record cst = ist +
  inp_buf :: "uchar list"
  inp_r :: uint
  inp_w :: uint
  inp_e :: uint
  devcons :: bool

section \<open>Interrupts\<close>

text \<open>
  \<open>C('U')\<close>: erase the line. Each turn takes one step towards \<open>input.w\<close>, so \<open>e - w\<close> turns are
  enough.
\<close>

primrec kill_line :: "nat \<Rightarrow> ('x cst_scheme, unit) kop" where
  "kill_line 0 = kret ()"
| "kill_line (Suc n) =
     kbind (kget (\<lambda>s. inp_e s \<noteq> inp_w s \<and> inp_buf s ! (unat (inp_e s - 1) mod INPUT_BUF) \<noteq> 10)) (\<lambda>go.
     if go then kthen (kmod (\<lambda>s. s\<lparr>inp_e := inp_e s - 1\<rparr>)) (kthen (consputc BACKSPACE) (kill_line n))
     else kret ())"

definition cons_char :: "int \<Rightarrow> ('x cst_scheme, unit) kop" where
  "cons_char c =
     kbind (kget (\<lambda>s. inp_e s - inp_r s < of_nat INPUT_BUF)) (\<lambda>room.
     kwhen (c \<noteq> 0 \<and> room) (
       let c = (if c = 13 then 10 else c) in
       kthen (kmod (\<lambda>s. s\<lparr>inp_buf := (inp_buf s)[unat (inp_e s) mod INPUT_BUF := word_of_int c],
                        inp_e := inp_e s + 1\<rparr>)) (
       kthen (consputc c) (
       kbind (kget (\<lambda>s. c = 10 \<or> c = 4 \<or> inp_e s = inp_r s + of_nat INPUT_BUF)) (\<lambda>fin.
       kwhen fin (kthen (kmod (\<lambda>s. s\<lparr>inp_w := inp_e s\<rparr>)) (wakeup Ch_input)))))))"

text \<open>One turn of the loop of \<open>consoleintr\<close>; the result says whether to call \<open>procdump\<close>.\<close>

definition cons_step :: "int \<Rightarrow> ('x cst_scheme, bool) kop" where
  "cons_step c =
     (if c = 0x10 then kret True
      else if c = 0x15 then kthen (kbind (kget (\<lambda>s. unat (inp_e s - inp_w s))) kill_line) (kret False)
      else if c = 8 \<or> c = 0x7F then
        kbind (kget (\<lambda>s. inp_e s \<noteq> inp_w s)) (\<lambda>go.
        kthen (kwhen go (kthen (kmod (\<lambda>s. s\<lparr>inp_e := inp_e s - 1\<rparr>)) (consputc BACKSPACE))) (kret False))
      else kthen (cons_char c) (kret False))"

primrec cons_loop :: "int list \<Rightarrow> bool \<Rightarrow> ('x cst_scheme, bool) kop" where
  "cons_loop [] d = kret d"
| "cons_loop (c # cs) d = kbind (cons_step c) (\<lambda>p. cons_loop cs (d \<or> p))"

text \<open>\<open>cs\<close> are the values \<open>getc\<close> returns before the first negative one.\<close>

definition consoleintr :: "int list \<Rightarrow> ('x cst_scheme, unit) kop" where
  "consoleintr cs =
     kthen (acquire LK_cons) (
     kbind (cons_loop cs False) (\<lambda>dump.
     kthen (release LK_cons) (kwhen dump procdump)))"

section \<open>The device\<close>

text \<open>
  The loop of \<open>consoleread\<close> with \<open>off\<close> bytes delivered and \<open>n\<close> to go. None: the process was
  killed while it waited. If there is nothing to read the process sleeps.
\<close>

primrec consoleread_loop :: "cdst \<Rightarrow> nat \<Rightarrow> nat \<Rightarrow> ('x cst_scheme, uchar list option) kop" where
  "consoleread_loop dst off 0 = kret (Some [])"
| "consoleread_loop dst off (Suc n) =
     kbind (kget (\<lambda>s. inp_r s = inp_w s)) (\<lambda>none.
     if none then
       kbind myproc (\<lambda>p.
       kbind (kget (\<lambda>s. killed (procs s ! p))) (\<lambda>k.
       if k then kret None
       else kthen (sleep Ch_input (Some LK_cons)) (kret None)))
     else
       kbind (kget (\<lambda>s. inp_buf s ! (unat (inp_r s) mod INPUT_BUF))) (\<lambda>c.
       kthen (kmod (\<lambda>s. s\<lparr>inp_r := inp_r s + 1\<rparr>)) (
       if c = 4 then
         kthen (kwhen (off > 0) (kmod (\<lambda>s. s\<lparr>inp_r := inp_r s - 1\<rparr>))) (kret (Some []))
       else
         kthen (deliver dst off [c]) (
         if c = 10 then kret (Some [c])
         else kbind (consoleread_loop dst (Suc off) n) (\<lambda>r. kret (map_option (\<lambda>cs. c # cs) r))))))"

definition consoleread_end :: "nat \<Rightarrow> nat \<Rightarrow> uchar list option \<Rightarrow> ('x cst_scheme, int \<times> uchar list) kop" where
  "consoleread_end ip off r =
     kthen (release LK_cons) (
     kthen (ilock ip) (
     kret (case r of None \<Rightarrow> (- 1, []) | Some cs \<Rightarrow> (int (off + length cs), cs))))"

definition consoleread :: "nat \<Rightarrow> cdst \<Rightarrow> int \<Rightarrow> ('x cst_scheme, int \<times> uchar list) kop" where
  "consoleread ip dst n =
     kthen (iunlock ip) (
     kthen (acquire LK_cons) (
     kbind (consoleread_loop dst 0 (nat n)) (consoleread_end ip 0)))"

definition consoleread_resume :: "nat \<Rightarrow> cdst \<Rightarrow> int \<Rightarrow> nat \<Rightarrow> ('x cst_scheme, int \<times> uchar list) kop" where
  "consoleread_resume ip dst n off =
     kthen (sleep_resume (Some LK_cons)) (
     kbind (consoleread_loop dst off (nat n - off)) (consoleread_end ip off))"

definition consolewrite :: "nat \<Rightarrow> csrc \<Rightarrow> int \<Rightarrow> ('x cst_scheme, int) kop" where
  "consolewrite ip src n =
     kthen (iunlock ip) (
     kthen (acquire LK_cons) (
     kthen (kfor [0..<nat n] (\<lambda>i. kbind (fetch src i 1) (\<lambda>bs. consputc (uint (hd bs))))) (
     kthen (release LK_cons) (
     kthen (ilock ip) (kret n)))))"

definition consoleinit :: "('x cst_scheme, unit) kop" where
  "consoleinit = kmod (\<lambda>s. s\<lparr>devcons := True, locking := True\<rparr>)"

section \<open>The line buffer\<close>

interpretation inp: ring_size INPUT_BUF
  by unfold_locales (simp_all add: INPUT_BUF_def)

text \<open>
  The bytes that \<open>consoleread\<close> may take, and the line being typed. Between them they fill the
  buffer from \<open>r\<close> to \<open>e\<close>; the line being typed has no newline in it.
\<close>

definition rdy :: "'x cst_scheme \<Rightarrow> uchar list" where
  "rdy s = ring_content INPUT_BUF (inp_buf s) (inp_r s) (inp_w s)"

definition editing :: "'x cst_scheme \<Rightarrow> uchar list" where
  "editing s = ring_content INPUT_BUF (inp_buf s) (inp_w s) (inp_e s)"

definition line_ok :: "'x cst_scheme \<Rightarrow> bool" where
  "line_ok s \<longleftrightarrow> length (inp_buf s) = INPUT_BUF \<and> unat (inp_w s - inp_r s) \<le> unat (inp_e s - inp_r s) \<and>
     unat (inp_e s - inp_r s) \<le> INPUT_BUF \<and> 10 \<notin> set (editing s)"

text \<open>What one character does to the two, seen from outside.\<close>

definition line_step :: "int \<Rightarrow> uchar list \<times> uchar list \<Rightarrow> uchar list \<times> uchar list" where
  "line_step c q = (case q of (ls, ed) \<Rightarrow>
     if c = 0x10 then (ls, ed)
     else if c = 0x15 then (ls, [])
     else if c = 8 \<or> c = 0x7F then (ls, butlast ed)
     else if c \<noteq> 0 \<and> length ls + length ed < INPUT_BUF then
       let c = (if c = 13 then 10 else c); ed = ed @ [word_of_int c] in
       if c = 10 \<or> c = 4 \<or> length ls + length ed = INPUT_BUF then (ls @ ed, []) else (ls, ed)
     else (ls, ed))"

lemma rdy_editing_lengths:
  "length (rdy s) = unat (inp_w s - inp_r s)" "length (editing s) = unat (inp_e s - inp_w s)"
  by (simp_all add: rdy_def editing_def)

lemma line_okD:
  assumes "line_ok s"
  shows "rdy s @ editing s = ring_content INPUT_BUF (inp_buf s) (inp_r s) (inp_e s)"
    "unat (inp_e s - inp_r s) = length (rdy s) + length (editing s)"
proof -
  show e: "rdy s @ editing s = ring_content INPUT_BUF (inp_buf s) (inp_r s) (inp_e s)"
    using assms by (simp add: rdy_def editing_def line_ok_def ring_content_append)
  then have "length (rdy s @ editing s) = unat (inp_e s - inp_r s)" by simp
  then show "unat (inp_e s - inp_r s) = length (rdy s) + length (editing s)" by simp
qed

lemma line_push:
  assumes "line_ok s" "unat (inp_e s - inp_r s) < INPUT_BUF"
    and t: "t = s\<lparr>inp_buf := (inp_buf s)[unat (inp_e s) mod INPUT_BUF := c], inp_e := inp_e s + 1\<rparr>"
  shows "length (inp_buf t) = INPUT_BUF" "rdy t = rdy s" "editing t = editing s @ [c]"
    "unat (inp_e t - inp_r t) = Suc (unat (inp_e s - inp_r s))"
    "unat (inp_w t - inp_r t) \<le> unat (inp_e t - inp_r t)"
proof -
  have len: "length (inp_buf s) = INPUT_BUF" and le: "unat (inp_w s - inp_r s) \<le> unat (inp_e s - inp_r s)"
    using assms(1) by (auto simp: line_ok_def)
  show "length (inp_buf t) = INPUT_BUF" by (simp add: t len)
  show e: "unat (inp_e t - inp_r t) = Suc (unat (inp_e s - inp_r s))"
    using unat_minus_Suc [of "inp_e s" "inp_r s"] assms(2) by (simp add: t INPUT_BUF_def)
  show w: "unat (inp_w t - inp_r t) \<le> unat (inp_e t - inp_r t)" unfolding e using le by (simp add: t)
  have "ring_content INPUT_BUF (inp_buf t) (inp_r t) (inp_e t) = ring_content INPUT_BUF (inp_buf s) (inp_r s) (inp_e s) @ [c]"
    using inp.push [of "inp_buf s" "inp_e s" "inp_r s" c] len assms(2) by (simp add: t INPUT_BUF_def)
  moreover have "rdy t @ editing t = ring_content INPUT_BUF (inp_buf t) (inp_r t) (inp_e t)"
    using w by (simp add: rdy_def editing_def ring_content_append)
  ultimately have "rdy t @ editing t = rdy s @ editing s @ [c]" using line_okD(1) [OF assms(1)] by simp
  moreover have "length (rdy t) = length (rdy s)" by (simp add: rdy_editing_lengths t)
  ultimately show "rdy t = rdy s" "editing t = editing s @ [c]" by simp_all
qed

lemma line_unpush:
  assumes "line_ok s" "inp_e s \<noteq> inp_w s" and t: "t = s\<lparr>inp_e := inp_e s - 1\<rparr>"
  shows "line_ok t" "rdy t = rdy s" "editing t = butlast (editing s)" "editing s \<noteq> []"
    "last (editing s) = inp_buf s ! (unat (inp_e s - 1) mod INPUT_BUF)"
proof -
  show r: "rdy t = rdy s" by (simp add: rdy_def t)
  show e: "editing t = butlast (editing s)"
    using inp.unpush [of "inp_e s" "inp_w s"] assms(2) by (simp add: editing_def t)
  have n: "unat (inp_e s - inp_w s) = Suc (unat (inp_e s - 1 - inp_w s))"
    using unat_minus_pred [of "inp_e s" "inp_w s"] assms(2) by (simp add: algebra_simps)
  then show ne: "editing s \<noteq> []" using rdy_editing_lengths(2) [of s] by auto
  have "last (editing s) = editing s ! unat (inp_e s - 1 - inp_w s)"
    using ne n rdy_editing_lengths(2) [of s] by (simp add: last_conv_nth)
  also have "\<dots> = inp_buf s ! (unat (inp_w s + of_nat (unat (inp_e s - 1 - inp_w s))) mod INPUT_BUF)"
    using n by (simp add: editing_def ring_content_def nth_append)
  finally show "last (editing s) = inp_buf s ! (unat (inp_e s - 1) mod INPUT_BUF)" by simp
  have "unat (inp_e s - inp_r s) = length (rdy s) + length (editing s)" by (rule line_okD(2) [OF assms(1)])
  then have p: "inp_e s \<noteq> inp_r s" using ne by auto
  then have q: "unat (inp_e s - inp_r s) = Suc (unat (inp_e s - 1 - inp_r s))"
    using unat_minus_pred [of "inp_e s" "inp_r s"] by (simp add: algebra_simps)
  have "length (editing t) = length (editing s) - 1" "0 < length (editing s)" using e ne by simp_all
  moreover have "unat (inp_e t - inp_r t) = unat (inp_e s - 1 - inp_r s)" by (simp add: t)
  ultimately have u: "unat (inp_e t - inp_r t) = length (rdy s) + length (editing t)"
    using line_okD(2) [OF assms(1)] q by linarith
  have "length (inp_buf t) = INPUT_BUF" "unat (inp_e s - inp_r s) \<le> INPUT_BUF" "10 \<notin> set (editing s)"
    "unat (inp_w t - inp_r t) = length (rdy s)"
    using assms(1) rdy_editing_lengths(1) [of s] by (auto simp: line_ok_def t)
  then show "line_ok t"
    using u q \<open>unat (inp_e t - inp_r t) = unat (inp_e s - 1 - inp_r s)\<close> e
    unfolding line_ok_def by (auto dest: in_set_butlastD)
qed

lemma cons_upd_input:
  assumes "cons_upd s out (t :: 'x cst_scheme)"
  shows "inp_buf t = inp_buf s" "inp_r t = inp_r s" "inp_w t = inp_w s" "inp_e t = inp_e s" "procs t = procs s"
    "rdy t = rdy s" "editing t = editing s" "line_ok t = line_ok s" "held t = held s" "cons_ok t"
  using assms by (auto elim!: cons_updE simp: rdy_def editing_def line_ok_def)

text \<open>What stays the same while characters are taken in, and the readers that wake up.\<close>

definition typed :: "'x cst_scheme \<Rightarrow> 'x cst_scheme \<Rightarrow> bool" where
  "typed s t \<longleftrightarrow> line_ok t \<and> cons_ok t \<and> held t = held s \<and>
     (procs t = procs s \<and> rdy t = rdy s \<or> procs t = map (wake_proc Ch_input) (procs s)) \<and>
     (\<exists>b r w e u c p pr. t = s\<lparr>inp_buf := b, inp_r := r, inp_w := w, inp_e := e, uart_out := u, crt := c, cpos := p, procs := pr\<rparr>)"

lemma wake_proc_idem [simp]: "wake_proc ch (wake_proc ch p) = wake_proc ch p"
  by (simp add: wake_proc_def)

lemma typed_refl: "line_ok s \<Longrightarrow> cons_ok s \<Longrightarrow> typed s s"
  unfolding typed_def
  by (intro conjI exI [of _ "inp_buf s"] exI [of _ "inp_r s"] exI [of _ "inp_w s"] exI [of _ "inp_e s"]
      exI [of _ "uart_out s"] exI [of _ "crt s"] exI [of _ "cpos s"] exI [of _ "procs s"]) simp_all

lemma typedD:
  assumes "typed s t"
  shows "line_ok t" "cons_ok t" "held t = held s"
    "procs t = procs s \<and> rdy t = rdy s \<or> procs t = map (wake_proc Ch_input) (procs s)"
  using assms unfolding typed_def by blast+

lemma typed_inodes: "typed s t \<Longrightarrow> inodes t = inodes s"
  unfolding typed_def by (elim conjE exE) simp

lemma typed_trans:
  assumes "typed s t" "typed t u"
  shows "typed s u"
proof -
  from assms(1) obtain b r w e uo c p pr where
    t: "t = s\<lparr>inp_buf := b, inp_r := r, inp_w := w, inp_e := e, uart_out := uo, crt := c, cpos := p, procs := pr\<rparr>"
    unfolding typed_def by blast
  from assms(2) obtain b' r' w' e' uo' c' p' pr' where
    "u = t\<lparr>inp_buf := b', inp_r := r', inp_w := w', inp_e := e', uart_out := uo', crt := c', cpos := p', procs := pr'\<rparr>"
    unfolding typed_def by blast
  then have "u = s\<lparr>inp_buf := b', inp_r := r', inp_w := w', inp_e := e', uart_out := uo', crt := c', cpos := p', procs := pr'\<rparr>"
    unfolding t by simp
  moreover have "procs u = procs s \<and> rdy u = rdy s \<or> procs u = map (wake_proc Ch_input) (procs s)"
    using typedD(4) [OF assms(1)] typedD(4) [OF assms(2)] by (auto simp: comp_def)
  ultimately show ?thesis
    using typedD(3) [OF assms(1)] typedD(1-3) [OF assms(2)] unfolding typed_def by metis
qed

lemma typedI:
  assumes "line_ok t" "cons_ok t"
    "procs t = procs s \<and> rdy t = rdy s \<or> procs t = map (wake_proc Ch_input) (procs s)"
    "t = s\<lparr>inp_buf := b, inp_w := w, inp_e := e, uart_out := uo, crt := c, cpos := p, procs := pr\<rparr>"
  shows "typed s t"
proof -
  have "t = s\<lparr>inp_buf := b, inp_r := inp_r s, inp_w := w, inp_e := e, uart_out := uo, crt := c, cpos := p, procs := pr\<rparr>"
    unfolding assms(4) by (cases s) simp
  moreover have "held t = held s" unfolding assms(4) by simp
  ultimately show ?thesis using assms(1-3) unfolding typed_def by blast
qed

lemma consputc_typed:
  assumes "cons_ok s" "line_ok s"
  shows "\<exists>t. consputc c s = Ok () t \<and> typed s t \<and> rdy t = rdy s \<and> editing t = editing s \<and> procs t = procs s \<and>
    inp_e t = inp_e s \<and> inp_r t = inp_r s \<and> inp_w t = inp_w s \<and> inp_buf t = inp_buf s"
proof -
  from consputc_runs [OF assms(1), of c] obtain t where t: "consputc c s = Ok () t" "cons_upd s (putc_bytes c) t"
    by (auto simp: runs_iff)
  note u = cons_upd_input [OF t(2)]
  from t(2) obtain cc p where "t = s\<lparr>uart_out := uart_out s @ (if uart s then putc_bytes c else []), crt := cc, cpos := p\<rparr>"
    by (rule cons_updE)
  then have "t = s\<lparr>inp_buf := inp_buf s, inp_w := inp_w s, inp_e := inp_e s,
      uart_out := uart_out s @ (if uart s then putc_bytes c else []), crt := cc, cpos := p, procs := procs s\<rparr>"
    by (cases s) simp
  then have "typed s t" by (rule typedI [rotated 3]) (use u assms in simp_all)
  with t(1) u show ?thesis by blast
qed

lemma kill_line_ok:
  assumes "line_ok s" "cons_ok s" "n = length (editing s)"
  shows "\<exists>t. kill_line n s = Ok () t \<and> typed s t \<and> rdy t = rdy s \<and> editing t = [] \<and> procs t = procs s"
  using assms
proof (induction n arbitrary: s)
  case 0
  then show ?case by (simp add: typed_refl)
next
  case (Suc n)
  then have ne: "inp_e s \<noteq> inp_w s" using rdy_editing_lengths(2) [of s] by auto
  let ?s = "s\<lparr>inp_e := inp_e s - 1\<rparr>"
  note u = line_unpush [OF Suc.prems(1) ne refl]
  have nl: "inp_buf s ! (unat (inp_e s - 1) mod INPUT_BUF) \<noteq> 10"
    using u(4,5) Suc.prems(1) last_in_set by (metis line_ok_def)
  have c: "cons_ok ?s" using Suc.prems(2) by (simp add: cons_ok_def)
  have "?s = s\<lparr>inp_buf := inp_buf s, inp_w := inp_w s, inp_e := inp_e s - 1, uart_out := uart_out s, crt := crt s,
      cpos := cpos s, procs := procs s\<rparr>" by (cases s) simp
  then have ty: "typed s ?s" by (rule typedI [rotated 3]) (use u c in simp_all)
  obtain t where t: "consputc BACKSPACE ?s = Ok () t" "typed ?s t" "rdy t = rdy s" "editing t = butlast (editing s)" "procs t = procs s"
    using consputc_typed [OF c u(1), of BACKSPACE] u(2,3) by auto
  have "n = length (editing t)" using Suc.prems(3) t(4) by simp
  from Suc.IH [OF typedD(1,2) [OF t(2)] this] obtain v where
    v: "kill_line n t = Ok () v" "typed t v" "rdy v = rdy t" "editing v = []" "procs v = procs t" by blast
  have "kill_line (Suc n) s = Ok () v" using ne nl t(1) v(1) by simp
  moreover have "typed s v" by (rule typed_trans [OF typed_trans [OF ty t(2)] v(2)])
  ultimately show ?case using v t by auto
qed

lemma cons_char_ok:
  assumes "line_ok s" "cons_ok s" "LK_ptable \<notin> set (held s)" "0 \<le> c" "c < 256"
    "c \<noteq> 0x10" "c \<noteq> 0x15" "c \<noteq> 8" "c \<noteq> 0x7F"
  shows "\<exists>t. cons_char c s = Ok () t \<and> typed s t \<and> (rdy t, editing t) = line_step c (rdy s, editing s)"
proof (cases "c \<noteq> 0 \<and> unat (inp_e s - inp_r s) < INPUT_BUF")
  case False
  then have "cons_char c s = Ok () s"
    by (auto simp: cons_char_def word_less_nat_alt INPUT_BUF_def)
  moreover have "line_step c (rdy s, editing s) = (rdy s, editing s)"
    using False assms line_okD(2) [OF assms(1)] by (auto simp: line_step_def)
  ultimately show ?thesis using assms(1,2) by (auto intro: typed_refl)
next
  case True
  define d where "d = (if c = 13 then 10 else c)"
  let ?s = "s\<lparr>inp_buf := (inp_buf s)[unat (inp_e s) mod INPUT_BUF := word_of_int d], inp_e := inp_e s + 1\<rparr>"
  note P = line_push [OF assms(1) conjunct2 [OF True] refl, of "word_of_int d"]
  have c: "cons_ok ?s" using assms(2) by (simp add: cons_ok_def)
  have "uint (word_of_int d :: uchar) = d"
    using assms(4,5) by (simp add: unsigned_of_int take_bit_eq_mod d_def)
  then have d10: "(word_of_int d :: uchar) = 10 \<longleftrightarrow> d = 10" by auto
  obtain t where t: "consputc d ?s = Ok () t" "cons_upd ?s (putc_bytes d) t"
    using consputc_runs [OF c, of d] by (auto simp: runs_iff)
  note U = cons_upd_input [OF t(2)]
  from t(2) obtain cc p uo where "t = ?s\<lparr>uart_out := uo, crt := cc, cpos := p\<rparr>" by (rule cons_updE)
  then have te: "t = s\<lparr>inp_buf := inp_buf ?s, inp_w := inp_w s, inp_e := inp_e s + 1, uart_out := uo, crt := cc,
      cpos := p, procs := procs s\<rparr>" by (cases s) simp
  have ne: "unat (inp_e t - inp_r t) = length (rdy s) + length (editing s @ [word_of_int d])"
    using P(4) line_okD(2) [OF assms(1)] U by simp
  have full: "inp_e t = inp_r t + of_nat INPUT_BUF \<longleftrightarrow> length (rdy s) + length (editing s @ [word_of_int d]) = INPUT_BUF"
  proof -
    have "inp_e t = inp_r t + of_nat INPUT_BUF \<longleftrightarrow> inp_e t - inp_r t = of_nat INPUT_BUF" by (auto simp: algebra_simps)
    also have "\<dots> \<longleftrightarrow> unat (inp_e t - inp_r t) = unat (of_nat INPUT_BUF :: uint)" by (rule word_unat_eq_iff)
    also have "unat (of_nat INPUT_BUF :: uint) = INPUT_BUF" by (simp add: INPUT_BUF_def)
    finally show ?thesis unfolding ne .
  qed
  have room: "inp_e s - inp_r s < of_nat INPUT_BUF"
    using conjunct2 [OF True] by (simp add: word_less_nat_alt INPUT_BUF_def)
  define fin where "fin \<longleftrightarrow> d = 10 \<or> d = 4 \<or> inp_e t = inp_r t + of_nat INPUT_BUF"
  have run: "cons_char c s = (if fin then kthen (kmod (\<lambda>s. s\<lparr>inp_w := inp_e s\<rparr>)) (wakeup Ch_input) t else Ok () t)"
    using True room t(1) by (simp add: cons_char_def Let_def d_def [symmetric] fin_def)
  have spec: "line_step c (rdy s, editing s) = (if fin then (rdy s @ editing s @ [word_of_int d], [])
      else (rdy s, editing s @ [word_of_int d]))"
    using True assms(6-9) line_okD(2) [OF assms(1)] by (simp add: line_step_def Let_def d_def [symmetric] fin_def full)
  have lb: "length (inp_buf t) = INPUT_BUF" "unat (inp_e t - inp_r t) \<le> INPUT_BUF"
    using P(1) U ne line_okD(2) [OF assms(1)] True by simp_all
  show ?thesis
  proof (cases fin)
    case False
    then have "line_ok t" using lb P(3,5) U d10 assms(1) by (auto simp: line_ok_def fin_def)
    then have "typed s t" by (rule typedI [OF _ U(10) _ te]) (use U P(2) in simp)
    with False show ?thesis using run spec U P(2,3) by simp
  next
    case fin: True
    let ?v = "t\<lparr>inp_w := inp_e t, procs := map (wake_proc Ch_input) (procs t)\<rparr>"
    have "cons_char c s = Ok () ?v" using fin run assms(3) U(9) by (simp add: wakeup_ok)
    moreover have r: "rdy ?v = rdy s @ editing s @ [word_of_int d]"
    proof -
      have "rdy ?v = ring_content INPUT_BUF (inp_buf t) (inp_r t) (inp_w t) @ ring_content INPUT_BUF (inp_buf t) (inp_w t) (inp_e t)"
        using P(5) U by (simp add: rdy_def ring_content_append)
      also have "\<dots> = rdy t @ editing t" by (simp add: rdy_def editing_def)
      finally show ?thesis using U P(2,3) by simp
    qed
    moreover have e: "editing ?v = []" by (simp add: editing_def)
    moreover have "line_ok ?v" using lb e by (simp add: line_ok_def)
    then have "typed s ?v"
    proof (rule typedI)
      show "cons_ok ?v" using U(10) by (simp add: cons_ok_def)
      show "procs ?v = procs s \<and> rdy ?v = rdy s \<or> procs ?v = map (wake_proc Ch_input) (procs s)" using U by simp
      show "?v = s\<lparr>inp_buf := inp_buf ?s, inp_w := inp_e t, inp_e := inp_e s + 1, uart_out := uo, crt := cc,
          cpos := p, procs := map (wake_proc Ch_input) (procs t)\<rparr>" unfolding te by simp
    qed
    ultimately show ?thesis using fin spec by simp
  qed
qed

lemma cons_step_ok:
  assumes "line_ok s" "cons_ok s" "LK_ptable \<notin> set (held s)" "0 \<le> c" "c < 256"
  shows "\<exists>t. cons_step c s = Ok (c = 0x10) t \<and> typed s t \<and> (rdy t, editing t) = line_step c (rdy s, editing s)"
proof -
  consider (p) "c = 0x10" | (u) "c = 0x15" | (h) "c = 8 \<or> c = 0x7F" "inp_e s = inp_w s"
    | (b) "c = 8 \<or> c = 0x7F" "inp_e s \<noteq> inp_w s"
    | (c) "c \<noteq> 0x10" "c \<noteq> 0x15" "c \<noteq> 8" "c \<noteq> 0x7F" by blast
  then show ?thesis
  proof cases
    case p
    then show ?thesis using assms typed_refl by (simp add: cons_step_def line_step_def)
  next
    case u
    then show ?thesis using kill_line_ok [OF assms(1,2) refl]
      by (auto simp: cons_step_def line_step_def rdy_editing_lengths)
  next
    case h
    then have "editing s = []" using rdy_editing_lengths(2) [of s] by simp
    with h show ?thesis using assms typed_refl by (auto simp: cons_step_def line_step_def)
  next
    case b
    let ?s = "s\<lparr>inp_e := inp_e s - 1\<rparr>"
    note u = line_unpush [OF assms(1) b(2) refl]
    have c: "cons_ok ?s" using assms(2) by (simp add: cons_ok_def)
    have "?s = s\<lparr>inp_buf := inp_buf s, inp_w := inp_w s, inp_e := inp_e s - 1, uart_out := uart_out s, crt := crt s,
        cpos := cpos s, procs := procs s\<rparr>" by (cases s) simp
    then have ty: "typed s ?s" by (rule typedI [rotated 3]) (use u c in simp_all)
    obtain t where t: "consputc BACKSPACE ?s = Ok () t" "typed ?s t" "rdy t = rdy s" "editing t = butlast (editing s)"
      using consputc_typed [OF c u(1), of BACKSPACE] u(2,3) by auto
    have "cons_step c s = Ok (c = 0x10) t" using b t(1) by (auto simp: cons_step_def)
    with b t typed_trans [OF ty t(2)] show ?thesis by (auto simp: line_step_def)
  next
    case c
    with cons_char_ok [OF assms(1-5)] show ?thesis by (auto simp: cons_step_def)
  qed
qed

lemma cons_loop_ok:
  assumes "line_ok s" "cons_ok s" "LK_ptable \<notin> set (held s)" "\<forall>c\<in>set cs. 0 \<le> c \<and> c < 256"
  shows "\<exists>t. cons_loop cs d s = Ok (d \<or> 0x10 \<in> set cs) t \<and> typed s t \<and>
    (rdy t, editing t) = fold line_step cs (rdy s, editing s)"
  using assms
proof (induction cs arbitrary: s d)
  case Nil
  then show ?case by (simp add: typed_refl)
next
  case (Cons c cs)
  then obtain t where t: "cons_step c s = Ok (c = 0x10) t" "typed s t" "(rdy t, editing t) = line_step c (rdy s, editing s)"
    using cons_step_ok [of s c] by auto
  note T = typedD [OF t(2)]
  obtain u where u: "cons_loop cs (d \<or> c = 0x10) t = Ok ((d \<or> c = 0x10) \<or> 0x10 \<in> set cs) u" "typed t u"
    "(rdy u, editing u) = fold line_step cs (rdy t, editing t)"
    using Cons.IH [OF T(1,2)] Cons.prems(3,4) T(3) by fastforce
  have "cons_loop (c # cs) d s = Ok (d \<or> 0x10 \<in> set (c # cs)) u" using t(1) u(1) by auto
  moreover have "(rdy u, editing u) = fold line_step (c # cs) (rdy s, editing s)" using u(3) t(3) by simp
  ultimately show ?case using typed_trans [OF t(2) u(2)] by blast
qed

lemma consoleintr_ok:
  assumes "line_ok s" "cons_ok s" "LK_ptable \<notin> set (held s)" "LK_cons \<notin> set (held s)"
    "\<forall>c\<in>set cs. 0 \<le> c \<and> c < 256" "0x10 \<notin> set cs"
  shows "\<exists>t. consoleintr cs s = Ok () t \<and> typed s t \<and> (rdy t, editing t) = fold line_step cs (rdy s, editing s)"
proof -
  let ?s = "s\<lparr>held := LK_cons # held s\<rparr>"
  have s: "rdy ?s = rdy s" "editing ?s = editing s" "line_ok ?s" "cons_ok ?s"
    using assms(1,2) by (simp_all add: rdy_def editing_def line_ok_def cons_ok_def)
  obtain t where t: "cons_loop cs False ?s = Ok False t" "typed ?s t" "(rdy t, editing t) = fold line_step cs (rdy s, editing s)"
    using cons_loop_ok [OF s(3,4), of cs False] assms(3,5,6) s(1,2) by auto
  note T = typedD [OF t(2)]
  let ?t = "t\<lparr>held := held s\<rparr>"
  have e: "rdy ?t = rdy t" "editing ?t = editing t" by (simp_all add: rdy_def editing_def)
  have "consoleintr cs s = Ok () ?t" using assms(4) t(1) T(3) by (simp add: consoleintr_def)
  moreover have "typed s ?t"
  proof -
    obtain b r w e u c p pr where te:
        "t = ?s\<lparr>inp_buf := b, inp_r := r, inp_w := w, inp_e := e, uart_out := u, crt := c, cpos := p, procs := pr\<rparr>"
      using t(2) unfolding typed_def by blast
    have "?t = s\<lparr>inp_buf := b, inp_r := r, inp_w := w, inp_e := e, uart_out := u, crt := c, cpos := p, procs := pr\<rparr>"
      unfolding te by (cases s) simp
    moreover have "line_ok ?t" "cons_ok ?t" "held ?t = held s"
      using T(1,2) by (simp_all add: line_ok_def cons_ok_def editing_def)
    moreover have "procs ?t = procs s \<and> rdy ?t = rdy s \<or> procs ?t = map (wake_proc Ch_input) (procs s)"
      using T(4) s(1) e(1) by simp
    ultimately show ?thesis unfolding typed_def by blast
  qed
  ultimately show ?thesis using t(3) e by auto
qed

section \<open>Reading\<close>

lemma line_pop:
  assumes "line_ok s" "inp_r s \<noteq> inp_w s" and t: "t = s\<lparr>inp_r := inp_r s + 1\<rparr>"
  shows "line_ok t" "rdy s = inp_buf s ! (unat (inp_r s) mod INPUT_BUF) # rdy t" "editing t = editing s"
proof -
  show r: "rdy s = inp_buf s ! (unat (inp_r s) mod INPUT_BUF) # rdy t"
    using inp.pop [of "inp_w s" "inp_r s"] assms(2) by (simp add: rdy_def t)
  show e: "editing t = editing s" by (simp add: editing_def t)
  have w: "unat (inp_w s - inp_r s) = Suc (unat (inp_w t - inp_r t))"
    using unat_minus_pred [of "inp_w s" "inp_r s"] assms(2) by (simp add: t)
  then have "inp_e s \<noteq> inp_r s" using assms(1) by (auto simp: line_ok_def)
  then have "unat (inp_e s - inp_r s) = Suc (unat (inp_e t - inp_r t))"
    using unat_minus_pred [of "inp_e s" "inp_r s"] by (simp add: t)
  with w e show "line_ok t" using assms(1) by (simp add: line_ok_def) (simp add: t)
qed

text \<open>
  What a read of \<open>n\<close> bytes with \<open>off\<close> delivered takes from the ready bytes: up to a newline or
  an end-of-file mark, which is put back unless it comes first. None: it runs out of bytes.
\<close>

fun take_line :: "nat \<Rightarrow> nat \<Rightarrow> uchar list \<Rightarrow> (uchar list \<times> uchar list) option" where
  "take_line off 0 bs = Some ([], bs)"
| "take_line off (Suc n) [] = None"
| "take_line off (Suc n) (b # bs) =
     (if b = 4 then Some ([], if off > 0 then b # bs else bs)
      else if b = 10 then Some ([b], bs)
      else map_option (\<lambda>(l, r). (b # l, r)) (take_line (Suc off) n bs))"

lemma consoleread_loop_ok:
  assumes "line_ok s" "take_line off n (rdy s) = Some (l, rest)"
  shows "\<exists>r. consoleread_loop Dst_local off n s = Ok (Some l) (s\<lparr>inp_r := r\<rparr>) \<and> line_ok (s\<lparr>inp_r := r\<rparr>) \<and>
    rdy (s\<lparr>inp_r := r\<rparr>) = rest \<and> editing (s\<lparr>inp_r := r\<rparr>) = editing s"
  using assms
proof (induction n arbitrary: off s l)
  case 0
  then show ?case by (intro exI [of _ "inp_r s"]) simp
next
  case (Suc n)
  have ne: "inp_r s \<noteq> inp_w s" using Suc.prems(2) by (auto simp: rdy_def)
  let ?c = "inp_buf s ! (unat (inp_r s) mod INPUT_BUF)" and ?t = "s\<lparr>inp_r := inp_r s + 1\<rparr>"
  note P = line_pop [OF Suc.prems(1) ne refl]
  consider "?c = 4" | "?c = 10" | "?c \<noteq> 4" "?c \<noteq> 10" by blast
  then show ?case
  proof cases
    case 1
    show ?thesis
    proof (cases "off = 0")
      case True
      with 1 P ne Suc.prems(2) show ?thesis by (intro exI [of _ "inp_r s + 1"]) simp
    next
      case False
      with 1 P(2) Suc.prems have "l = []" "rest = rdy s" by simp_all
      with 1 False ne Suc.prems(1) show ?thesis by (intro exI [of _ "inp_r s"]) simp
    qed
  next
    case 2
    with P ne Suc.prems(2) show ?thesis by (intro exI [of _ "inp_r s + 1"]) (simp add: deliver_def)
  next
    case 3
    with P(2) Suc.prems(2) obtain l' where l: "take_line (Suc off) n (rdy ?t) = Some (l', rest)" "l = ?c # l'" by auto
    from Suc.IH [OF P(1) l(1)] obtain r where
      "consoleread_loop Dst_local (Suc off) n ?t = Ok (Some l') (?t\<lparr>inp_r := r\<rparr>)" "line_ok (?t\<lparr>inp_r := r\<rparr>)"
      "rdy (?t\<lparr>inp_r := r\<rparr>) = rest" "editing (?t\<lparr>inp_r := r\<rparr>) = editing ?t" by blast
    with 3 P(3) ne l(2) show ?thesis by (intro exI [of _ r]) (simp add: deliver_def)
  qed
qed

lemma consoleread_ok:
  assumes "line_ok s" "held s = []" "take_line 0 (nat n) (rdy s) = Some (l, rest)"
    "i < length (inodes s)" "ibusy (inodes s ! i)" "ivalid (inodes s ! i)" "1 \<le> iref (inodes s ! i)"
  shows "\<exists>t. consoleread i Dst_local n s = Ok (int (length l), l) t \<and> line_ok t \<and> rdy t = rest \<and> held t = []"
proof -
  let ?u = "s\<lparr>inodes := (inodes s)[i := (inodes s ! i)\<lparr>ibusy := False\<rparr>], procs := map (wake_proc (Ch_inode i)) (procs s), held := [LK_cons]\<rparr>"
  have u: "line_ok ?u" "rdy ?u = rdy s" using assms(1) by (simp_all add: line_ok_def rdy_def editing_def)
  from consoleread_loop_ok [OF u(1), of 0 "nat n" l rest] assms(3) u(2) obtain r where
    r: "consoleread_loop Dst_local 0 (nat n) ?u = Ok (Some l) (?u\<lparr>inp_r := r\<rparr>)" "line_ok (?u\<lparr>inp_r := r\<rparr>)" "rdy (?u\<lparr>inp_r := r\<rparr>) = rest"
    by auto
  then show ?thesis
    using iunlock_ok [of i s] assms
    by (auto simp: consoleread_def consoleread_end_def ilock_ok line_ok_def rdy_def editing_def)
qed

section \<open>Properties\<close>

definition wit_cst :: "ist \<Rightarrow> uchar list \<Rightarrow> uint \<Rightarrow> uint \<Rightarrow> uint \<Rightarrow> cst" where
  "wit_cst s buf r w e = ist.extend s (cst.fields buf r w e True)"

definition wit_inode :: inode where
  "wit_inode = \<lparr>idev = 1, inum = 1, iref = 1, ibusy = True, ivalid = True, itype = T_DEV, imajor = 1, iminor = 1,
     nlink = 1, isize = 0, addrs = replicate 13 0\<rparr>"

definition wit_con :: cst where
  "wit_con = wit_cst (wit_ist (wit_lst [] wit_zero 0 [] 0) (sb_of []) [wit_inode]) (replicate 128 0) 0xFFFFFFFE 0xFFFFFFFE 0xFFFFFFFE"

lemma wit_con_sel [simp]:
  "inp_buf wit_con = replicate 128 0" "inp_r wit_con = 0xFFFFFFFE" "inp_w wit_con = 0xFFFFFFFE" "inp_e wit_con = 0xFFFFFFFE"
  "held wit_con = []" "panicked wit_con = False" "cpos wit_con = 0" "inodes wit_con = [wit_inode]"
  by (simp_all add: wit_con_def wit_cst_def wit_ist_def wit_lst_def lst.defs ist.defs cst.defs)

lemma wit_con_ok: "line_ok wit_con" "cons_ok wit_con" "rdy wit_con = []" "editing wit_con = []"
  by (simp_all add: line_ok_def cons_ok_def rdy_def editing_def INPUT_BUF_def)

text \<open>
  C12.
  The console interrupt implements a line editor: for any characters but \<open>C('P')\<close>, the bytes
  offered to readers and the line being typed change exactly as \<open>line_step\<close> says of them one
  after the other, the indices stay in order and never span more than \<open>INPUT_BUF\<close>, also when
  they wrap around, and whenever bytes become available the sleeping readers are woken.
\<close>

theorem consoleintr_edits:
  assumes "line_ok s" "cons_ok s" "LK_ptable \<notin> set (held s)" "LK_cons \<notin> set (held s)"
    "\<forall>c\<in>set cs. 0 \<le> c \<and> c < 256" "0x10 \<notin> set cs"
  shows "\<exists>t. consoleintr cs s = Ok () t \<and> line_ok t \<and> held t = held s \<and>
    (rdy t, editing t) = fold line_step cs (rdy s, editing s) \<and>
    (rdy t \<noteq> rdy s \<longrightarrow> procs t = map (wake_proc Ch_input) (procs s))"
  using consoleintr_ok [OF assms] typedD by blast

theorem consoleintr_edits_witness:
  "\<exists>t. consoleintr [97, 98, 8, 99, 13, 100] wit_con = Ok () t \<and> rdy t = [97, 99, 10] \<and> editing t = [100]"
proof -
  have "fold line_step [97, 98, 8, 99, 13, 100] ([], []) = ([97, 99, 10], [100])"
    by (simp add: line_step_def INPUT_BUF_def)
  with consoleintr_edits [OF wit_con_ok(1,2), of "[97, 98, 8, 99, 13, 100]"] show ?thesis by (auto simp: wit_con_ok)
qed

definition plain :: "uchar \<Rightarrow> bool" where
  "plain c \<longleftrightarrow> c \<notin> {0, 4, 8, 10, 13, 0x10, 0x15, 0x7F}"

lemma line_step_plain:
  assumes "plain c" "length ls + length ed + 1 < INPUT_BUF"
  shows "line_step (uint c) (ls, ed) = (ls, ed @ [c])"
proof -
  have "uint c \<noteq> k" if "c \<noteq> word_of_int k" for k using that by auto
  then have "uint c \<notin> {0, 4, 8, 10, 13, 0x10, 0x15, 0x7F}" using assms(1) unfolding plain_def by auto
  then show ?thesis using assms(2) by (simp add: line_step_def)
qed

lemma fold_line_step_plain:
  "list_all plain l \<Longrightarrow> length ls + length ed + length l < INPUT_BUF \<Longrightarrow>
   fold line_step (map uint l) (ls, ed) = (ls, ed @ l)"
  by (induction l arbitrary: ed) (simp_all add: line_step_plain)

lemma take_line_plain: "list_all plain l \<Longrightarrow> length l < n \<Longrightarrow> take_line off n (l @ [10]) = Some (l @ [10], [])"
proof (induction l arbitrary: off n)
  case Nil
  then show ?case by (cases n) simp_all
next
  case (Cons c l)
  then show ?case by (cases n) (auto simp: plain_def)
qed

text \<open>
  C36.
  A line typed at the console is what the next read returns: after the interrupt has taken in
  the characters of a line that fits the buffer, and a newline, a \<open>consoleread\<close> with room for it
  returns those bytes and the newline, and leaves nothing behind.
\<close>

theorem console_roundtrip:
  assumes "line_ok s" "cons_ok s" "held s = []" "rdy s = []" "editing s = []"
    "list_all plain l" "length l < INPUT_BUF" "int (length l) < n"
    "i < length (inodes s)" "ibusy (inodes s ! i)" "ivalid (inodes s ! i)" "1 \<le> iref (inodes s ! i)"
  shows "\<exists>t u. consoleintr (map uint (l @ [10])) s = Ok () t \<and>
    consoleread i Dst_local n t = Ok (int (length l) + 1, l @ [10]) u \<and> rdy u = []"
proof -
  have "0x10 \<notin> set (map uint (l @ [10 :: uchar]))"
  proof
    assume "0x10 \<in> set (map uint (l @ [10 :: uchar]))"
    then obtain c where "c \<in> set l" "uint c = 0x10" by auto
    moreover have "c = word_of_int (uint c)" by simp
    ultimately have "(0x10 :: uchar) \<in> set l" by simp
    then have "plain 0x10" using assms(6) by (simp only: list_all_iff)
    then show False by (simp add: plain_def)
  qed
  moreover have "\<forall>c\<in>set (map uint (l @ [10 :: uchar])). 0 \<le> c \<and> c < 256"
  proof -
    have "uint c < 256" for c :: uchar using uint_lt2p [of c] by simp
    then show ?thesis by simp
  qed
  ultimately obtain t where t: "consoleintr (map uint (l @ [10])) s = Ok () t" "typed s t"
      "(rdy t, editing t) = fold line_step (map uint (l @ [10])) ([], [])"
    using consoleintr_ok [OF assms(1,2), of "map uint (l @ [10 :: uchar])"] assms(3,4,5) by auto
  have "fold line_step (map uint (l @ [10])) ([], []) = (l @ [10], [])"
    using fold_line_step_plain [OF assms(6), of "[]" "[]"] assms(7) by (simp add: line_step_def)
  then have r: "rdy t = l @ [10]" using t(3) by simp
  have "length l < nat n" using assms(8) by linarith
  note tl = take_line_plain [OF assms(6) this, of 0]
  have "inodes t = inodes s" by (rule typed_inodes [OF t(2)])
  with consoleread_ok [OF typedD(1) [OF t(2)] _ tl [folded r], of i] assms(3,9-12) typedD(3) [OF t(2)]
  obtain u where "consoleread i Dst_local n t = Ok (int (length (l @ [10])), l @ [10]) u" "rdy u = []" by (auto simp: r)
  with t(1) show ?thesis by auto
qed

theorem console_roundtrip_witness:
  "\<exists>t u. consoleintr (map uint ([108, 115] @ [10 :: uchar])) wit_con = Ok () t \<and>
     consoleread 0 Dst_local 80 t = Ok (3, [108, 115] @ [10]) u"
  using console_roundtrip [of wit_con "[108, 115]" 80 0]
  by (auto simp: wit_con_ok plain_def INPUT_BUF_def wit_inode_def)

end
