(* ===== verification/Fs.thy ===== *)
theory Fs
  imports ConsoleIn
begin

text \<open>
  Files, directories and paths of \<open>fs.c\<close>: reading and writing the content of an inode,
  directory entries, and path lookup. A path is the bytes of a C string. The bytes a read
  delivers are also returned, for callers whose buffer is a local variable.
\<close>

section \<open>Reading and writing\<close>

definition NDEV :: int where "NDEV = 10"
definition CONSOLE :: int where "CONSOLE = 1"

text \<open>Only \<open>consoleinit\<close> fills an entry of \<open>devsw\<close>.\<close>

definition dev_missing :: "ushort \<Rightarrow> 'x cst_scheme \<Rightarrow> bool" where
  "dev_missing major s \<longleftrightarrow> sint major < 0 \<or> sint major \<ge> NDEV \<or> \<not> (sint major = CONSOLE \<and> devcons s)"

text \<open>Every turn of the copying loops moves at least one byte, so \<open>n\<close> turns are enough.\<close>

primrec readi_loop :: "nat \<Rightarrow> nat \<Rightarrow> cdst \<Rightarrow> uint \<Rightarrow> nat \<Rightarrow> nat \<Rightarrow> ('x cst_scheme, uchar list) kop" where
  "readi_loop 0 i dst off tot n = kret []"
| "readi_loop (Suc k) i dst off tot n =
     (if \<not> tot < n then kret []
      else
        kbind (bmap i (off div of_nat BSIZE)) (\<lambda>bn.
        kbind (kget (\<lambda>s. idev (inodes s ! i))) (\<lambda>d.
        kbind (bread d bn) (\<lambda>bp.
        let o' = unat off mod BSIZE; m = min (n - tot) (BSIZE - o') in
        kbind (kget (\<lambda>s. take m (drop o' (bdat s bp)))) (\<lambda>bs.
        kthen (deliver dst tot bs) (
        kthen (brelse bp) (
        kbind (readi_loop k i dst (off + of_nat m) (tot + m) n) (\<lambda>rest. kret (bs @ rest)))))))))"

definition readi :: "nat \<Rightarrow> cdst \<Rightarrow> uint \<Rightarrow> uint \<Rightarrow> ('x cst_scheme, int \<times> uchar list) kop" where
  "readi i dst off n =
     kbind (kget (\<lambda>s. inodes s ! i)) (\<lambda>ip.
     if itype ip = T_DEV then
       kbind (kget (dev_missing (imajor ip))) (\<lambda>none.
       if none then kret (- 1, []) else consoleread i dst (sint n))
     else if off > isize ip \<or> off + n < off then kret (- 1, [])
     else
       let n = (if off + n > isize ip then isize ip - off else n) in
       kbind (readi_loop (unat n) i dst off 0 (unat n)) (\<lambda>bs. kret (sint n, bs)))"

primrec writei_loop :: "nat \<Rightarrow> nat \<Rightarrow> csrc \<Rightarrow> uint \<Rightarrow> nat \<Rightarrow> nat \<Rightarrow> ('x cst_scheme, unit) kop" where
  "writei_loop 0 i src off tot n = kret ()"
| "writei_loop (Suc k) i src off tot n =
     (if \<not> tot < n then kret ()
      else
        kbind (bmap i (off div of_nat BSIZE)) (\<lambda>bn.
        kbind (kget (\<lambda>s. idev (inodes s ! i))) (\<lambda>d.
        kbind (bread d bn) (\<lambda>bp.
        let o' = unat off mod BSIZE; m = min (n - tot) (BSIZE - o') in
        kbind (fetch src tot m) (\<lambda>bs.
        kthen (kmod (\<lambda>s. set_bdat bp (blit (bdat s bp) o' bs) s)) (
        kthen (log_write bp) (
        kthen (brelse bp) (
        writei_loop k i src (off + of_nat m) (tot + m) n))))))))"

definition writei :: "nat \<Rightarrow> csrc \<Rightarrow> uint \<Rightarrow> uint \<Rightarrow> ('x cst_scheme, int) kop" where
  "writei i src off n =
     kbind (kget (\<lambda>s. inodes s ! i)) (\<lambda>ip.
     if itype ip = T_DEV then
       kbind (kget (dev_missing (imajor ip))) (\<lambda>none.
       if none then kret (- 1) else consolewrite i src (sint n))
     else if off > isize ip \<or> off + n < off then kret (- 1)
     else if off + n > of_nat (MAXFILE * BSIZE) then kret (- 1)
     else
       kthen (writei_loop (unat n) i src off 0 (unat n)) (
       kbind (kget (\<lambda>s. isize (inodes s ! i))) (\<lambda>dz.
       kthen (kwhen (n > 0 \<and> off + n > dz)
                (kthen (upd_inode i (\<lambda>ip. ip\<lparr>isize := off + n\<rparr>)) (iupdate i)))
         (kret (sint n)))))"

section \<open>Directories\<close>

definition DIRSIZ :: nat where "DIRSIZ = 14"

definition namecmp :: "uchar list \<Rightarrow> uchar list \<Rightarrow> int" where
  "namecmp s t = strncmp_l s t DIRSIZ"

text \<open>\<open>struct dirent\<close>: the inode number and fourteen bytes of name.\<close>

definition de_inum :: "uchar list \<Rightarrow> ushort" where "de_inum de = rd16 de 0"
definition de_name :: "uchar list \<Rightarrow> uchar list" where "de_name de = take DIRSIZ (drop 2 de)"

text \<open>The offsets the directory loops visit.\<close>

definition de_offs :: "uint \<Rightarrow> uint list" where
  "de_offs dz = map (\<lambda>k. of_nat (16 * k)) [0..<(unat dz + 15) div 16]"

definition read_de :: "nat \<Rightarrow> uint \<Rightarrow> ('x cst_scheme, uchar list) kop" where
  "read_de dp off =
     kbind (readi dp Dst_local off 16) (\<lambda>(r, de).
     kthen (kguard (r \<noteq> 16) ''dirlink read'') (kret de))"

primrec dirlookup_loop :: "nat \<Rightarrow> uchar list \<Rightarrow> uint list \<Rightarrow> ('x cst_scheme, (nat \<times> uint) option) kop" where
  "dirlookup_loop dp name [] = kret None"
| "dirlookup_loop dp name (off # offs) =
     kbind (read_de dp off) (\<lambda>de.
     if de_inum de = 0 then dirlookup_loop dp name offs
     else if namecmp name (de_name de) = 0 then
       kbind (kget (\<lambda>s. idev (inodes s ! dp))) (\<lambda>d.
       kbind (iget d (ucast (de_inum de))) (\<lambda>i. kret (Some (i, off))))
     else dirlookup_loop dp name offs)"

definition dirlookup :: "nat \<Rightarrow> uchar list \<Rightarrow> ('x cst_scheme, (nat \<times> uint) option) kop" where
  "dirlookup dp name =
     kbind (kget (\<lambda>s. inodes s ! dp)) (\<lambda>ip.
     kthen (kguard (itype ip \<noteq> T_DIR) ''dirlookup not DIR'')
       (dirlookup_loop dp name (de_offs (isize ip))))"

text \<open>The offset of the first free entry, or the one after the last.\<close>

primrec dirlink_loop :: "nat \<Rightarrow> uint list \<Rightarrow> uint \<Rightarrow> ('x cst_scheme, uint) kop" where
  "dirlink_loop dp [] fin = kret fin"
| "dirlink_loop dp (off # offs) fin =
     kbind (read_de dp off) (\<lambda>de. if de_inum de = 0 then kret off else dirlink_loop dp offs fin)"

definition dirlink :: "nat \<Rightarrow> uchar list \<Rightarrow> uint \<Rightarrow> ('x cst_scheme, int) kop" where
  "dirlink dp name ino =
     kbind (dirlookup dp name) (\<lambda>r.
     case r of
       Some (i, _) \<Rightarrow> kthen (iput i) (kret (- 1))
     | None \<Rightarrow>
         kbind (kget (\<lambda>s. isize (inodes s ! dp))) (\<lambda>dz.
         kbind (dirlink_loop dp (de_offs dz) (of_nat (16 * ((unat dz + 15) div 16)))) (\<lambda>off.
         let de = [byte_of16 0 (ucast ino), byte_of16 1 (ucast ino)] @ strncpy_l name DIRSIZ in
         kbind (writei dp (Src_local de) off 16) (\<lambda>w.
         kthen (kguard (w \<noteq> 16) ''dirlink'') (kret 0)))))"

section \<open>Paths\<close>

definition slash :: uchar where "slash = of_char CHR ''/''"

definition skipelem :: "uchar list \<Rightarrow> (uchar list \<times> uchar list) option" where
  "skipelem path =
     (let p = dropWhile (\<lambda>c. c = slash) path in
      if p = [] then None
      else let s = takeWhile (\<lambda>c. c \<noteq> slash) p;
               rest = dropWhile (\<lambda>c. c \<noteq> slash) p;
               name = (if length s \<ge> DIRSIZ then take DIRSIZ s else s)
           in Some (dropWhile (\<lambda>c. c = slash) rest, name))"

lemma skipelem_shorter:
  assumes "skipelem path = Some (rest, name)"
  shows "length rest < length path"
proof (cases "dropWhile (\<lambda>c. c = slash) path")
  case Nil
  with assms show ?thesis by (simp add: skipelem_def)
next
  case (Cons c p)
  then have c: "c \<noteq> slash" using hd_dropWhile [of "\<lambda>c. c = slash" path] by simp
  have "rest = dropWhile (\<lambda>c. c = slash) (dropWhile (\<lambda>c. c \<noteq> slash) p)"
    using assms c by (simp add: skipelem_def Cons Let_def)
  then have "length rest \<le> length p"
    using length_dropWhile_le [of "\<lambda>c. c = slash" "dropWhile (\<lambda>c. c \<noteq> slash) p"]
      length_dropWhile_le [of "\<lambda>c. c \<noteq> slash" p] by simp
  moreover have "length (c # p) \<le> length path"
    using length_dropWhile_le [of "\<lambda>c. c = slash" path] by (simp add: Cons)
  ultimately show ?thesis by simp
qed

text \<open>The inode of a path, or that of its parent, together with the last element looked at.\<close>

function namex_loop :: "uchar list \<Rightarrow> bool \<Rightarrow> uchar list \<Rightarrow> nat \<Rightarrow> ('x cst_scheme, nat option \<times> uchar list) kop" where
  "namex_loop path par name ip =
     (case skipelem path of
        None \<Rightarrow> if par then kthen (iput ip) (kret (None, name)) else kret (Some ip, name)
      | Some (rest, elem) \<Rightarrow>
          kthen (ilock ip) (
          kbind (kget (\<lambda>s. itype (inodes s ! ip))) (\<lambda>ty.
          if ty \<noteq> T_DIR then kthen (iunlockput ip) (kret (None, elem))
          else if par \<and> rest = [] then kthen (iunlock ip) (kret (Some ip, elem))
          else
            kbind (dirlookup ip elem) (\<lambda>r.
            case r of
              None \<Rightarrow> kthen (iunlockput ip) (kret (None, elem))
            | Some (next, _) \<Rightarrow> kthen (iunlockput ip) (namex_loop rest par elem next)))))"
  by pat_completeness auto
termination
  by (relation "measure (\<lambda>(p, _). length p)") (auto dest: skipelem_shorter)

declare namex_loop.simps [simp del]

definition namex :: "uchar list \<Rightarrow> bool \<Rightarrow> ('x cst_scheme, nat option \<times> uchar list) kop" where
  "namex path par =
     kbind (if path \<noteq> [] \<and> hd path = slash then iget ROOTDEV ROOTINO
            else kbind myproc (\<lambda>p.
                 kbind (kget (\<lambda>s. cwd (procs s ! p))) (\<lambda>c.
                 case c of None \<Rightarrow> ub | Some d \<Rightarrow> idup d))) (\<lambda>ip.
     namex_loop path par [] ip)"

definition namei :: "uchar list \<Rightarrow> ('x cst_scheme, nat option) kop" where
  "namei path = kbind (namex path False) (\<lambda>(r, _). kret r)"

definition nameiparent :: "uchar list \<Rightarrow> ('x cst_scheme, nat option \<times> uchar list) kop" where
  "nameiparent path = namex path True"

end
