(* ===== verification/Kbd.thy ===== *)
theory Kbd
  imports ConsoleIn
begin

text \<open>
  The keyboard driver (\<open>kbd.c\<close>, \<open>kbd.h\<close>) and the serial port's receiver (\<open>uart.c\<close>). What
  the hardware has pending is the list of bytes that its data port will deliver: the status
  port shows a byte exactly while the list is not empty.
\<close>

section \<open>The maps\<close>

definition SHIFT :: uint where "SHIFT = 1"
definition CTL :: uint where "CTL = 2"
definition ALT :: uint where "ALT = 4"
definition CAPSLOCK :: uint where "CAPSLOCK = 8"
definition NUMLOCK :: uint where "NUMLOCK = 16"
definition SCROLLLOCK :: uint where "SCROLLLOCK = 32"
definition E0ESC :: uint where "E0ESC = 64"

text \<open>A table with designated entries; every other entry is zero.\<close>

definition kmap :: "uchar list \<Rightarrow> (nat \<times> uchar) list \<Rightarrow> nat \<Rightarrow> uchar" where
  "kmap row des k = (case map_of des k of Some c \<Rightarrow> c | None \<Rightarrow> if k < length row then row ! k else 0)"

definition shiftcode :: "nat \<Rightarrow> uchar" where
  "shiftcode = kmap [] [(0x1D, 2), (0x2A, 1), (0x36, 1), (0x38, 4), (0x9D, 2), (0xB8, 4)]"

definition togglecode :: "nat \<Rightarrow> uchar" where
  "togglecode = kmap [] [(0x3A, 8), (0x45, 16), (0x46, 32)]"

definition ctl :: "char \<Rightarrow> uchar" where "ctl c = of_char c - 0x40"

definition keypad :: "(nat \<times> uchar) list" where
  "keypad = [(0xC8, 0xE2), (0xD0, 0xE3), (0xC9, 0xE6), (0xD1, 0xE7), (0xCB, 0xE4), (0xCD, 0xE5),
     (0x97, 0xE0), (0xCF, 0xE1), (0xD2, 0xE8), (0xD3, 0xE9)]"

definition normalmap :: "nat \<Rightarrow> uchar" where
  "normalmap = kmap
     ([0, 0x1B] @ str_bytes ''123456'' @
      str_bytes ''7890-='' @ [8, 9] @
      str_bytes ''qwertyui'' @
      str_bytes ''op[]'' @ [10, 0] @ str_bytes ''as'' @
      str_bytes ''dfghjkl;'' @
      [0x27, 0x60, 0, 0x5C] @ str_bytes ''zxcv'' @
      str_bytes ''bnm,./'' @ [0] @ str_bytes ''*'' @
      [0] @ str_bytes '' '' @ [0, 0, 0, 0, 0, 0] @
      [0, 0, 0, 0, 0, 0, 0] @ str_bytes ''7'' @
      str_bytes ''89-456+1'' @
      str_bytes ''230.'' @ [0, 0, 0, 0])
     ([(0x9C, 10), (0xB5, of_char (CHR ''/''))] @ keypad)"

definition shiftmap :: "nat \<Rightarrow> uchar" where
  "shiftmap = kmap
     ([0, 0x1B] @ str_bytes ''!@#$%^'' @
      str_bytes ''&*()_+'' @ [8, 9] @
      str_bytes ''QWERTYUI'' @
      str_bytes ''OP{}'' @ [10, 0] @ str_bytes ''AS'' @
      str_bytes ''DFGHJKL:'' @
      [0x22] @ str_bytes ''~'' @ [0] @ str_bytes ''|ZXCV'' @
      str_bytes ''BNM<>?'' @ [0] @ str_bytes ''*'' @
      [0] @ str_bytes '' '' @ [0, 0, 0, 0, 0, 0] @
      [0, 0, 0, 0, 0, 0, 0] @ str_bytes ''7'' @
      str_bytes ''89-456+1'' @
      str_bytes ''230.'' @ [0, 0, 0, 0])
     ([(0x9C, 10), (0xB5, of_char (CHR ''/''))] @ keypad)"

definition ctlmap :: "nat \<Rightarrow> uchar" where
  "ctlmap = kmap
     ([0, 0, 0, 0, 0, 0, 0, 0] @
      [0, 0, 0, 0, 0, 0, 0, 0] @
      map ctl ''QWERTYUI'' @
      map ctl ''OP'' @ [0, 0, 13, 0] @ map ctl ''AS'' @
      map ctl ''DFGHJKL'' @ [0] @
      [0, 0, 0, 0x1C] @ map ctl ''ZXCV'' @
      map ctl ''BNM'' @ [0, 0, ctl (CHR ''/''), 0, 0])
     ([(0x9C, 13), (0xB5, ctl (CHR ''/''))] @ keypad)"

section \<open>Keys\<close>

definition charcode :: "uint \<Rightarrow> nat \<Rightarrow> uchar" where
  "charcode k = (if k = 0 then normalmap else if k = 1 then shiftmap else ctlmap)"

definition capslock :: "uint \<Rightarrow> uint" where
  "capslock c = (if 0x61 \<le> c \<and> c \<le> 0x7A then c + 0x41 - 0x61
                 else if 0x41 \<le> c \<and> c \<le> 0x5A then c + 0x61 - 0x41 else c)"

text \<open>One byte from the data port in shift state \<open>shift\<close>: the new state and the result.\<close>

definition kbd_byte :: "uint \<Rightarrow> uchar \<Rightarrow> uint \<times> int" where
  "kbd_byte shift byte =
     (let data = (ucast byte :: uint) in
      if data = 0xE0 then (shift OR E0ESC, 0)
      else if data AND 0x80 \<noteq> 0 then
        let data = (if shift AND E0ESC \<noteq> 0 then data else data AND 0x7F)
        in (shift AND NOT (ucast (shiftcode (unat data)) OR E0ESC), 0)
      else
        let (data, shift) = (if shift AND E0ESC \<noteq> 0 then (data OR 0x80, shift AND NOT E0ESC) else (data, shift));
            shift = shift OR ucast (shiftcode (unat data));
            shift = shift XOR ucast (togglecode (unat data));
            c = (ucast (charcode (shift AND (CTL OR SHIFT)) (unat data)) :: uint)
        in (shift, uint (if shift AND CAPSLOCK \<noteq> 0 then capslock c else c)))"

text \<open>The state of the driver and the bytes the controller has pending; None is \<open>-1\<close>.\<close>

record kbd =
  kshift :: uint
  kpend :: "uchar list"

definition kbdgetc :: "kbd \<Rightarrow> int option \<times> kbd" where
  "kbdgetc k = (case kpend k of [] \<Rightarrow> (None, k)
     | b # bs \<Rightarrow> let (sh, c) = kbd_byte (kshift k) b in (Some c, \<lparr>kshift = sh, kpend = bs\<rparr>))"

text \<open>What the calls of \<open>kbdgetc\<close> in \<open>consoleintr\<close> return until the first \<open>-1\<close>.\<close>

primrec kbd_chars :: "uint \<Rightarrow> uchar list \<Rightarrow> int list" where
  "kbd_chars shift [] = []"
| "kbd_chars shift (b # bs) = snd (kbd_byte shift b) # kbd_chars (fst (kbd_byte shift b)) bs"

definition kbd_shift :: "uint \<Rightarrow> uchar list \<Rightarrow> uint" where
  "kbd_shift = foldl (\<lambda>sh b. fst (kbd_byte sh b))"

record kst = cst +
  kbd_st :: kbd
  uart_on :: bool
  uart_pend :: "uchar list"

definition kbdintr :: "('x kst_scheme, unit) kop" where
  "kbdintr =
     kbind (kget kbd_st) (\<lambda>k.
     kthen (kmod (\<lambda>s. s\<lparr>kbd_st := \<lparr>kshift = kbd_shift (kshift k) (kpend k), kpend = []\<rparr>\<rparr>))
       (consoleintr (kbd_chars (kshift k) (kpend k))))"

definition uartgetc :: "('x kst_scheme, int) kop" where
  "uartgetc =
     kbind (kget (\<lambda>s. (uart_on s, uart_pend s))) (\<lambda>(on, bs).
     case bs of [] \<Rightarrow> kret (- 1)
     | b # bs \<Rightarrow> if \<not> on then kret (- 1) else kthen (kmod (\<lambda>s. s\<lparr>uart_pend := bs\<rparr>)) (kret (uint b)))"

definition uartintr :: "('x kst_scheme, unit) kop" where
  "uartintr =
     kbind (kget (\<lambda>s. if uart_on s then uart_pend s else [])) (\<lambda>bs.
     kthen (kmod (\<lambda>s. s\<lparr>uart_pend := drop (length bs) (uart_pend s)\<rparr>))
       (consoleintr (map uint bs)))"

section \<open>A sample state\<close>

definition wit_kst :: "cst \<Rightarrow> uchar list \<Rightarrow> kst" where
  "wit_kst s bs = cst.extend s (kst.fields \<lparr>kshift = 0, kpend = bs\<rparr> True [])"

section \<open>Properties\<close>

lemma capslock_bound: "c < 256 \<Longrightarrow> capslock c < 256"
proof -
  have "c + 0x41 - 0x61 < 256" if "0x61 \<le> c" "c \<le> 0x7A"
    using that by unat_arith
  moreover have "c + 0x61 - 0x41 < 256" if "0x41 \<le> c" "c \<le> 0x5A"
    using that by unat_arith
  moreover assume "c < 256"
  ultimately show ?thesis by (simp add: capslock_def)
qed

lemma kbd_byte_range: "0 \<le> snd (kbd_byte sh b) \<and> snd (kbd_byte sh b) < 256"
proof -
  have u: "(ucast (x :: uchar) :: uint) < 256" for x
  proof -
    have "unat x < 256" using unsigned_less [of x] by simp
    moreover from this have "unat x < 2 ^ 32" by simp
    ultimately show ?thesis by (simp add: word_less_nat_alt unsigned_ucast_eq take_bit_nat_eq_self)
  qed
  have v: "uint c < 256" if "c < 256" for c :: uint using that by (simp add: word_less_def)
  show ?thesis by (auto simp: kbd_byte_def Let_def split: prod.split intro!: v u capslock_bound)
qed

lemma kbd_chars_range: "\<forall>c\<in>set (kbd_chars sh bs). 0 \<le> c \<and> c < 256"
  by (induction bs arbitrary: sh) (simp_all add: kbd_byte_range)



lemma kbd_step_frame [simp]:
  "rdy (s\<lparr>kbd_st := k\<rparr>) = rdy s" "editing (s\<lparr>kbd_st := k\<rparr>) = editing s"
  "line_ok (s\<lparr>kbd_st := k\<rparr>) = line_ok s" "cons_ok (s\<lparr>kbd_st := k\<rparr>) = cons_ok s"
  by (simp_all add: rdy_def editing_def line_ok_def cons_ok_def)


definition wit_kbd :: kst where
  "wit_kbd = wit_kst wit_con [0x2A, 0x26, 0xAA, 0x1F, 0x9F, 0x1C]"

lemma wit_kbd_sel [simp]:
  "inp_buf wit_kbd = replicate 128 0" "inp_r wit_kbd = 0xFFFFFFFE" "inp_w wit_kbd = 0xFFFFFFFE" "inp_e wit_kbd = 0xFFFFFFFE"
  "held wit_kbd = []" "panicked wit_kbd = False" "cpos wit_kbd = 0"
  "kshift (kbd_st wit_kbd) = 0" "kpend (kbd_st wit_kbd) = [0x2A, 0x26, 0xAA, 0x1F, 0x9F, 0x1C]"
  by (simp_all add: wit_kbd_def wit_kst_def wit_con_def wit_cst_def wit_ist_def wit_lst_def lst.defs ist.defs cst.defs kst.defs)


end
