(* ===== verification/Pipe.thy ===== *)
theory Pipe
  imports Fs Kbd
begin

text \<open>
  Pipes (\<open>pipe.c\<close>), by the address of their page. A freed pipe has no entry in \<open>pipes\<close>;
  touching it is undefined behaviour. \<open>pipealloc\<close> is with the files.
\<close>

section \<open>Operations\<close>

definition PIPESIZE :: nat where "PIPESIZE = 512"

record pipe =
  pdata :: "uchar list"
  nread :: uint
  nwrite :: uint
  readopen :: bool
  writeopen :: bool

record pipest = kst +
  pipes :: "uint \<Rightarrow> pipe option"

definition the_pipe :: "uint \<Rightarrow> ('x pipest_scheme, pipe) kop" where
  "the_pipe p s = (case pipes s p of None \<Rightarrow> ub s | Some q \<Rightarrow> Ok q s)"

abbreviation upd_pipe :: "uint \<Rightarrow> (pipe \<Rightarrow> pipe) \<Rightarrow> ('x pipest_scheme, unit) kop" where
  "upd_pipe p f \<equiv> kmod (\<lambda>s. s\<lparr>pipes := (pipes s)(p := map_option f (pipes s p))\<rparr>)"

definition pipeclose :: "uint \<Rightarrow> bool \<Rightarrow> ('x pipest_scheme, unit) kop" where
  "pipeclose p writable =
     kthen (acquire (LK_pipe p)) (
     kbind (the_pipe p) (\<lambda>_.
     kthen (if writable
            then kthen (upd_pipe p (\<lambda>q. q\<lparr>writeopen := False\<rparr>)) (wakeup (Ch_nread p))
            else kthen (upd_pipe p (\<lambda>q. q\<lparr>readopen := False\<rparr>)) (wakeup (Ch_nwrite p))) (
     kbind (the_pipe p) (\<lambda>q.
     if \<not> readopen q \<and> \<not> writeopen q
     then kthen (release (LK_pipe p)) (kthen (kmod (\<lambda>s. s\<lparr>pipes := (pipes s)(p := None)\<rparr>)) (kfree p))
     else release (LK_pipe p)))))"

text \<open>
  The loop of \<open>pipewrite\<close> with \<open>i\<close> bytes stored and \<open>n\<close> to go; False is the return of \<open>-1\<close>
  from inside it. When the pipe is full the process sleeps; \<open>pipewrite_resume\<close> is the rest.
\<close>

primrec pipewrite_loop :: "uint \<Rightarrow> csrc \<Rightarrow> nat \<Rightarrow> nat \<Rightarrow> ('x pipest_scheme, bool) kop" where
  "pipewrite_loop p src i 0 = kret True"
| "pipewrite_loop p src i (Suc n) =
     kbind (the_pipe p) (\<lambda>q.
     if nwrite q = nread q + of_nat PIPESIZE then
       kbind (if readopen q then kbind myproc (\<lambda>c. kget (\<lambda>s. killed (procs s ! c))) else kret True) (\<lambda>stop.
       if stop then kthen (release (LK_pipe p)) (kret False)
       else kthen (wakeup (Ch_nread p)) (kthen (sleep (Ch_nwrite p) (Some (LK_pipe p))) (kret False)))
     else
       kbind (fetch src i 1) (\<lambda>bs.
       kthen (upd_pipe p (\<lambda>q. q\<lparr>pdata := (pdata q)[unat (nwrite q) mod PIPESIZE := hd bs], nwrite := nwrite q + 1\<rparr>))
         (pipewrite_loop p src (Suc i) n)))"

definition pipewrite_end :: "uint \<Rightarrow> int \<Rightarrow> bool \<Rightarrow> ('x pipest_scheme, int) kop" where
  "pipewrite_end p n ok =
     (if ok then kthen (wakeup (Ch_nread p)) (kthen (release (LK_pipe p)) (kret n)) else kret (- 1))"

definition pipewrite :: "uint \<Rightarrow> csrc \<Rightarrow> int \<Rightarrow> ('x pipest_scheme, int) kop" where
  "pipewrite p src n =
     kthen (acquire (LK_pipe p)) (kbind (pipewrite_loop p src 0 (nat n)) (pipewrite_end p n))"

definition pipewrite_resume :: "uint \<Rightarrow> csrc \<Rightarrow> int \<Rightarrow> nat \<Rightarrow> ('x pipest_scheme, int) kop" where
  "pipewrite_resume p src n i =
     kthen (sleep_resume (Some (LK_pipe p))) (kbind (pipewrite_loop p src i (nat n - i)) (pipewrite_end p n))"

primrec piperead_copy :: "uint \<Rightarrow> cdst \<Rightarrow> nat \<Rightarrow> nat \<Rightarrow> ('x pipest_scheme, uchar list) kop" where
  "piperead_copy p dst i 0 = kret []"
| "piperead_copy p dst i (Suc n) =
     kbind (the_pipe p) (\<lambda>q.
     if nread q = nwrite q then kret []
     else
       let c = pdata q ! (unat (nread q) mod PIPESIZE) in
       kthen (upd_pipe p (\<lambda>q. q\<lparr>nread := nread q + 1\<rparr>)) (
       kthen (deliver dst i [c]) (
       kbind (piperead_copy p dst (Suc i) n) (\<lambda>cs. kret (c # cs)))))"

text \<open>One test of the waiting loop with the lock held, and the rest once there is something.\<close>

definition piperead_loop :: "uint \<Rightarrow> cdst \<Rightarrow> int \<Rightarrow> ('x pipest_scheme, int \<times> uchar list) kop" where
  "piperead_loop p dst n =
     kbind (the_pipe p) (\<lambda>q.
     if nread q = nwrite q \<and> writeopen q then
       kbind myproc (\<lambda>c.
       kbind (kget (\<lambda>s. killed (procs s ! c))) (\<lambda>k.
       if k then kthen (release (LK_pipe p)) (kret (- 1, []))
       else kthen (sleep (Ch_nread p) (Some (LK_pipe p))) (kret (- 1, []))))
     else
       kbind (piperead_copy p dst 0 (nat n)) (\<lambda>cs.
       kthen (wakeup (Ch_nwrite p)) (
       kthen (release (LK_pipe p)) (kret (int (length cs), cs)))))"

definition piperead :: "uint \<Rightarrow> cdst \<Rightarrow> int \<Rightarrow> ('x pipest_scheme, int \<times> uchar list) kop" where
  "piperead p dst n = kthen (acquire (LK_pipe p)) (piperead_loop p dst n)"

definition piperead_resume :: "uint \<Rightarrow> cdst \<Rightarrow> int \<Rightarrow> ('x pipest_scheme, int \<times> uchar list) kop" where
  "piperead_resume p dst n = kthen (sleep_resume (Some (LK_pipe p))) (piperead_loop p dst n)"

section \<open>The ring\<close>

interpretation pip: ring_size PIPESIZE
  by unfold_locales (simp_all add: PIPESIZE_def)

definition pcontent :: "pipe \<Rightarrow> uchar list" where
  "pcontent q = ring_content PIPESIZE (pdata q) (nread q) (nwrite q)"

definition pipe_ok :: "pipe \<Rightarrow> bool" where
  "pipe_ok q \<longleftrightarrow> length (pdata q) = PIPESIZE \<and> unat (nwrite q - nread q) \<le> PIPESIZE"

definition pput :: "uchar \<Rightarrow> pipe \<Rightarrow> pipe" where
  "pput c q = q\<lparr>pdata := (pdata q)[unat (nwrite q) mod PIPESIZE := c], nwrite := nwrite q + 1\<rparr>"

lemma length_pcontent [simp]: "length (pcontent q) = unat (nwrite q - nread q)"
  by (simp add: pcontent_def)

lemma pipe_full_iff: "nwrite q = nread q + of_nat PIPESIZE \<longleftrightarrow> unat (nwrite q - nread q) = PIPESIZE"
proof -
  have "nwrite q = nread q + of_nat PIPESIZE \<longleftrightarrow> nwrite q - nread q = of_nat PIPESIZE"
    by (auto simp: algebra_simps)
  also have "\<dots> \<longleftrightarrow> unat (nwrite q - nread q) = unat (of_nat PIPESIZE :: uint)" by (rule word_unat_eq_iff)
  also have "unat (of_nat PIPESIZE :: uint) = PIPESIZE" by (simp add: PIPESIZE_def)
  finally show ?thesis .
qed

lemma pput_ok:
  assumes "pipe_ok q" "nwrite q \<noteq> nread q + of_nat PIPESIZE"
  shows "pipe_ok (pput c q)" "pcontent (pput c q) = pcontent q @ [c]"
proof -
  have r: "unat (nwrite q - nread q) < PIPESIZE"
    using assms pipe_full_iff [of q] by (simp add: pipe_ok_def)
  then have "unat (nwrite q + 1 - nread q) = Suc (unat (nwrite q - nread q))"
    by (intro unat_minus_Suc) (simp add: PIPESIZE_def)
  then show "pipe_ok (pput c q)" using assms(1) r by (simp add: pipe_ok_def pput_def)
  show "pcontent (pput c q) = pcontent q @ [c]"
    using pip.push [of "pdata q" "nwrite q" "nread q" c] assms(1) r
    by (simp add: pcontent_def pput_def pipe_ok_def PIPESIZE_def)
qed

lemma pget_ok:
  assumes "pipe_ok q" "nread q \<noteq> nwrite q"
  shows "pipe_ok (q\<lparr>nread := nread q + 1\<rparr>)"
    "pcontent q = pdata q ! (unat (nread q) mod PIPESIZE) # pcontent (q\<lparr>nread := nread q + 1\<rparr>)"
  using assms pip.pop [of "nwrite q" "nread q" "pdata q"] unat_minus_pred [of "nwrite q" "nread q"]
  by (simp_all add: pipe_ok_def pcontent_def)

section \<open>What the operations move\<close>

lemma ends_the_pipe [simp]: "ends (the_pipe p) s Q B \<longleftrightarrow> (\<forall>q. pipes s p = Some q \<longrightarrow> Q q s)"
  by (simp add: the_pipe_def ends_def split: option.split)

lemma the_pipe_apply [simp]: "pipes s p = Some q \<Longrightarrow> the_pipe p s = Ok q s"
  by (simp add: the_pipe_def)

text \<open>The byte at offset \<open>i\<close> of a source.\<close>

definition src_byte :: "csrc \<Rightarrow> 'x vmst_scheme \<Rightarrow> nat \<Rightarrow> uchar" where
  "src_byte src s i = (case fetch src i 1 s of Ok bs _ \<Rightarrow> hd bs | _ \<Rightarrow> 0)"

lemma src_byte_frame: "mem t = mem s \<Longrightarrow> cr3 t = cr3 s \<Longrightarrow> src_byte src t i = src_byte src s i"
  by (cases src) (simp_all add: src_byte_def fetch_def vload_def kbind_def split: option.split)

text \<open>
  From \<open>s\<close> to \<open>t\<close> the pipe takes in \<open>ws\<close> and gives out \<open>rs\<close>, in order.
\<close>

definition flows :: "uint \<Rightarrow> uchar list \<Rightarrow> uchar list \<Rightarrow> 'x pipest_scheme \<Rightarrow> 'y pipest_scheme \<Rightarrow> bool" where
  "flows p ws rs s t \<longleftrightarrow> (\<forall>q. pipes s p = Some q \<longrightarrow> pipe_ok q \<longrightarrow>
     (\<exists>q'. pipes t p = Some q' \<and> pipe_ok q' \<and> pcontent q @ ws = rs @ pcontent q' \<and>
        nwrite q' = nwrite q + of_nat (length ws)))"

lemma flows_same: "pipes t = pipes s \<Longrightarrow> flows p [] [] s t"
  by (simp add: flows_def)

lemma flows_trans:
  assumes "flows p ws rs s t" "flows p ws' rs' t u"
  shows "flows p (ws @ ws') (rs @ rs') s u"
  unfolding flows_def
proof (intro allI impI)
  fix q assume "pipes s p = Some q" "pipe_ok q"
  then obtain q' where q': "pipes t p = Some q'" "pipe_ok q'" "pcontent q @ ws = rs @ pcontent q'"
      "nwrite q' = nwrite q + of_nat (length ws)"
    using assms(1) unfolding flows_def by blast
  then obtain q'' where q'': "pipes u p = Some q''" "pipe_ok q''" "pcontent q' @ ws' = rs' @ pcontent q''"
      "nwrite q'' = nwrite q' + of_nat (length ws')"
    using assms(2) unfolding flows_def by blast
  have "pcontent q @ ws @ ws' = rs @ pcontent q' @ ws'" using q'(3) by (metis append.assoc)
  also have "\<dots> = rs @ rs' @ pcontent q''" using q''(3) by simp
  finally show "\<exists>q'. pipes u p = Some q' \<and> pipe_ok q' \<and> pcontent q @ ws @ ws' = (rs @ rs') @ pcontent q' \<and>
      nwrite q' = nwrite q + of_nat (length (ws @ ws'))"
    using q' q'' by (simp add: algebra_simps)
qed

lemma flows_put:
  assumes "pipes s p = Some q" "nwrite q \<noteq> nread q + of_nat PIPESIZE" "pipes t p = Some (pput c q)"
  shows "flows p [c] [] s t"
  using assms pput_ok [of q c] by (simp add: flows_def pput_def)

lemma flows_get:
  assumes "pipes s p = Some q" "nread q \<noteq> nwrite q" "pipes t p = Some (q\<lparr>nread := nread q + 1\<rparr>)"
  shows "flows p [] [pdata q ! (unat (nread q) mod PIPESIZE)] s t"
  using assms pget_ok [of q] by (simp add: flows_def)

lemma flows_pipes: "flows p ws rs s t \<Longrightarrow> pipes t = pipes u \<Longrightarrow> flows p ws rs s u"
  by (simp add: flows_def)

lemma flows_pipes0: "flows p ws rs s t \<Longrightarrow> pipes s = pipes r \<Longrightarrow> flows p ws rs r t"
  by (simp add: flows_def)

lemma pipewrite_loop_ends:
  fixes s :: "'x pipest_scheme"
  shows "ends (pipewrite_loop p src i n) s
     (\<lambda>ok t. \<exists>k. flows p (map (src_byte src s) [i..<i + k]) [] s t)
     (\<lambda>t. \<exists>k. flows p (map (src_byte src s) [i..<i + k]) [] s t)"
proof (induction n arbitrary: i s)
  case 0
  show ?case by (auto intro!: exI [of _ 0] flows_same)
next
  case (Suc n)
  have none: "\<exists>k. flows p (map (src_byte src s) [i..<i + k]) [] s t" if "pipes t = pipes s" for t :: "'x pipest_scheme"
    using that by (auto intro!: exI [of _ 0] flows_same)
  have more: "\<exists>k. flows p (map (src_byte src s) [i..<i + k]) [] s u"
    if q: "pipes s p = Some q" "nwrite q \<noteq> nread q + of_nat PIPESIZE"
      and t: "t = s\<lparr>pipes := (pipes s)(p \<mapsto> pput (src_byte src s i) q)\<rparr>"
      and u: "\<exists>k. flows p (map (src_byte src t) [Suc i..<Suc i + k]) [] t u" for q and t u :: "'x pipest_scheme"
  proof -
    have b: "src_byte src t = src_byte src s" by (rule ext, rule src_byte_frame) (simp_all add: t)
    obtain k where "flows p (map (src_byte src s) [Suc i..<Suc i + k]) [] t u" using u b by auto
    from flows_trans [OF flows_put [OF q, of t "src_byte src s i"] this]
    have "flows p (src_byte src s i # map (src_byte src s) [Suc i..<Suc i + k]) [] s u" by (simp add: t)
    moreover have "[i..<i + Suc k] = i # [Suc i..<Suc i + k]" by (simp add: upt_conv_Cons del: upt_Suc)
    ultimately show ?thesis by (intro exI [of _ "Suc k"]) (simp del: upt_Suc)
  qed
  have step: "ends (pipewrite_loop p src (Suc i) n) (s\<lparr>pipes := (pipes s)(p \<mapsto> pput (hd bs) q)\<rparr>)
      (\<lambda>ok t. \<exists>k. flows p (map (src_byte src s) [i..<i + k]) [] s t)
      (\<lambda>t. \<exists>k. flows p (map (src_byte src s) [i..<i + k]) [] s t)"
    if "fetch src i (Suc 0) s = Ok bs s" "pipes s p = Some q" "nwrite q \<noteq> nread q + of_nat PIPESIZE" for bs q
  proof -
    have "hd bs = src_byte src s i" using that(1) by (simp add: src_byte_def)
    note m = more [OF that(2,3) refl, folded this]
    show ?thesis by (rule ends_mono [OF Suc.IH]) (erule m)+
  qed
  show ?case
    by (auto simp: none step pput_def [symmetric] intro!: ends_fetch ends_sleep)
qed

text \<open>Some bytes of the source from offset \<open>i\<close> on have gone into the pipe.\<close>

definition wrote :: "uint \<Rightarrow> csrc \<Rightarrow> nat \<Rightarrow> 'x pipest_scheme \<Rightarrow> 'x pipest_scheme \<Rightarrow> bool" where
  "wrote p src i s t \<longleftrightarrow> (\<exists>k. flows p (map (src_byte src s) [i..<i + k]) [] s t)"

lemma wrote_frame:
  assumes "wrote p src i u t" "pipes u = pipes s" "mem u = mem s" "cr3 u = cr3 s" "pipes t = pipes t'"
  shows "wrote p src i s t'"
proof -
  have "src_byte src u = src_byte src s" by (rule ext, rule src_byte_frame) (simp_all add: assms)
  then show ?thesis
    using assms(1) unfolding wrote_def by (auto simp: flows_def assms(2,5))
qed

lemma pipewrite_rest_ends:
  assumes "pipes u = pipes s" "mem u = mem s" "cr3 u = cr3 s"
  shows "ends (kbind (pipewrite_loop p src i m) (pipewrite_end p n)) u (\<lambda>_. wrote p src i s) (wrote p src i s)"
proof -
  have "ends (pipewrite_loop p src i m) u (\<lambda>_. wrote p src i u) (wrote p src i u)"
    using pipewrite_loop_ends [of p src i m u] by (simp add: wrote_def [abs_def])
  then have "ends (pipewrite_loop p src i m) u
      (\<lambda>ok t. ends (pipewrite_end p n ok) t (\<lambda>_. wrote p src i s) (wrote p src i s)) (wrote p src i s)"
    by (rule ends_mono) (auto simp: pipewrite_end_def elim: wrote_frame [OF _ assms])
  then show ?thesis by simp
qed

lemma pipewrite_ends:
  "ends (pipewrite p src n) s (\<lambda>_. wrote p src 0 s) (wrote p src 0 s)"
  "ends (pipewrite_resume p src n i) s (\<lambda>_. wrote p src i s) (wrote p src i s)"
  unfolding pipewrite_def pipewrite_resume_def ends_kthen
  by (auto simp: pipewrite_rest_ends simp del: ends_kbind intro!: ends_sleep_resume)

lemma piperead_copy_ends:
  fixes s :: "'x pipest_scheme"
  shows "ends (piperead_copy p dst i n) s (\<lambda>cs t. flows p [] cs s t) (\<lambda>t. False)"
proof (induction n arbitrary: i s)
  case 0
  show ?case by (simp add: flows_same)
next
  case (Suc n)
  have "ends (piperead_copy p dst (Suc i) n) t (\<lambda>cs u. flows p [] (c # cs) s u) (\<lambda>t. False)"
    if "pipes s p = Some q" "nread q \<noteq> nwrite q" "c = pdata q ! (unat (nread q) mod PIPESIZE)"
      and t: "t = s\<lparr>pipes := (pipes s)(p \<mapsto> q\<lparr>nread := nread q + 1\<rparr>), mem := m\<rparr>" for q c m and t :: "'x pipest_scheme"
    by (rule ends_mono [OF Suc.IH])
      (use flows_trans [OF flows_get [OF that(1,2), of t]] that(3) t in auto)
  then show ?case by (auto simp: Let_def flows_same intro!: ends_deliver)
qed

lemma piperead_loop_ends:
  fixes s :: "'x pipest_scheme"
  shows "ends (piperead_loop p dst n) s (\<lambda>(_, cs) t. flows p [] cs s t) (\<lambda>t. flows p [] [] s t)"
proof -
  have "ends (piperead_copy p dst 0 (nat n)) s (\<lambda>cs t. LK_ptable \<notin> set (held t) \<longrightarrow> LK_pipe p \<in> set (held t) \<longrightarrow>
       flows p [] cs s (t\<lparr>procs := map (wake_proc (Ch_nwrite p)) (procs t), held := remove1 (LK_pipe p) (held t)\<rparr>))
     (\<lambda>t. flows p [] [] s t)"
    by (rule ends_mono [OF piperead_copy_ends]) (auto elim: flows_pipes)
  then show ?thesis by (auto simp: piperead_loop_def flows_same intro!: ends_sleep)
qed

lemma piperead_ends:
  fixes s :: "'x pipest_scheme"
  shows "ends (piperead p dst n) s (\<lambda>(_, cs) t. flows p [] cs s t) (\<lambda>t. flows p [] [] s t)"
    and "ends (piperead_resume p dst n) s (\<lambda>(_, cs) t. flows p [] cs s t) (\<lambda>t. flows p [] [] s t)"
proof -
  have *: "ends (piperead_loop p dst n) u (\<lambda>(_, cs) t. flows p [] cs s t) (\<lambda>t. flows p [] [] s t)"
    if "pipes u = pipes s" for u
    by (rule ends_mono [OF piperead_loop_ends]) (auto elim: flows_pipes0 simp: that)
  show "ends (piperead p dst n) s (\<lambda>(_, cs) t. flows p [] cs s t) (\<lambda>t. flows p [] [] s t)"
    by (simp add: piperead_def *)
  show "ends (piperead_resume p dst n) s (\<lambda>(_, cs) t. flows p [] cs s t) (\<lambda>t. flows p [] [] s t)"
    by (simp add: piperead_resume_def * ends_sleep_resume)
qed

section \<open>Pipes are queues\<close>

text \<open>
  A history of one pipe from state \<open>s0\<close>: writes and reads by any processes, in any order,
  including those that give up the CPU half way and are resumed later, with anything in between
  that leaves the ring alone. \<open>ws\<close> is what was put in and \<open>rs\<close> what was given out.
\<close>

definition stored :: "uint \<Rightarrow> 'x pipest_scheme \<Rightarrow> 'x pipest_scheme \<Rightarrow> nat" where
  "stored p s t = unat (nwrite (the (pipes t p)) - nwrite (the (pipes s p)))"

definition pring :: "pipe \<Rightarrow> uchar list \<times> uint \<times> uint" where
  "pring q = (pdata q, nread q, nwrite q)"

inductive pipe_run :: "uint \<Rightarrow> 'x pipest_scheme \<Rightarrow> uchar list \<Rightarrow> uchar list \<Rightarrow> 'x pipest_scheme \<Rightarrow> bool"
  for p s0 where
  run_start: "pipe_run p s0 [] [] s0"
| run_write: "pipe_run p s0 ws rs s \<Longrightarrow> pipewrite p src n s = Ok r t \<or> pipewrite p src n s = Block t \<Longrightarrow>
    pipe_run p s0 (ws @ map (src_byte src s) [0..<stored p s t]) rs t"
| run_wresume: "pipe_run p s0 ws rs s \<Longrightarrow>
    pipewrite_resume p src n i s = Ok r t \<or> pipewrite_resume p src n i s = Block t \<Longrightarrow>
    pipe_run p s0 (ws @ map (src_byte src s) [i..<i + stored p s t]) rs t"
| run_read: "pipe_run p s0 ws rs s \<Longrightarrow>
    piperead p dst n s = Ok (r, cs) t \<or> piperead_resume p dst n s = Ok (r, cs) t \<Longrightarrow> pipe_run p s0 ws (rs @ cs) t"
| run_rsleep: "pipe_run p s0 ws rs s \<Longrightarrow> piperead p dst n s = Block t \<or> piperead_resume p dst n s = Block t \<Longrightarrow>
    pipe_run p s0 ws rs t"
| run_other: "pipe_run p s0 ws rs s \<Longrightarrow> map_option pring (pipes t p) = map_option pring (pipes s p) \<Longrightarrow>
    pipe_run p s0 ws rs t"

lemma flows_other:
  assumes "map_option pring (pipes t p) = map_option pring (pipes s p)"
  shows "flows p [] [] s t"
  using assms by (auto simp: flows_def pring_def pipe_ok_def pcontent_def)

lemma flowsD:
  assumes "flows p ws rs s t" "pipes s p = Some q" "pipe_ok q"
  obtains q' where "pipes t p = Some q'" "pipe_ok q'" "pcontent q @ ws = rs @ pcontent q'"
    "nwrite q' = nwrite q + of_nat (length ws)"
  using assms unfolding flows_def by blast

lemma wrote_stored:
  assumes w: "wrote p src i s t" and q: "pipes s p = Some q" "pipe_ok q"
  shows "flows p (map (src_byte src s) [i..<i + stored p s t]) [] s t"
proof -
  obtain k where k: "flows p (map (src_byte src s) [i..<i + k]) [] s t" using w by (auto simp: wrote_def)
  obtain q' where q': "pipes t p = Some q'" "pipe_ok q'" "pcontent q @ map (src_byte src s) [i..<i + k] = pcontent q'"
      "nwrite q' = nwrite q + of_nat k"
    by (rule flowsD [OF k q]) auto
  have "length (pcontent q) + k = length (pcontent q')" using q'(3) by (metis length_append length_map length_upt diff_add_inverse)
  then have "k < 4294967296" using q'(2) by (simp add: pipe_ok_def PIPESIZE_def)
  then have "stored p s t = k" using q q'(1,4) by (simp add: stored_def unat_of_nat_uint)
  then show ?thesis using k by simp
qed

lemma pipe_run_flows:
  assumes "pipe_run p s0 ws rs t" "pipes s0 p = Some q" "pipe_ok q"
  shows "flows p ws rs s0 t"
  using assms(1)
proof (induction rule: pipe_run.induct)
  case run_start
  show ?case by (simp add: flows_same)
next
  case (run_write ws rs s src n r t)
  have "wrote p src 0 s t"
    using run_write.hyps(2) endsD [OF pipewrite_ends(1)] endsD_Block [OF pipewrite_ends(1)] by blast
  moreover obtain q' where "pipes s p = Some q'" "pipe_ok q'" by (rule flowsD [OF run_write.IH assms(2,3)])
  ultimately have "flows p (map (src_byte src s) [0..<stored p s t]) [] s t"
    using wrote_stored [of p src 0 s t] by simp
  from flows_trans [OF run_write.IH this] show ?case by simp
next
  case (run_wresume ws rs s src n i r t)
  have "wrote p src i s t"
    using run_wresume.hyps(2) endsD [OF pipewrite_ends(2)] endsD_Block [OF pipewrite_ends(2)] by blast
  moreover obtain q' where "pipes s p = Some q'" "pipe_ok q'" by (rule flowsD [OF run_wresume.IH assms(2,3)])
  ultimately have "flows p (map (src_byte src s) [i..<i + stored p s t]) [] s t" by (rule wrote_stored)
  from flows_trans [OF run_wresume.IH this] show ?case by simp
next
  case (run_read ws rs s dst n r cs t)
  have "flows p [] cs s t"
    using run_read.hyps(2) endsD [OF piperead_ends(1) [of p dst n s]] endsD [OF piperead_ends(2) [of p dst n s]] by fastforce
  from flows_trans [OF run_read.IH this] show ?case by simp
next
  case (run_rsleep ws rs s dst n t)
  have "flows p [] [] s t"
    using run_rsleep.hyps(2) endsD_Block [OF piperead_ends(1) [of p dst n s]] endsD_Block [OF piperead_ends(2) [of p dst n s]] by blast
  from flows_trans [OF run_rsleep.IH this] show ?case by simp
next
  case (run_other ws rs s t)
  from flows_trans [OF run_other.IH flows_other [OF run_other.hyps(2)]] show ?case by simp
qed

text \<open>
  C7.
  A pipe is a queue: whatever the interleaving of readers and writers, and although the two
  32-bit counters wrap around, the bytes the readers got followed by the bytes in the ring are
  exactly the bytes the writers stored, in the same order; the ring never holds more than
  \<open>PIPESIZE\<close> of them.
\<close>

theorem pipe_fifo:
  assumes "pipe_run p s0 ws rs t" "pipes s0 p = Some q0" "pipe_ok q0" "nread q0 = nwrite q0"
  shows "\<exists>q. pipes t p = Some q \<and> ws = rs @ pcontent q \<and> length (pcontent q) \<le> PIPESIZE"
proof -
  obtain q where q: "pipes t p = Some q" "pipe_ok q" "pcontent q0 @ ws = rs @ pcontent q"
    by (rule flowsD [OF pipe_run_flows [OF assms(1-3)] assms(2,3)])
  moreover have "pcontent q0 = []" using assms(4) by (simp add: pcontent_def)
  ultimately show ?thesis by (auto simp: pipe_ok_def)
qed

definition wit_pipe :: pipe where
  "wit_pipe = \<lparr>pdata = replicate 512 0, nread = 0xFFFFFFFF, nwrite = 0xFFFFFFFF, readopen = True, writeopen = True\<rparr>"

definition wit_pi :: "pipe \<Rightarrow> pipest" where
  "wit_pi q = kst.extend (wit_kst (wit_cst (wit_ist (wit_lst [] wit_zero 0 [] 0) (sb_of []) []) [] 0 0 0) [])
     (pipest.fields [0x80400000 \<mapsto> q])"

lemma wit_pi_sel [simp]:
  "pipes (wit_pi q) = [0x80400000 \<mapsto> q]" "held (wit_pi q) = []" "procs (wit_pi q) = replicate 64 proc_zero"
  "cur (wit_pi q) = Some 0" "ticks (wit_pi q) = 0"
  by (simp_all add: wit_pi_def wit_kst_def wit_cst_def wit_ist_def wit_lst_def lst.defs ist.defs cst.defs kst.defs pipest.defs)

lemma wit_pipe_ok: "pipe_ok wit_pipe"
  by (simp add: pipe_ok_def wit_pipe_def PIPESIZE_def)

lemma pipewrite_loop_fits:
  assumes "pipes s p = Some q" "pipe_ok q" "length (pcontent q) + n \<le> PIPESIZE"
    "\<And>j. i \<le> j \<Longrightarrow> j < i + n \<Longrightarrow> \<exists>bs. fetch src j 1 s = Ok bs s"
  shows "\<exists>q'. pipewrite_loop p src i n s = Ok True (s\<lparr>pipes := (pipes s)(p \<mapsto> q')\<rparr>) \<and> pipe_ok q' \<and>
    pcontent q' = pcontent q @ map (src_byte src s) [i..<i + n]"
  using assms
proof (induction n arbitrary: i q s)
  case 0
  then have e: "s\<lparr>pipes := (pipes s)(p \<mapsto> q)\<rparr> = s" by (cases s) (simp add: fun_upd_idem)
  show ?case by (rule exI [of _ q], unfold e) (simp add: 0(2))
next
  case (Suc n)
  obtain bs where bs: "fetch src i (Suc 0) s = Ok bs s" using Suc.prems(4) [of i] by auto
  then have b: "hd bs = src_byte src s i" by (simp add: src_byte_def)
  have nf: "nwrite q \<noteq> nread q + of_nat PIPESIZE" using Suc.prems(3) pipe_full_iff [of q] by simp
  note put = pput_ok [OF Suc.prems(2) nf, of "hd bs"]
  let ?t = "s\<lparr>pipes := (pipes s)(p \<mapsto> pput (hd bs) q)\<rparr>"
  have f: "src_byte src ?t = src_byte src s" by (rule ext, rule src_byte_frame) simp_all
  have "\<exists>q'. pipewrite_loop p src (Suc i) n ?t = Ok True (?t\<lparr>pipes := (pipes ?t)(p \<mapsto> q')\<rparr>) \<and>
      pipe_ok q' \<and> pcontent q' = pcontent (pput (hd bs) q) @ map (src_byte src ?t) [Suc i..<Suc i + n]"
  proof (rule Suc.IH)
    show "pipes ?t p = Some (pput (hd bs) q)" "pipe_ok (pput (hd bs) q)" using put(1) by simp_all
    show "length (pcontent (pput (hd bs) q)) + n \<le> PIPESIZE" using Suc.prems(3) unfolding put(2) by simp
    show "\<exists>bs. fetch src j 1 ?t = Ok bs ?t" if "Suc i \<le> j" "j < Suc i + n" for j
    proof -
      obtain cs where "fetch src j 1 s = Ok cs s" using Suc.prems(4) [of j] \<open>Suc i \<le> j\<close> \<open>j < Suc i + n\<close> by auto
      then show ?thesis by (cases src) (auto simp: fetch_def vload_def kbind_def split: option.splits)
    qed
  qed
  then obtain q' where q': "pipewrite_loop p src (Suc i) n ?t = Ok True (?t\<lparr>pipes := (pipes ?t)(p \<mapsto> q')\<rparr>)"
      "pipe_ok q'" "pcontent q' = pcontent (pput (hd bs) q) @ map (src_byte src ?t) [Suc i..<Suc i + n]"
    by blast
  have l: "pipewrite_loop p src i (Suc n) s = Ok True (s\<lparr>pipes := (pipes s)(p \<mapsto> q')\<rparr>)"
    using Suc.prems(1) nf bs q'(1) by (simp add: pput_def)
  have "[i..<i + Suc n] = i # [Suc i..<Suc i + n]" by (simp add: upt_conv_Cons del: upt_Suc)
  then have "pcontent q' = pcontent q @ map (src_byte src s) [i..<i + Suc n]"
    using q'(3) b f put(2) by (simp del: upt_Suc)
  with l q'(2) show ?case by blast
qed

lemma pipewrite_fits:
  assumes "pipes s p = Some q" "pipe_ok q" "LK_pipe p \<notin> set (held s)" "LK_ptable \<notin> set (held s)"
    "length (pcontent q) + n \<le> PIPESIZE" "\<And>j. j < n \<Longrightarrow> \<exists>bs. fetch src j 1 s = Ok bs s"
  shows "\<exists>t q'. pipewrite p src (int n) s = Ok (int n) t \<and> pipes t p = Some q' \<and> pipe_ok q' \<and>
    pcontent q' = pcontent q @ map (src_byte src s) [0..<n] \<and>
    procs t = map (wake_proc (Ch_nread p)) (procs s) \<and> held t = held s"
proof -
  let ?s = "s\<lparr>held := LK_pipe p # held s\<rparr>"
  have f: "src_byte src ?s = src_byte src s" by (rule ext, rule src_byte_frame) simp_all
  have "\<exists>bs. fetch src j 1 ?s = Ok bs ?s" if "0 \<le> j" "j < 0 + n" for j
    using assms(6) [of j] that
    by (cases src) (auto simp: fetch_def vload_def kbind_def split: option.splits)
  then obtain q' where "pipewrite_loop p src 0 n ?s = Ok True (?s\<lparr>pipes := (pipes ?s)(p \<mapsto> q')\<rparr>)" "pipe_ok q'"
      "pcontent q' = pcontent q @ map (src_byte src s) [0..<n]"
    using pipewrite_loop_fits [of ?s p q n 0 src] assms(1,2,5) f by auto
  then show ?thesis using assms(3,4) by (auto simp: pipewrite_def pipewrite_end_def wakeup_ok)
qed

theorem pipe_fifo_witness:
  "\<exists>t q. pipewrite 0x80400000 (Src_local [65, 66]) 2 (wit_pi wit_pipe) = Ok 2 t \<and> pipes t 0x80400000 = Some q \<and>
     pcontent q = [65, 66] \<and>
     pcontent q = map (src_byte (Src_local [65, 66]) (wit_pi wit_pipe)) [0..<stored 0x80400000 (wit_pi wit_pipe) t]"
proof -
  let ?s = "wit_pi wit_pipe" and ?src = "Src_local [65, 66]"
  have f: "\<exists>bs. fetch ?src j 1 ?s = Ok bs ?s" for j by (simp add: fetch_def)
  have "\<exists>t q'. pipewrite 0x80400000 ?src (int 2) ?s = Ok (int 2) t \<and> pipes t 0x80400000 = Some q' \<and> pipe_ok q' \<and>
    pcontent q' = pcontent wit_pipe @ map (src_byte ?src ?s) [0..<2] \<and>
    procs t = map (wake_proc (Ch_nread 0x80400000)) (procs ?s) \<and> held t = held ?s"
    by (rule pipewrite_fits [OF _ wit_pipe_ok _ _ _ f]) (simp_all add: wit_pipe_def PIPESIZE_def)
  then obtain t q' where t: "pipewrite 0x80400000 ?src 2 ?s = Ok 2 t" "pipes t 0x80400000 = Some q'"
      "pcontent q' = pcontent wit_pipe @ map (src_byte ?src ?s) [0..<2]" by auto
  have "pipe_run 0x80400000 ?s ([] @ map (src_byte ?src ?s) [0..<stored 0x80400000 ?s t]) [] t"
    by (rule run_write [OF run_start]) (use t in blast)
  from pipe_fifo [OF this, where ?q0.0 = wit_pipe] wit_pipe_ok
  have "\<exists>q. pipes t 0x80400000 = Some q \<and> map (src_byte ?src ?s) [0..<stored 0x80400000 ?s t] = pcontent q"
    by (auto simp: wit_pipe_def)
  moreover have "pcontent wit_pipe = []" by (simp add: pcontent_def wit_pipe_def)
  ultimately show ?thesis using t by (auto simp: numeral_2_eq_2 src_byte_def fetch_def)
qed





end
