(* ===== verification/File.thy ===== *)
theory File
  imports Pipe
begin

text \<open>
  The table of open files (\<open>file.c\<close>) and \<open>pipealloc\<close>. A \<open>struct file\<close> is its index in
  \<open>ftable.file\<close>.
\<close>

section \<open>Operations\<close>

definition NFILE :: nat where "NFILE = 100"

datatype ftype = FD_NONE | FD_PIPE | FD_INODE

record sfile =
  f_type :: ftype
  f_ref :: int
  f_readable :: bool
  f_writable :: bool
  f_pipe :: uint
  f_ip :: nat
  f_off :: uint

record flst = pipest +
  files :: "sfile list"

abbreviation upd_file :: "nat \<Rightarrow> (sfile \<Rightarrow> sfile) \<Rightarrow> ('x flst_scheme, unit) kop" where
  "upd_file f g \<equiv> kmod (\<lambda>s. s\<lparr>files := (files s)[f := g (files s ! f)]\<rparr>)"

definition filealloc :: "('x flst_scheme, nat option) kop" where
  "filealloc =
     kthen (acquire LK_ftable) (
     kbind (kget (\<lambda>s. find_idx (\<lambda>f. f_ref f = 0) (files s))) (\<lambda>found.
     case found of
       Some f \<Rightarrow> kthen (upd_file f (\<lambda>x. x\<lparr>f_ref := 1\<rparr>)) (kthen (release LK_ftable) (kret (Some f)))
     | None \<Rightarrow> kthen (release LK_ftable) (kret None)))"

definition filedup :: "nat \<Rightarrow> ('x flst_scheme, nat) kop" where
  "filedup f =
     kthen (acquire LK_ftable) (
     kbind (kget (\<lambda>s. f_ref (files s ! f))) (\<lambda>r.
     kthen (kguard (r < 1) ''filedup'') (
     kthen (upd_file f (\<lambda>x. x\<lparr>f_ref := f_ref x + 1\<rparr>)) (
     kthen (release LK_ftable) (kret f)))))"

definition fileclose :: "nat \<Rightarrow> ('x flst_scheme, unit) kop" where
  "fileclose f =
     kthen (acquire LK_ftable) (
     kbind (kget (\<lambda>s. f_ref (files s ! f))) (\<lambda>r.
     kthen (kguard (r < 1) ''fileclose'') (
     kthen (upd_file f (\<lambda>x. x\<lparr>f_ref := f_ref x - 1\<rparr>)) (
     if r - 1 > 0 then release LK_ftable
     else
       kbind (kget (\<lambda>s. files s ! f)) (\<lambda>ff.
       kthen (upd_file f (\<lambda>x. x\<lparr>f_ref := 0, f_type := FD_NONE\<rparr>)) (
       kthen (release LK_ftable) (
       case f_type ff of
         FD_PIPE \<Rightarrow> pipeclose (f_pipe ff) (f_writable ff)
       | FD_INODE \<Rightarrow> kthen begin_op (kthen (iput (f_ip ff)) end_op)
       | FD_NONE \<Rightarrow> kret ())))))))"

text \<open>None: the file has no inode.\<close>

definition filestat :: "nat \<Rightarrow> ('x flst_scheme, stat option) kop" where
  "filestat f =
     kbind (kget (\<lambda>s. files s ! f)) (\<lambda>x.
     if f_type x = FD_INODE then
       kthen (ilock (f_ip x)) (
       kbind (stati (f_ip x)) (\<lambda>st.
       kthen (iunlock (f_ip x)) (kret (Some st))))
     else kret None)"

definition fileread :: "nat \<Rightarrow> cdst \<Rightarrow> int \<Rightarrow> ('x flst_scheme, int \<times> uchar list) kop" where
  "fileread f dst n =
     kbind (kget (\<lambda>s. files s ! f)) (\<lambda>x.
     if \<not> f_readable x then kret (- 1, [])
     else case f_type x of
       FD_PIPE \<Rightarrow> piperead (f_pipe x) dst n
     | FD_INODE \<Rightarrow>
         kthen (ilock (f_ip x)) (
         kbind (kget (\<lambda>s. f_off (files s ! f))) (\<lambda>off.
         kbind (readi (f_ip x) dst off (word_of_int n)) (\<lambda>(r, bs).
         kthen (kwhen (r > 0) (upd_file f (\<lambda>x. x\<lparr>f_off := f_off x + word_of_int r\<rparr>))) (
         kthen (iunlock (f_ip x)) (kret (r, bs))))))
     | FD_NONE \<Rightarrow> panic ''fileread'')"

text \<open>
  The loop of \<open>filewrite\<close>, with \<open>i\<close> bytes written of \<open>n\<close>; the result is the final \<open>i\<close>. A turn
  that goes on writes at least one byte, so \<open>n\<close> turns are enough.
\<close>

definition file_max :: int where "file_max = ((int LOGSIZE - 1 - 1 - 2) div 2) * 512"

definition src_plus :: "csrc \<Rightarrow> nat \<Rightarrow> csrc" where
  "src_plus src i = (case src of Src_local bs \<Rightarrow> Src_local (drop i bs) | Src_addr a \<Rightarrow> Src_addr (a + of_nat i))"

primrec filewrite_loop :: "nat \<Rightarrow> nat \<Rightarrow> csrc \<Rightarrow> int \<Rightarrow> int \<Rightarrow> ('x flst_scheme, int) kop" where
  "filewrite_loop 0 f src n i = kret i"
| "filewrite_loop (Suc k) f src n i =
     (if \<not> i < n then kret i
      else let n1 = min (n - i) file_max in
        kthen begin_op (
        kbind (kget (\<lambda>s. f_ip (files s ! f))) (\<lambda>ip.
        kthen (ilock ip) (
        kbind (kget (\<lambda>s. f_off (files s ! f))) (\<lambda>off.
        kbind (writei ip (src_plus src (nat i)) off (word_of_int n1)) (\<lambda>r.
        kthen (kwhen (r > 0) (upd_file f (\<lambda>x. x\<lparr>f_off := f_off x + word_of_int r\<rparr>))) (
        kthen (iunlock ip) (
        kthen end_op (
        if r < 0 then kret i
        else kthen (kguard (r \<noteq> n1) ''short filewrite'') (filewrite_loop k f src n (i + r)))))))))))"

definition filewrite :: "nat \<Rightarrow> csrc \<Rightarrow> int \<Rightarrow> ('x flst_scheme, int) kop" where
  "filewrite f src n =
     kbind (kget (\<lambda>s. files s ! f)) (\<lambda>x.
     if \<not> f_writable x then kret (- 1)
     else case f_type x of
       FD_PIPE \<Rightarrow> pipewrite (f_pipe x) src n
     | FD_INODE \<Rightarrow> kbind (filewrite_loop (nat n) f src n 0) (\<lambda>i. kret (if i = n then n else - 1))
     | FD_NONE \<Rightarrow> panic ''filewrite'')"

text \<open>The new pipe's data is what the page holds; \<open>data\<close> follows the 52 bytes of the lock.\<close>

definition pipealloc :: "('x flst_scheme, (nat \<times> nat) option) kop" where
  "pipealloc =
     kbind filealloc (\<lambda>f0.
     case f0 of
       None \<Rightarrow> kret None
     | Some f0 \<Rightarrow>
         kbind filealloc (\<lambda>f1.
         case f1 of
           None \<Rightarrow> kthen (fileclose f0) (kret None)
         | Some f1 \<Rightarrow>
             kbind kalloc (\<lambda>p.
             if p = 0 then kthen (fileclose f0) (kthen (fileclose f1) (kret None))
             else
               kthen (kmod (\<lambda>s. s\<lparr>pipes := (pipes s)(p \<mapsto>
                        \<lparr>pdata = map (\<lambda>i. mem s (p + 52 + of_nat i)) [0..<PIPESIZE],
                         nread = 0, nwrite = 0, readopen = True, writeopen = True\<rparr>)\<rparr>)) (
               kthen (upd_file f0 (\<lambda>x. x\<lparr>f_type := FD_PIPE, f_readable := True, f_writable := False, f_pipe := p\<rparr>)) (
               kthen (upd_file f1 (\<lambda>x. x\<lparr>f_type := FD_PIPE, f_readable := False, f_writable := True, f_pipe := p\<rparr>))
                 (kret (Some (f0, f1))))))))"

end
