(* ===== verification/Proclife.thy ===== *)
theory Proclife
  imports File
begin

text \<open>
  The life of a process in \<open>proc.c\<close>, on top of the file system: \<open>userinit\<close>, \<open>fork\<close>,
  \<open>exit\<close>, \<open>forkret\<close>, and \<open>exec\<close> (\<open>exec.c\<close>) with \<open>loaduvm\<close> (\<open>vm.c\<close>).
\<close>

section \<open>Creation and exit\<close>

record xst = flst +
  forkret_first :: bool

text \<open>\<open>initcode\<close> is what the linker places at \<open>_binary_initcode_start\<close>.\<close>

definition user_tf :: trapframe where
  "user_tf = tf_zero\<lparr>tf_cs := 0x23, tf_ds := 0x2B, tf_es := 0x2B, tf_ss := 0x2B, tf_eflags := 0x200,
     tf_esp := PGSIZE, tf_eip := 0\<rparr>"

definition userinit :: "uint \<Rightarrow> uint \<Rightarrow> ('x flst_scheme, unit) kop" where
  "userinit initcode len =
     kbind allocproc (\<lambda>p.
     kthen (kmod (\<lambda>s. s\<lparr>initproc := p\<rparr>)) (
     case p of None \<Rightarrow> panic ''trap'' | Some p \<Rightarrow>
     kbind setupkvm (\<lambda>d.
     kthen (upd_proc p (\<lambda>x. x\<lparr>pgdir := d\<rparr>)) (
     kthen (kguard (d = 0) ''userinit: out of memory?'') (
     kthen (inituvm d initcode len) (
     kthen (upd_proc p (\<lambda>x. x\<lparr>sz := PGSIZE, tf := user_tf, parent := Some p, uid := 69, gid := 420,
              pname := blit (pname x) 0 (safestrcpy_w (str_bytes ''initcode'') 16)\<rparr>)) (
     kbind (namei [slash]) (\<lambda>c.
     upd_proc p (\<lambda>x. x\<lparr>cwd := c, pstate := RUNNABLE\<rparr>)))))))))"

text \<open>The copying of the descriptors in \<open>fork\<close>.\<close>

definition fork_file :: "nat \<Rightarrow> nat \<Rightarrow> nat \<Rightarrow> ('x flst_scheme, unit) kop" where
  "fork_file c np i =
     kbind (kget (\<lambda>s. ofile (procs s ! c) ! i)) (\<lambda>f.
     case f of None \<Rightarrow> kret ()
     | Some f \<Rightarrow> kbind (filedup f) (\<lambda>g. upd_proc np (\<lambda>x. x\<lparr>ofile := (ofile x)[i := Some g]\<rparr>)))"

definition fork :: "('x flst_scheme, int) kop" where
  "fork =
     kbind allocproc (\<lambda>r.
     case r of None \<Rightarrow> kret (- 1) | Some np \<Rightarrow>
     kbind myproc (\<lambda>c.
     kbind (kget (\<lambda>s. procs s ! c)) (\<lambda>p.
     kbind (copyuvm (pgdir p) (sz p)) (\<lambda>d.
     kthen (upd_proc np (\<lambda>x. x\<lparr>pgdir := d\<rparr>)) (
     if d = 0 then
       kbind (kget (\<lambda>s. kstack (procs s ! np))) (\<lambda>k.
       kthen (kfree k) (
       kthen (upd_proc np (\<lambda>x. x\<lparr>kstack := 0, pstate := UNUSED\<rparr>)) (kret (- 1))))
     else
       kthen (upd_proc np (\<lambda>x. x\<lparr>sz := sz p, parent := Some c, tf := (tf p)\<lparr>tf_eax := 0\<rparr>, uid := uid p, gid := gid p\<rparr>)) (
       kthen (kfor [0..<NOFILE] (fork_file c np)) (
       kbind (case cwd p of None \<Rightarrow> ub | Some d \<Rightarrow> idup d) (\<lambda>d.
       kthen (upd_proc np (\<lambda>x. x\<lparr>cwd := Some d, pname := blit (pname x) 0 (safestrcpy_w (pname p) 16)\<rparr>)) (
       kbind (kget (\<lambda>s. pid (procs s ! np))) (\<lambda>n.
       kthen (acquire LK_ptable) (
       kthen (upd_proc np (\<lambda>x. x\<lparr>pstate := RUNNABLE\<rparr>)) (
       kthen (release LK_ptable) (kret (sint n))))))))))))))"

definition exit_file :: "nat \<Rightarrow> nat \<Rightarrow> ('x flst_scheme, unit) kop" where
  "exit_file c i =
     kbind (kget (\<lambda>s. ofile (procs s ! c) ! i)) (\<lambda>f.
     case f of None \<Rightarrow> kret ()
     | Some f \<Rightarrow> kthen (fileclose f) (upd_proc c (\<lambda>x. x\<lparr>ofile := (ofile x)[i := None]\<rparr>)))"

definition exit :: "('x flst_scheme, unit) kop" where
  "exit =
     kbind (kget (\<lambda>s. (cur s, initproc s))) (\<lambda>(c, ip).
     kthen (kguard (c = ip) ''init exiting'') (
     kbind myproc (\<lambda>c.
     kthen (kfor [0..<NOFILE] (exit_file c)) (
     kthen begin_op (
     kbind (kget (\<lambda>s. cwd (procs s ! c))) (\<lambda>d.
     kthen (case d of None \<Rightarrow> ub | Some d \<Rightarrow> iput d) (
     kthen end_op (
     kthen (upd_proc c (\<lambda>x. x\<lparr>cwd := None\<rparr>))
       exit_tail))))))))"

text \<open>What the first kernel code of a new process does before it returns to user space.\<close>

definition forkret :: "('x xst_scheme, unit) kop" where
  "forkret =
     kthen (release LK_ptable) (
     kbind (kget forkret_first) (\<lambda>fst.
     kwhen fst (
       kthen (kmod (\<lambda>s. s\<lparr>forkret_first := False\<rparr>)) (
       kthen (iinit ROOTDEV) (initlog ROOTDEV)))))"

section \<open>Loading a program\<close>

definition ELF_MAGIC :: uint where "ELF_MAGIC = 0x464C457F"
definition ELF_PROG_LOAD :: uint where "ELF_PROG_LOAD = 1"
definition MAXARG :: nat where "MAXARG = 32"

text \<open>The fields of \<open>struct elfhdr\<close> (52 bytes) and \<open>struct proghdr\<close> (32 bytes) that are used.\<close>

definition elf_magic :: "uchar list \<Rightarrow> uint" where "elf_magic e = rd32 e 0"
definition elf_entry :: "uchar list \<Rightarrow> uint" where "elf_entry e = rd32 e 24"
definition elf_phoff :: "uchar list \<Rightarrow> uint" where "elf_phoff e = rd32 e 28"
definition elf_phnum :: "uchar list \<Rightarrow> ushort" where "elf_phnum e = rd16 e 44"
definition ph_type :: "uchar list \<Rightarrow> uint" where "ph_type p = rd32 p 0"
definition ph_off :: "uchar list \<Rightarrow> uint" where "ph_off p = rd32 p 4"
definition ph_vaddr :: "uchar list \<Rightarrow> uint" where "ph_vaddr p = rd32 p 8"
definition ph_filesz :: "uchar list \<Rightarrow> uint" where "ph_filesz p = rd32 p 16"
definition ph_memsz :: "uchar list \<Rightarrow> uint" where "ph_memsz p = rd32 p 20"

text \<open>The pages of the segment, from offset \<open>4096 i\<close> on.\<close>

primrec loaduvm_loop :: "nat \<Rightarrow> uint \<Rightarrow> uint \<Rightarrow> nat \<Rightarrow> uint \<Rightarrow> uint \<Rightarrow> uint \<Rightarrow> ('x cst_scheme, int) kop" where
  "loaduvm_loop 0 d addr ip offset siz i = (\<lambda>s. Hang)"
| "loaduvm_loop (Suc k) d addr ip offset siz i =
     (if \<not> i < siz then kret 0
      else
        kbind (walkpgdir d (addr + i) False) (\<lambda>pte.
        kthen (kguard (pte = 0) ''loaduvm: address should exist'') (
        kbind (load32 pte) (\<lambda>e.
        let pa = PTE_ADDR e; n = (if siz - i < PGSIZE then siz - i else PGSIZE) in
        kbind (readi ip (Dst_addr (p2v pa)) (offset + i) n) (\<lambda>(r, _).
        if word_of_int r \<noteq> n then kret (- 1)
        else loaduvm_loop k d addr ip offset siz (i + PGSIZE))))))"

definition loaduvm :: "uint \<Rightarrow> uint \<Rightarrow> nat \<Rightarrow> uint \<Rightarrow> uint \<Rightarrow> ('x cst_scheme, int) kop" where
  "loaduvm d addr ip offset siz =
     kthen (kguard (addr mod PGSIZE \<noteq> 0) ''loaduvm: addr must be page aligned'')
       (loaduvm_loop 0x100001 d addr ip offset siz 0)"

text \<open>The program headers: the size of the loaded image, or None for \<open>goto bad\<close>.\<close>

primrec exec_load :: "nat \<Rightarrow> nat \<Rightarrow> uint \<Rightarrow> uint \<Rightarrow> uint \<Rightarrow> ('x cst_scheme, uint option) kop" where
  "exec_load 0 ip d off siz = kret (Some siz)"
| "exec_load (Suc k) ip d off siz =
     kbind (readi ip Dst_local off 32) (\<lambda>(r, ph).
     if r \<noteq> 32 then kret None
     else if ph_type ph \<noteq> ELF_PROG_LOAD then exec_load k ip d (off + 32) siz
     else if ph_memsz ph < ph_filesz ph then kret None
     else
       kbind (allocuvm d siz (ph_vaddr ph + ph_memsz ph)) (\<lambda>siz'.
       if siz' = 0 then kret None
       else
         kbind (loaduvm d (ph_vaddr ph) ip (ph_off ph) (ph_filesz ph)) (\<lambda>r.
         if r < 0 then kret None else exec_load k ip d (off + 32) siz')))"

text \<open>
  The argument strings, of which the addresses are given: pushed below \<open>sp\<close>; the new \<open>sp\<close> and
  their places, or None for \<open>goto bad\<close>.
\<close>

primrec strlen_loop :: "nat \<Rightarrow> uint \<Rightarrow> ('x vmst_scheme, nat) kop" where
  "strlen_loop 0 a = (\<lambda>s. Hang)"
| "strlen_loop (Suc k) a = kbind (vload a) (\<lambda>b. if b = 0 then kret 0 else kbind (strlen_loop k (a + 1)) (\<lambda>n. kret (Suc n)))"

primrec exec_args :: "uint \<Rightarrow> uint list \<Rightarrow> nat \<Rightarrow> uint \<Rightarrow> ('x vmst_scheme, (uint \<times> uint list) option) kop" where
  "exec_args d [] argc sp = kret (Some (sp, []))"
| "exec_args d (a # as) argc sp =
     (if argc \<ge> MAXARG then kret None
      else
        kbind (strlen_loop 0x100000000 a) (\<lambda>n.
        let sp = (sp - of_nat (n + 1)) AND NOT 3 in
        kbind (copyout d sp (Src_addr a) (of_nat (n + 1))) (\<lambda>r.
        if r < 0 then kret None
        else kbind (exec_args d as (Suc argc) sp) (\<lambda>q.
             kret (map_option (\<lambda>(sp', us). (sp', sp # us)) q)))))"

definition word_bytes :: "uint list \<Rightarrow> uchar list" where
  "word_bytes ws = concat (map (\<lambda>w. [byte_of 0 w, byte_of 1 w, byte_of 2 w, byte_of 3 w]) ws)"

definition ustack :: "uint list \<Rightarrow> uint \<Rightarrow> uint list" where
  "ustack us sp = [0xFFFFFFFF, of_nat (length us), sp - of_nat ((length us + 1) * 4)] @ us @ [0]"

text \<open>The part of a path after its last slash.\<close>

definition last_elem :: "uchar list \<Rightarrow> uchar list" where
  "last_elem path = rev (takeWhile (\<lambda>c. c \<noteq> slash) (rev path))"

definition exec_bad :: "uint \<Rightarrow> nat option \<Rightarrow> ('x cst_scheme, int) kop" where
  "exec_bad d ip =
     kthen (kwhen (d \<noteq> 0) (freevm d)) (
     kthen (case ip of None \<Rightarrow> kret () | Some ip \<Rightarrow> kthen (iunlockput ip) end_op) (
     kret (- 1)))"

text \<open>From the user stack to the switch to the new image.\<close>

definition exec_commit :: "uchar list \<Rightarrow> uint list \<Rightarrow> uint \<Rightarrow> uint \<Rightarrow> uint \<Rightarrow> ('x cst_scheme, int) kop" where
  "exec_commit path argv entry d siz =
     (let siz = PGROUNDUP siz in
     kbind (allocuvm d siz (siz + 2 * PGSIZE)) (\<lambda>siz.
     if siz = 0 then exec_bad d None
     else
       kthen (clearpteu d (siz - 2 * PGSIZE)) (
       kbind (exec_args d argv 0 siz) (\<lambda>q.
       case q of None \<Rightarrow> exec_bad d None | Some (sp, us) \<Rightarrow>
       let us' = ustack us sp; sp' = sp - of_nat (length us' * 4) in
       kbind (copyout d sp' (Src_local (word_bytes us')) (of_nat (length us' * 4))) (\<lambda>r.
       if r < 0 then exec_bad d None
       else
         kbind myproc (\<lambda>c.
         kbind (kget (\<lambda>s. pgdir (procs s ! c))) (\<lambda>old.
         kthen (upd_proc c (\<lambda>x. x\<lparr>pname := blit (pname x) 0 (safestrcpy_w (last_elem path) 16),
                  pgdir := d, sz := siz, tf := (tf x)\<lparr>tf_eip := entry, tf_esp := sp'\<rparr>\<rparr>)) (
         kthen (switchuvm c) (
         kthen (freevm old) (kret 0))))))))))"

text \<open>
  The first check compares the \<open>int\<close> that \<open>readi\<close> returns with the unsigned \<open>sizeof(elf)\<close>: a
  \<open>-1\<close> passes it, and the header is then read uninitialised.
\<close>

definition exec :: "uchar list \<Rightarrow> uint list \<Rightarrow> ('x cst_scheme, int) kop" where
  "exec path argv =
     kthen begin_op (
     kbind (namei path) (\<lambda>r.
     case r of None \<Rightarrow> kthen end_op (kret (- 1)) | Some ip \<Rightarrow>
     kthen (ilock ip) (
     kbind (readi ip Dst_local 0 52) (\<lambda>(r, elf).
     if (word_of_int r :: uint) < 52 then exec_bad 0 (Some ip)
     else if r < 0 then ub
     else if elf_magic elf \<noteq> ELF_MAGIC then exec_bad 0 (Some ip)
     else
       kbind setupkvm (\<lambda>d.
       if d = 0 then exec_bad 0 (Some ip)
       else
         kbind (exec_load (unat (elf_phnum elf)) ip d (elf_phoff elf) 0) (\<lambda>q.
         case q of None \<Rightarrow> exec_bad d (Some ip) | Some siz \<Rightarrow>
         kthen (iunlockput ip) (
         kthen end_op (
         exec_commit path argv (elf_entry elf) d siz))))))))"

end
