(* ===== verification/Sysfile.thy ===== *)
theory Sysfile
  imports Proclife
begin

text \<open>
  System call arguments (\<open>syscall.c\<close>) and the file system calls (\<open>sysfile.c\<close>). A string
  argument is its bytes: no other process can write to the memory it is in.
\<close>

section \<open>Arguments\<close>

text \<open>Return \<open>-1\<close> when a step fails.\<close>

definition orfail :: "('s, 'a option) kop \<Rightarrow> ('a \<Rightarrow> ('s, int) kop) \<Rightarrow> ('s, int) kop" where
  "orfail m f = kbind m (\<lambda>r. case r of None \<Rightarrow> kret (- 1) | Some x \<Rightarrow> f x)"

definition fetchint :: "uint \<Rightarrow> ('x pst_scheme, uint option) kop" where
  "fetchint addr =
     kbind myproc (\<lambda>c.
     kbind (kget (\<lambda>s. sz (procs s ! c))) (\<lambda>z.
     if addr \<ge> z \<or> addr + 4 > z then kret None
     else kbind (vload32 addr) (\<lambda>v. kret (Some v))))"

primrec fetchstr_loop :: "nat \<Rightarrow> uint \<Rightarrow> ('x pst_scheme, uchar list option) kop" where
  "fetchstr_loop 0 a = kret None"
| "fetchstr_loop (Suc n) a =
     kbind (vload a) (\<lambda>b.
     if b = 0 then kret (Some [])
     else kbind (fetchstr_loop n (a + 1)) (\<lambda>r. kret (map_option (\<lambda>bs. b # bs) r)))"

definition fetchstr :: "uint \<Rightarrow> ('x pst_scheme, uchar list option) kop" where
  "fetchstr addr =
     kbind myproc (\<lambda>c.
     kbind (kget (\<lambda>s. sz (procs s ! c))) (\<lambda>z.
     if addr \<ge> z then kret None else fetchstr_loop (unat (z - addr)) addr))"

definition argint :: "nat \<Rightarrow> ('x pst_scheme, uint option) kop" where
  "argint n =
     kbind myproc (\<lambda>c.
     kbind (kget (\<lambda>s. tf_esp (tf (procs s ! c)))) (\<lambda>esp.
     fetchint (esp + 4 + 4 * of_nat n)))"

definition argptr :: "nat \<Rightarrow> int \<Rightarrow> ('x pst_scheme, uint option) kop" where
  "argptr n siz =
     kbind (argint n) (\<lambda>r.
     case r of None \<Rightarrow> kret None | Some i \<Rightarrow>
     kbind myproc (\<lambda>c.
     kbind (kget (\<lambda>s. sz (procs s ! c))) (\<lambda>z.
     if i \<ge> z \<or> i + word_of_int siz > z then kret None else kret (Some i))))"

definition argstr :: "nat \<Rightarrow> ('x pst_scheme, uchar list option) kop" where
  "argstr n = kbind (argint n) (\<lambda>r. case r of None \<Rightarrow> kret None | Some a \<Rightarrow> fetchstr a)"

section \<open>Descriptors\<close>

definition argfd :: "nat \<Rightarrow> ('x pst_scheme, (nat \<times> nat) option) kop" where
  "argfd n =
     kbind (argint n) (\<lambda>r.
     case r of None \<Rightarrow> kret None | Some v \<Rightarrow>
     let fd = sint v in
     if fd < 0 \<or> fd \<ge> int NOFILE then kret None
     else
       kbind myproc (\<lambda>c.
       kbind (kget (\<lambda>s. ofile (procs s ! c) ! nat fd)) (\<lambda>f.
       kret (map_option (\<lambda>f. (nat fd, f)) f))))"

definition fdalloc :: "nat \<Rightarrow> ('x pst_scheme, nat option) kop" where
  "fdalloc f =
     kbind myproc (\<lambda>c.
     kbind (kget (\<lambda>s. find_idx (\<lambda>x. x = None) (ofile (procs s ! c)))) (\<lambda>r.
     case r of None \<Rightarrow> kret None
     | Some fd \<Rightarrow> kthen (upd_proc c (\<lambda>x. x\<lparr>ofile := (ofile x)[fd := Some f]\<rparr>)) (kret (Some fd))))"

definition sys_dup :: "('x flst_scheme, int) kop" where
  "sys_dup =
     orfail (argfd 0) (\<lambda>(_, f).
     orfail (fdalloc f) (\<lambda>fd.
     kbind (filedup f) (\<lambda>_. kret (int fd))))"

definition sys_read :: "('x flst_scheme, int) kop" where
  "sys_read =
     orfail (argfd 0) (\<lambda>(_, f).
     orfail (argint 2) (\<lambda>n.
     orfail (argptr 1 (sint n)) (\<lambda>p.
     kbind (fileread f (Dst_addr p) (sint n)) (\<lambda>(r, _). kret r))))"

definition sys_write :: "('x flst_scheme, int) kop" where
  "sys_write =
     orfail (argfd 0) (\<lambda>(_, f).
     orfail (argint 2) (\<lambda>n.
     orfail (argptr 1 (sint n)) (\<lambda>p.
     filewrite f (Src_addr p) (sint n))))"

definition sys_close :: "('x flst_scheme, int) kop" where
  "sys_close =
     orfail (argfd 0) (\<lambda>(fd, f).
     kbind myproc (\<lambda>c.
     kthen (upd_proc c (\<lambda>x. x\<lparr>ofile := (ofile x)[fd := None]\<rparr>)) (
     kthen (fileclose f) (kret 0))))"

text \<open>The fields of \<open>struct stat\<close>, at offsets 0, 4, 8, 12 and 16 of 20 bytes.\<close>

definition put_stat :: "uint \<Rightarrow> stat \<Rightarrow> ('x vmst_scheme, unit) kop" where
  "put_stat a st =
     kthen (vstores a [byte_of16 0 (st_type st), byte_of16 1 (st_type st)]) (
     kthen (vstore32 (a + 4) (st_dev st)) (
     kthen (vstore32 (a + 8) (st_ino st)) (
     kthen (vstores (a + 12) [byte_of16 0 (st_nlink st), byte_of16 1 (st_nlink st)])
       (vstore32 (a + 16) (st_size st)))))"

definition sys_fstat :: "('x flst_scheme, int) kop" where
  "sys_fstat =
     orfail (argfd 0) (\<lambda>(_, f).
     orfail (argptr 1 20) (\<lambda>st.
     orfail (filestat f) (\<lambda>v.
     kthen (put_stat st v) (kret 0))))"

section \<open>Names\<close>

definition sys_link_bad :: "nat \<Rightarrow> ('x flst_scheme, int) kop" where
  "sys_link_bad ip =
     kthen (ilock ip) (
     kthen (upd_inode ip (\<lambda>x. x\<lparr>nlink := nlink x - 1\<rparr>)) (
     kthen (iupdate ip) (
     kthen (iunlockput ip) (
     kthen end_op (kret (- 1))))))"

definition sys_link :: "('x flst_scheme, int) kop" where
  "sys_link =
     orfail (argstr 0) (\<lambda>old.
     orfail (argstr 1) (\<lambda>new.
     kthen begin_op (
     kbind (namei old) (\<lambda>r.
     case r of None \<Rightarrow> kthen end_op (kret (- 1)) | Some ip \<Rightarrow>
     kthen (ilock ip) (
     kbind (kget (\<lambda>s. itype (inodes s ! ip))) (\<lambda>ty.
     if ty = T_DIR then kthen (iunlockput ip) (kthen end_op (kret (- 1)))
     else
       kthen (upd_inode ip (\<lambda>x. x\<lparr>nlink := nlink x + 1\<rparr>)) (
       kthen (iupdate ip) (
       kthen (iunlock ip) (
       kbind (nameiparent new) (\<lambda>(r, name).
       case r of None \<Rightarrow> sys_link_bad ip | Some dp \<Rightarrow>
       kthen (ilock dp) (
       kbind (kget (\<lambda>s. (idev (inodes s ! dp) \<noteq> idev (inodes s ! ip), inum (inodes s ! ip)))) (\<lambda>(other, n).
       kbind (if other then kret True else kbind (dirlink dp name n) (\<lambda>r. kret (r < 0))) (\<lambda>bad.
       if bad then kthen (iunlockput dp) (sys_link_bad ip)
       else
         kthen (iunlockput dp) (
         kthen (iput ip) (
         kthen end_op (kret 0))))))))))))))))"

primrec isdirempty_loop :: "nat \<Rightarrow> uint list \<Rightarrow> ('x cst_scheme, bool) kop" where
  "isdirempty_loop dp [] = kret True"
| "isdirempty_loop dp (off # offs) =
     kbind (readi dp Dst_local off 16) (\<lambda>(r, de).
     kthen (kguard (r \<noteq> 16) ''isdirempty: readi'')
       (if de_inum de \<noteq> 0 then kret False else isdirempty_loop dp offs))"

definition isdirempty :: "nat \<Rightarrow> ('x cst_scheme, bool) kop" where
  "isdirempty dp =
     kbind (kget (\<lambda>s. isize (inodes s ! dp))) (\<lambda>z. isdirempty_loop dp (drop 2 (de_offs z)))"

definition sys_unlink_bad :: "nat \<Rightarrow> ('x flst_scheme, int) kop" where
  "sys_unlink_bad dp = kthen (iunlockput dp) (kthen end_op (kret (- 1)))"

definition sys_unlink :: "('x flst_scheme, int) kop" where
  "sys_unlink =
     orfail (argstr 0) (\<lambda>path.
     kthen begin_op (
     kbind (nameiparent path) (\<lambda>(r, name).
     case r of None \<Rightarrow> kthen end_op (kret (- 1)) | Some dp \<Rightarrow>
     kthen (ilock dp) (
     if namecmp name (str_bytes ''.'') = 0 \<or> namecmp name (str_bytes ''..'') = 0 then sys_unlink_bad dp
     else
       kbind (dirlookup dp name) (\<lambda>q.
       case q of None \<Rightarrow> sys_unlink_bad dp | Some (ip, off) \<Rightarrow>
       kthen (ilock ip) (
       kbind (kget (\<lambda>s. inodes s ! ip)) (\<lambda>x.
       kthen (kguard (sint (nlink x) < 1) ''unlink: nlink < 1'') (
       kbind (if itype x = T_DIR then isdirempty ip else kret True) (\<lambda>ok.
       if \<not> ok then kthen (iunlockput ip) (sys_unlink_bad dp)
       else
         kbind (writei dp (Src_local (replicate 16 0)) off 16) (\<lambda>w.
         kthen (kguard (w \<noteq> 16) ''unlink: writei'') (
         kthen (kwhen (itype x = T_DIR)
                  (kthen (upd_inode dp (\<lambda>x. x\<lparr>nlink := nlink x - 1\<rparr>)) (iupdate dp))) (
         kthen (iunlockput dp) (
         kthen (upd_inode ip (\<lambda>x. x\<lparr>nlink := nlink x - 1\<rparr>)) (
         kthen (iupdate ip) (
         kthen (iunlockput ip) (
         kthen end_op (kret 0)))))))))))))))))"

definition create :: "uchar list \<Rightarrow> ushort \<Rightarrow> ushort \<Rightarrow> ushort \<Rightarrow> ('x cst_scheme, nat option) kop" where
  "create path type major minor =
     kbind (nameiparent path) (\<lambda>(r, name).
     case r of None \<Rightarrow> kret None | Some dp \<Rightarrow>
     kthen (ilock dp) (
     kbind (dirlookup dp name) (\<lambda>q.
     case q of
       Some (ip, _) \<Rightarrow>
         kthen (iunlockput dp) (
         kthen (ilock ip) (
         kbind (kget (\<lambda>s. itype (inodes s ! ip))) (\<lambda>ty.
         if type = T_FILE \<and> ty = T_FILE then kret (Some ip)
         else kthen (iunlockput ip) (kret None))))
     | None \<Rightarrow>
         kbind (kget (\<lambda>s. idev (inodes s ! dp))) (\<lambda>d.
         kbind (ialloc d type) (\<lambda>ip.
         kthen (ilock ip) (
         kthen (upd_inode ip (\<lambda>x. x\<lparr>imajor := major, iminor := minor, nlink := 1\<rparr>)) (
         kthen (iupdate ip) (
         kbind (kget (\<lambda>s. (inum (inodes s ! ip), inum (inodes s ! dp)))) (\<lambda>(n, dn).
         kthen (kwhen (type = T_DIR)
                  (kthen (upd_inode dp (\<lambda>x. x\<lparr>nlink := nlink x + 1\<rparr>)) (
                   kthen (iupdate dp) (
                   kbind (dirlink ip (str_bytes ''.'') n) (\<lambda>r.
                   kbind (if r < 0 then kret True
                          else kbind (dirlink ip (str_bytes ''..'') dn) (\<lambda>r. kret (r < 0))) (\<lambda>bad.
                   kguard bad ''create dots'')))))) (
         kbind (dirlink dp name n) (\<lambda>r.
         kthen (kguard (r < 0) ''create: dirlink'') (
         kthen (iunlockput dp) (kret (Some ip))))))))))))))"

section \<open>Opening and the rest\<close>

definition O_WRONLY :: uint where "O_WRONLY = 1"
definition O_RDWR :: uint where "O_RDWR = 2"
definition O_CREATE :: uint where "O_CREATE = 0x200"

text \<open>The locked inode to open, or None after \<open>end_op\<close>.\<close>

definition open_inode :: "uchar list \<Rightarrow> uint \<Rightarrow> ('x cst_scheme, nat option) kop" where
  "open_inode path omode =
     (if omode AND O_CREATE \<noteq> 0 then
        kbind (create path T_FILE 0 0) (\<lambda>r.
        case r of None \<Rightarrow> kthen end_op (kret None) | Some ip \<Rightarrow> kret (Some ip))
      else
        kbind (namei path) (\<lambda>r.
        case r of None \<Rightarrow> kthen end_op (kret None) | Some ip \<Rightarrow>
        kthen (ilock ip) (
        kbind (kget (\<lambda>s. itype (inodes s ! ip))) (\<lambda>ty.
        if ty = T_DIR \<and> omode \<noteq> 0 then kthen (iunlockput ip) (kthen end_op (kret None))
        else kret (Some ip)))))"

definition sys_open :: "('x flst_scheme, int) kop" where
  "sys_open =
     orfail (argstr 0) (\<lambda>path.
     orfail (argint 1) (\<lambda>omode.
     kthen begin_op (
     orfail (open_inode path omode) (\<lambda>ip.
     kbind filealloc (\<lambda>r.
     case r of None \<Rightarrow> kthen (iunlockput ip) (kthen end_op (kret (- 1))) | Some f \<Rightarrow>
     kbind (fdalloc f) (\<lambda>r.
     case r of None \<Rightarrow> kthen (fileclose f) (kthen (iunlockput ip) (kthen end_op (kret (- 1)))) | Some fd \<Rightarrow>
     kthen (iunlock ip) (
     kthen end_op (
     kthen (upd_file f (\<lambda>x. x\<lparr>f_type := FD_INODE, f_ip := ip, f_off := 0,
              f_readable := (omode AND O_WRONLY = 0),
              f_writable := (omode AND O_WRONLY \<noteq> 0 \<or> omode AND O_RDWR \<noteq> 0)\<rparr>))
       (kret (int fd))))))))))"

definition sys_mkdir :: "('x flst_scheme, int) kop" where
  "sys_mkdir =
     kthen begin_op (
     kbind (argstr 0) (\<lambda>r.
     kbind (case r of None \<Rightarrow> kret None | Some path \<Rightarrow> create path T_DIR 0 0) (\<lambda>r.
     case r of None \<Rightarrow> kthen end_op (kret (- 1))
     | Some ip \<Rightarrow> kthen (iunlockput ip) (kthen end_op (kret 0)))))"

definition sys_mknod :: "('x flst_scheme, int) kop" where
  "sys_mknod =
     kthen begin_op (
     kbind (argstr 0) (\<lambda>r.
     kbind (case r of None \<Rightarrow> kret None | Some path \<Rightarrow>
              kbind (argint 1) (\<lambda>r. case r of None \<Rightarrow> kret None | Some major \<Rightarrow>
              kbind (argint 2) (\<lambda>r. case r of None \<Rightarrow> kret None | Some minor \<Rightarrow>
              create path T_DEV (ucast major) (ucast minor)))) (\<lambda>r.
     case r of None \<Rightarrow> kthen end_op (kret (- 1))
     | Some ip \<Rightarrow> kthen (iunlockput ip) (kthen end_op (kret 0)))))"

definition sys_chdir :: "('x flst_scheme, int) kop" where
  "sys_chdir =
     kthen begin_op (
     kbind (argstr 0) (\<lambda>r.
     kbind (case r of None \<Rightarrow> kret None | Some path \<Rightarrow> namei path) (\<lambda>r.
     case r of None \<Rightarrow> kthen end_op (kret (- 1)) | Some ip \<Rightarrow>
     kthen (ilock ip) (
     kbind (kget (\<lambda>s. itype (inodes s ! ip))) (\<lambda>ty.
     if ty \<noteq> T_DIR then kthen (iunlockput ip) (kthen end_op (kret (- 1)))
     else
       kthen (iunlock ip) (
       kbind myproc (\<lambda>c.
       kbind (kget (\<lambda>s. cwd (procs s ! c))) (\<lambda>d.
       kthen (case d of None \<Rightarrow> ub | Some d \<Rightarrow> iput d) (
       kthen end_op (
       kthen (upd_proc c (\<lambda>x. x\<lparr>cwd := Some ip\<rparr>)) (kret 0)))))))))))"

text \<open>
  The argument vector of \<open>exec\<close>, from entry \<open>i\<close> on: the addresses of its strings. \<open>exec\<close> reads
  them again itself.
\<close>

primrec exec_argv :: "nat \<Rightarrow> uint \<Rightarrow> nat \<Rightarrow> ('x pst_scheme, uint list option) kop" where
  "exec_argv 0 uargv i = kret None"
| "exec_argv (Suc k) uargv i =
     kbind (fetchint (uargv + 4 * of_nat i)) (\<lambda>r.
     case r of None \<Rightarrow> kret None | Some uarg \<Rightarrow>
     if uarg = 0 then kret (Some [])
     else
       kbind (fetchstr uarg) (\<lambda>r.
       case r of None \<Rightarrow> kret None | Some _ \<Rightarrow>
       kbind (exec_argv k uargv (Suc i)) (\<lambda>q. kret (map_option (\<lambda>us. uarg # us) q))))"

definition sys_exec :: "('x flst_scheme, int) kop" where
  "sys_exec =
     orfail (argstr 0) (\<lambda>path.
     orfail (argint 1) (\<lambda>uargv.
     orfail (exec_argv MAXARG uargv 0) (\<lambda>argv.
     exec path argv)))"

definition sys_pipe :: "('x flst_scheme, int) kop" where
  "sys_pipe =
     orfail (argptr 0 8) (\<lambda>fd.
     orfail pipealloc (\<lambda>(rf, wf).
     kbind (fdalloc rf) (\<lambda>r0.
     case r0 of None \<Rightarrow> kthen (fileclose rf) (kthen (fileclose wf) (kret (- 1))) | Some fd0 \<Rightarrow>
     kbind (fdalloc wf) (\<lambda>r1.
     case r1 of
       None \<Rightarrow>
         kbind myproc (\<lambda>c.
         kthen (upd_proc c (\<lambda>x. x\<lparr>ofile := (ofile x)[fd0 := None]\<rparr>)) (
         kthen (fileclose rf) (kthen (fileclose wf) (kret (- 1)))))
     | Some fd1 \<Rightarrow>
         kthen (vstore32 fd (of_nat fd0)) (
         kthen (vstore32 (fd + 4) (of_nat fd1)) (kret 0))))))"

end
