(* ===== verification/Trap.thy ===== *)
theory Trap
  imports Sysfile
begin

text \<open>
  The process system calls (\<open>sysproc.c\<close>), the real-time clock (\<open>lapic.c\<close>), the system call
  table (\<open>syscall.c\<close>) and the trap handler (\<open>trap.c\<close>). The clock chip is the sequence of
  register contents that successive port reads see. The kernel is the one with the memory disk,
  whose \<open>ideintr\<close> does nothing.
\<close>

section \<open>The clock\<close>

record tst = xst +
  rtc :: "nat \<Rightarrow> uint \<Rightarrow> uchar"
  rtc_reads :: nat
  rtc_poll :: nat
  cpuid :: uint
  powered :: bool

definition cmos_read :: "uint \<Rightarrow> ('x tst_scheme, uint) kop" where
  "cmos_read reg s = Ok (ucast (rtc s (rtc_reads s) reg)) (s\<lparr>rtc_reads := Suc (rtc_reads s)\<rparr>)"

record rtcdate =
  second :: uint
  minute :: uint
  hour :: uint
  day :: uint
  month :: uint
  year :: uint

definition fill_rtcdate :: "('x tst_scheme, rtcdate) kop" where
  "fill_rtcdate =
     kbind (cmos_read 0) (\<lambda>se. kbind (cmos_read 2) (\<lambda>mi. kbind (cmos_read 4) (\<lambda>ho.
     kbind (cmos_read 7) (\<lambda>da. kbind (cmos_read 8) (\<lambda>mo. kbind (cmos_read 9) (\<lambda>ye.
     kret \<lparr>second = se, minute = mi, hour = ho, day = da, month = mo, year = ye\<rparr>))))))"

definition bcd_conv :: "uint \<Rightarrow> uint" where
  "bcd_conv x = drop_bit 4 x * 10 + (x AND 0xF)"

definition rtc_conv :: "rtcdate \<Rightarrow> rtcdate" where
  "rtc_conv t = \<lparr>second = bcd_conv (second t), minute = bcd_conv (minute t), hour = bcd_conv (hour t),
     day = bcd_conv (day t), month = bcd_conv (month t), year = bcd_conv (year t)\<rparr>"

text \<open>
  Read until two readings agree. A clock that never shows the same time twice keeps the kernel
  here for ever; \<open>rtc_poll\<close> bounds the turns, beyond which the kernel counts as hung.
\<close>

primrec cmos_loop :: "nat \<Rightarrow> ('x tst_scheme, rtcdate) kop" where
  "cmos_loop 0 = (\<lambda>s. Hang)"
| "cmos_loop (Suc n) =
     kbind fill_rtcdate (\<lambda>t1.
     kbind (cmos_read 0x0A) (\<lambda>a.
     if a AND 0x80 \<noteq> 0 then cmos_loop n
     else
       kbind fill_rtcdate (\<lambda>t2.
       if t1 = t2 then kret t1 else cmos_loop n)))"

definition cmostime :: "('x tst_scheme, rtcdate) kop" where
  "cmostime =
     kbind (cmos_read 0x0B) (\<lambda>b.
     kbind (kget rtc_poll) (\<lambda>n.
     kbind (cmos_loop n) (\<lambda>t1.
     let t1 = (if b AND 4 = 0 then rtc_conv t1 else t1) in
     kret (t1\<lparr>year := year t1 + 2000\<rparr>))))"

section \<open>Process system calls\<close>

definition sys_fork :: "('x flst_scheme, int) kop" where
  "sys_fork = fork"

definition sys_exit :: "('x flst_scheme, int) kop" where
  "sys_exit = kthen exit (kret 0)"

definition sys_wait :: "('x pst_scheme, int) kop" where
  "sys_wait = wait"

definition sys_kill :: "('x pst_scheme, int) kop" where
  "sys_kill = orfail (argint 0) kill"

definition sys_getpid :: "('x pst_scheme, int) kop" where
  "sys_getpid = kbind myproc (\<lambda>c. kget (\<lambda>s. sint (pid (procs s ! c))))"

definition sys_sbrk :: "('x pst_scheme, int) kop" where
  "sys_sbrk =
     orfail (argint 0) (\<lambda>n.
     kbind myproc (\<lambda>c.
     kbind (kget (\<lambda>s. sz (procs s ! c))) (\<lambda>addr.
     kbind (growproc (sint n)) (\<lambda>r.
     if r < 0 then kret (- 1) else kret (sint addr)))))"

text \<open>One test of the loop of \<open>sys_sleep\<close>; \<open>n\<close> is compared as an unsigned number.\<close>

definition sys_sleep_loop :: "uint \<Rightarrow> uint \<Rightarrow> ('x pst_scheme, int) kop" where
  "sys_sleep_loop ticks0 n =
     kbind (kget ticks) (\<lambda>now.
     if now - ticks0 < n then
       kbind myproc (\<lambda>c.
       kbind (kget (\<lambda>s. killed (procs s ! c))) (\<lambda>k.
       if k then kret (- 1) else kthen (sleep Ch_ticks None) (kret 0)))
     else kret 0)"

definition sys_sleep :: "('x pst_scheme, int) kop" where
  "sys_sleep = orfail (argint 0) (\<lambda>n. kbind (kget ticks) (\<lambda>ticks0. sys_sleep_loop ticks0 n))"

definition sys_sleep_resume :: "uint \<Rightarrow> uint \<Rightarrow> ('x pst_scheme, int) kop" where
  "sys_sleep_resume ticks0 n = kthen (sleep_resume None) (sys_sleep_loop ticks0 n)"

definition sys_uptime :: "('x pst_scheme, int) kop" where
  "sys_uptime = kget (\<lambda>s. sint (ticks s))"

definition sys_halt :: "('x tst_scheme, int) kop" where
  "sys_halt =
     kthen (cprintf ''Shutting down ...\<newline>'' []) (
     kthen (kmod (\<lambda>s. s\<lparr>powered := False\<rparr>)) (kret 0))"

definition put_date :: "uint \<Rightarrow> rtcdate \<Rightarrow> ('x vmst_scheme, unit) kop" where
  "put_date a d = vstores a (word_bytes [second d, minute d, hour d, day d, month d, year d])"

definition sys_date :: "('x tst_scheme, int) kop" where
  "sys_date =
     orfail (argptr 0 24) (\<lambda>_.
     orfail (argptr 0 24) (\<lambda>d.
     kbind cmostime (\<lambda>t. kthen (put_date d t) (kret 0))))"

definition sys_getuid :: "('x pst_scheme, int) kop" where
  "sys_getuid = kbind myproc (\<lambda>c. kget (\<lambda>s. sint (uid (procs s ! c))))"

definition sys_getgid :: "('x pst_scheme, int) kop" where
  "sys_getgid = kbind myproc (\<lambda>c. kget (\<lambda>s. sint (gid (procs s ! c))))"

definition sys_getppid :: "('x pst_scheme, int) kop" where
  "sys_getppid =
     kbind myproc (\<lambda>c.
     kget (\<lambda>s. case parent (procs s ! c) of Some q \<Rightarrow> sint (pid (procs s ! q)) | None \<Rightarrow> sint (pid (procs s ! c))))"

text \<open>If the argument cannot be fetched, the number is read uninitialised.\<close>

definition sys_setuid :: "('x pst_scheme, int) kop" where
  "sys_setuid =
     kbind (argint 0) (\<lambda>r.
     case r of None \<Rightarrow> ub | Some n \<Rightarrow>
     if n \<le> 32767 then kbind myproc (\<lambda>c. kthen (upd_proc c (\<lambda>x. x\<lparr>uid := n\<rparr>)) (kret 1))
     else kret (- 1))"

definition sys_setgid :: "('x pst_scheme, int) kop" where
  "sys_setgid =
     kbind (argint 0) (\<lambda>r.
     case r of None \<Rightarrow> ub | Some n \<Rightarrow>
     if n \<le> 32767 then kbind myproc (\<lambda>c. kthen (upd_proc c (\<lambda>x. x\<lparr>gid := n\<rparr>)) (kret 1))
     else kret (- 1))"

text \<open>
  \<open>argptr\<close> is given the null pointer as the place for its result, so the address of the table
  is stored at user address 0 and read back from there.
\<close>

definition sys_getprocs :: "('x pst_scheme, int) kop" where
  "sys_getprocs =
     orfail (argint 0) (\<lambda>n.
     orfail (argptr 1 4) (\<lambda>p.
     kthen (vstore32 0 p) (
     kbind (vload32 0) (\<lambda>table.
     getproc (sint n) table))))"

section \<open>Dispatch\<close>

definition syscalls :: "(int \<times> ('x tst_scheme, int) kop) list" where
  "syscalls = [(1, sys_fork), (2, sys_exit), (3, sys_wait), (4, sys_pipe), (5, sys_read), (6, sys_kill),
     (7, sys_exec), (8, sys_fstat), (9, sys_chdir), (10, sys_dup), (11, sys_getpid), (12, sys_sbrk),
     (13, sys_sleep), (14, sys_uptime), (15, sys_open), (16, sys_write), (17, sys_mknod), (18, sys_unlink),
     (19, sys_link), (20, sys_mkdir), (21, sys_close), (22, sys_halt), (23, sys_date), (24, sys_getuid),
     (25, sys_getgid), (26, sys_getppid), (27, sys_setuid), (28, sys_setgid), (29, sys_getprocs)]"

definition set_eax :: "nat \<Rightarrow> uint \<Rightarrow> ('x pst_scheme, unit) kop" where
  "set_eax c v = upd_proc c (\<lambda>x. x\<lparr>tf := (tf x)\<lparr>tf_eax := v\<rparr>\<rparr>)"

definition syscall :: "('x tst_scheme, unit) kop" where
  "syscall =
     kbind myproc (\<lambda>c.
     kbind (kget (\<lambda>s. procs s ! c)) (\<lambda>p.
     let n = sint (tf_eax (tf p)) in
     case map_of syscalls n of
       Some f \<Rightarrow> kbind f (\<lambda>r. kbind myproc (\<lambda>c. set_eax c (word_of_int r)))
     | None \<Rightarrow>
         kthen (cprintf ''%d %s: unknown sys call %d\<newline>'' [num (pid p), str (pname p), num (tf_eax (tf p))])
           (set_eax c (- 1))))"

section \<open>Traps\<close>

definition T_SYSCALL :: uint where "T_SYSCALL = 64"
definition T_IRQ0 :: uint where "T_IRQ0 = 32"
definition SCHED_INTERVAL :: uint where "SCHED_INTERVAL = 10"

definition from_user :: "trapframe \<Rightarrow> bool" where
  "from_user f \<longleftrightarrow> tf_cs f AND 3 = 3"

definition killed_now :: "'x pst_scheme \<Rightarrow> bool" where
  "killed_now s \<longleftrightarrow> (case cur s of None \<Rightarrow> False | Some c \<Rightarrow> killed (procs s ! c))"

definition trap_syscall :: "trapframe \<Rightarrow> ('x tst_scheme, unit) kop" where
  "trap_syscall f =
     kbind myproc (\<lambda>c.
     kbind (kget killed_now) (\<lambda>k.
     kthen (kwhen k exit) (
     kthen (upd_proc c (\<lambda>x. x\<lparr>tf := f\<rparr>)) (
     kthen syscall (
     kbind (kget killed_now) (\<lambda>k. kwhen k exit))))))"

text \<open>The switch on the trap number; \<open>cr2\<close> is the fault address register.\<close>

definition trap_switch :: "trapframe \<Rightarrow> uint \<Rightarrow> ('x tst_scheme, unit) kop" where
  "trap_switch f cr2 =
     (let no = tf_trapno f in
      if no = T_IRQ0 then
        kbind (kget cpuid) (\<lambda>i.
        kwhen (i = 0) (kthen (kmod (\<lambda>s. s\<lparr>ticks := ticks s + 1\<rparr>)) (wakeup Ch_ticks)))
      else if no = T_IRQ0 + 14 then kret ()
      else if no = T_IRQ0 + 15 then kret ()
      else if no = T_IRQ0 + 1 then kbdintr
      else if no = T_IRQ0 + 4 then uartintr
      else if no = T_IRQ0 + 7 \<or> no = T_IRQ0 + 31 then
        kbind (kget cpuid) (\<lambda>i. cprintf ''cpu%d: spurious interrupt at %x:%x\<newline>'' [num i, num (ucast (tf_cs f)), num (tf_eip f)])
      else
        kbind (kget (\<lambda>s. (cur s, cpuid s))) (\<lambda>(c, i).
        if c = None \<or> tf_cs f AND 3 = 0 then
          kthen (cprintf ''unexpected trap %d from cpu %d eip %x (cr2=0x%x)\<newline>''
                   [num no, num i, num (tf_eip f), num cr2]) (panic ''trap'')
        else
          kbind (kget (\<lambda>s. procs s ! the c)) (\<lambda>p.
          kthen (cprintf ''pid %d %s: trap %d err %d on cpu %d eip 0x%x addr 0x%x--kill proc\<newline>''
                   [num (pid p), str (pname p), num no, num (tf_err f), num i, num (tf_eip f), num cr2])
            (upd_proc (the c) (\<lambda>x. x\<lparr>killed := True\<rparr>)))))"

definition trap :: "trapframe \<Rightarrow> uint \<Rightarrow> ('x tst_scheme, unit) kop" where
  "trap f cr2 =
     (if tf_trapno f = T_SYSCALL then trap_syscall f
      else
        kthen (trap_switch f cr2) (
        kbind (kget killed_now) (\<lambda>k.
        kthen (kwhen (k \<and> from_user f) exit) (
        kbind (kget (\<lambda>s. case cur s of None \<Rightarrow> False
                 | Some c \<Rightarrow> pstate (procs s ! c) = RUNNING \<and> tf_trapno f = T_IRQ0 \<and> ticks s mod SCHED_INTERVAL = 0)) (\<lambda>y.
        kthen (kwhen y yield) (
        kbind (kget killed_now) (\<lambda>k.
        kwhen (k \<and> from_user f) exit)))))))"

end
