(* ===== verification/StateLists.thy ===== *)
theory StateLists
  imports Main
begin

text \<open>
  The lists of processes by state in \<open>proc.c\<close> (built with \<open>CS333_P3P4\<close>). A process is its index in the
  table, a null pointer is None; \<open>nxt\<close> are the \<open>next\<close> fields of all processes, shared by the lists. The
  result None stands for the use of a null pointer, and for a search that does not end.
\<close>

section \<open>Definitions\<close>

type_synonym links = "nat \<Rightarrow> nat option"

record slist =
  shead :: "nat option"
  stail :: "nat option"

definition stateListAdd :: "slist \<Rightarrow> links \<Rightarrow> nat \<Rightarrow> (slist \<times> links) option" where
  "stateListAdd l nxt p =
     (case shead l of
        None \<Rightarrow> Some (\<lparr>shead = Some p, stail = Some p\<rparr>, nxt(p := None))
      | Some _ \<Rightarrow>
          (case stail l of None \<Rightarrow> None
           | Some t \<Rightarrow> Some (l\<lparr>stail := Some p\<rparr>, (nxt(t := Some p))(p := None))))"

text \<open>The loop of \<open>stateListRemove\<close>: the process found, if any, and the one before it.\<close>

primrec sl_search :: "nat \<Rightarrow> links \<Rightarrow> nat \<Rightarrow> nat option \<Rightarrow> nat option \<Rightarrow> (nat option \<times> nat option) option" where
  "sl_search 0 nxt p current previous = None"
| "sl_search (Suc n) nxt p current previous =
     (case current of None \<Rightarrow> Some (None, previous)
      | Some c \<Rightarrow> if c = p then Some (current, previous) else sl_search n nxt p (nxt c) current)"

definition SL_NPROC :: nat where "SL_NPROC = 64"

definition stateListRemove :: "slist \<Rightarrow> links \<Rightarrow> nat option \<Rightarrow> (int \<times> slist \<times> links) option" where
  "stateListRemove l nxt p =
     (case (shead l, stail l, p) of
        (Some h, Some t, Some p) \<Rightarrow>
          if h = p then Some (0, l\<lparr>shead := nxt h\<rparr>, nxt)
          else
            (case sl_search (SL_NPROC + 1) nxt p (Some h) None of
               None \<Rightarrow> None
             | Some (None, _) \<Rightarrow> Some (- 1, l, nxt)
             | Some (Some c, None) \<Rightarrow> None
             | Some (Some c, Some b) \<Rightarrow>
                 if c = t then Some (0, l\<lparr>stail := Some b\<rparr>, (nxt(b := None))(p := None))
                 else Some (0, l, (nxt(b := nxt c))(p := None)))
      | _ \<Rightarrow> Some (- 1, l, nxt))"

text \<open>\<open>initFreeList\<close>: every process is put on the free list, in the order of the table.\<close>

primrec sl_addall :: "nat list \<Rightarrow> slist \<Rightarrow> links \<Rightarrow> (slist \<times> links) option" where
  "sl_addall [] l nxt = Some (l, nxt)"
| "sl_addall (p # ps) l nxt = (case stateListAdd l nxt p of None \<Rightarrow> None | Some (l, nxt) \<Rightarrow> sl_addall ps l nxt)"

definition initProcessLists :: slist where
  "initProcessLists = \<lparr>shead = None, stail = None\<rparr>"

definition initFreeList :: "slist \<Rightarrow> links \<Rightarrow> (slist \<times> links) option" where
  "initFreeList = sl_addall [0..<SL_NPROC]"

section \<open>Lists along the links\<close>

fun chain :: "links \<Rightarrow> nat option \<Rightarrow> nat list \<Rightarrow> bool" where
  "chain nxt h [] = (h = None)"
| "chain nxt h (x # xs) = (h = Some x \<and> chain nxt (nxt x) xs)"

text \<open>The tail means something only while the list is not empty.\<close>

definition holds_list :: "slist \<Rightarrow> links \<Rightarrow> nat list \<Rightarrow> bool" where
  "holds_list l nxt xs \<longleftrightarrow> chain nxt (shead l) xs \<and> distinct xs \<and> set xs \<subseteq> {..<SL_NPROC} \<and>
     (xs \<noteq> [] \<longrightarrow> stail l = Some (last xs))"

lemma chain_upd [simp]: "p \<notin> set xs \<Longrightarrow> chain (nxt(p := v)) h xs = chain nxt h xs"
  by (induction xs arbitrary: h) auto

lemma chain_end: "chain nxt h (xs @ [y]) \<Longrightarrow> nxt y = None"
  by (induction xs arbitrary: h) auto

lemma chain_snoc:
  assumes "chain nxt h xs" "xs \<noteq> []" "distinct xs" "p \<notin> set xs"
  shows "chain ((nxt(last xs := Some p))(p := None)) h (xs @ [p])"
  using assms
proof (induction xs arbitrary: h)
  case (Cons x xs)
  then show ?case by (cases "xs = []") auto
qed simp

text \<open>Adding appends.\<close>

lemma stateListAdd_ok:
  assumes "holds_list l nxt xs" "p \<notin> set xs" "p < SL_NPROC"
  shows "\<exists>l' nxt'. stateListAdd l nxt p = Some (l', nxt') \<and> holds_list l' nxt' (xs @ [p]) \<and>
    (\<forall>q. q \<notin> set xs \<union> {p} \<longrightarrow> nxt' q = nxt q)"
proof (cases xs)
  case Nil
  then show ?thesis using assms by (auto simp: stateListAdd_def holds_list_def)
next
  case (Cons x ys)
  then have "shead l = Some x" "stail l = Some (last xs)" using assms(1) by (auto simp: holds_list_def)
  moreover have "last xs \<in> set xs" using Cons by simp
  moreover have "chain ((nxt(last xs := Some p))(p := None)) (shead l) (xs @ [p])"
    using assms Cons by (intro chain_snoc) (auto simp: holds_list_def)
  ultimately show ?thesis using assms by (auto simp: stateListAdd_def holds_list_def)
qed

lemma sl_search_found:
  "chain nxt h (ys @ p # zs) \<Longrightarrow> p \<notin> set ys \<Longrightarrow> length ys < n \<Longrightarrow>
   sl_search n nxt p h b = Some (Some p, if ys = [] then b else Some (last ys))"
proof (induction ys arbitrary: h b n)
  case Nil
  then show ?case by (cases n) auto
next
  case (Cons y ys)
  then show ?case by (cases n) auto
qed

lemma sl_search_absent:
  "chain nxt h xs \<Longrightarrow> p \<notin> set xs \<Longrightarrow> length xs < n \<Longrightarrow> \<exists>b'. sl_search n nxt p h b = Some (None, b')"
proof (induction xs arbitrary: h b n)
  case Nil
  then show ?case by (cases n) auto
next
  case (Cons x xs)
  then show ?case by (cases n) auto
qed

lemma chain_unlink:
  "chain nxt h (ys @ [b, p] @ zs) \<Longrightarrow> distinct (ys @ [b, p] @ zs) \<Longrightarrow>
   chain ((nxt(b := nxt p))(p := None)) h (ys @ b # zs)"
  by (induction ys arbitrary: h) auto

lemma holds_list_length: "holds_list l nxt xs \<Longrightarrow> length xs \<le> SL_NPROC"
proof -
  assume "holds_list l nxt xs"
  then have "distinct xs" "set xs \<subseteq> {..<SL_NPROC}" by (simp_all add: holds_list_def)
  then show ?thesis using card_mono [of "{..<SL_NPROC}" "set xs"] distinct_card by fastforce
qed

text \<open>Removing takes the process out, wherever it is.\<close>

lemma stateListRemove_ok:
  assumes "holds_list l nxt xs" "p \<in> set xs"
  shows "\<exists>l' nxt'. stateListRemove l nxt (Some p) = Some (0, l', nxt') \<and> holds_list l' nxt' (remove1 p xs) \<and>
    (\<forall>q. q \<notin> set xs \<longrightarrow> nxt' q = nxt q)"
proof -
  obtain ys zs where xs: "xs = ys @ p # zs" "p \<notin> set ys" using assms(2) split_list_first by metis
  have c: "chain nxt (shead l) xs" "distinct xs" "stail l = Some (last xs)" and in_tab: "set xs \<subseteq> {..<SL_NPROC}"
    using assms by (auto simp: holds_list_def)
  have r: "remove1 p xs = ys @ zs" using xs by (simp add: remove1_append)
  show ?thesis
  proof (cases ys rule: rev_cases)
    case Nil
    then have "shead l = Some p" "chain nxt (nxt p) zs" using c(1) xs by simp_all
    then show ?thesis using c(2,3) xs Nil r in_tab by (auto simp: stateListRemove_def holds_list_def)
  next
    case (snoc us b)
    obtain h where h: "shead l = Some h" "h \<noteq> p" using c(1) xs snoc by (cases us) auto
    have s: "sl_search (SL_NPROC + 1) nxt p (Some h) None = Some (Some p, Some b)"
      using sl_search_found [of nxt "Some h" ys p zs "SL_NPROC + 1" None] c(1) xs h holds_list_length [OF assms(1)] snoc
      by (simp del: sl_search.simps)
    have u: "chain ((nxt(b := nxt p))(p := None)) (shead l) (us @ b # zs)"
      using c(1,2) xs snoc by (intro chain_unlink) auto
    have last: "p = last xs \<longleftrightarrow> zs = []" using c(2) xs by (cases zs rule: rev_cases) auto
    show ?thesis
    proof (cases "zs = []")
      case True
      then have "nxt p = None" using c(1) xs chain_end by blast
      then show ?thesis using True s h c(2,3) xs r u snoc last in_tab
        by (auto simp: stateListRemove_def holds_list_def)
    next
      case False
      then show ?thesis using s h c(2,3) xs r u snoc last in_tab
        by (auto simp: stateListRemove_def holds_list_def)
    qed
  qed
qed

lemma stateListRemove_absent:
  assumes "holds_list l nxt xs" "p \<notin> set xs"
  shows "stateListRemove l nxt (Some p) = Some (- 1, l, nxt)"
proof (cases xs)
  case Nil
  then show ?thesis using assms(1) by (auto simp: stateListRemove_def holds_list_def)
next
  case (Cons x ys)
  then have "shead l = Some x" "stail l = Some (last xs)" "x \<noteq> p" "chain nxt (Some x) xs"
    using assms by (auto simp: holds_list_def)
  then show ?thesis
    using sl_search_absent [of nxt "Some x" xs p "SL_NPROC + 1" None] assms(2) holds_list_length [OF assms(1)]
    by (auto simp: stateListRemove_def)
qed

section \<open>Sequences of operations\<close>

datatype list_op = Add nat | Remove nat

fun spec_op :: "list_op \<Rightarrow> nat list \<Rightarrow> nat list" where
  "spec_op (Add p) xs = xs @ [p]"
| "spec_op (Remove p) xs = remove1 p xs"

text \<open>The caller adds processes of the table that are not on the list yet.\<close>

fun ops_legal :: "list_op list \<Rightarrow> nat list \<Rightarrow> bool" where
  "ops_legal [] xs = True"
| "ops_legal (Add p # ops) xs = (p \<notin> set xs \<and> p < SL_NPROC \<and> ops_legal ops (xs @ [p]))"
| "ops_legal (Remove p # ops) xs = ops_legal ops (remove1 p xs)"

text \<open>What the scheduler may rely on of an implementation of these lists.\<close>

locale process_list =
  fixes rep :: "'s \<Rightarrow> nat list \<Rightarrow> bool" and add :: "'s \<Rightarrow> nat \<Rightarrow> 's option" and rem :: "'s \<Rightarrow> nat \<Rightarrow> 's option"
  assumes add_rep: "rep s xs \<Longrightarrow> p \<notin> set xs \<Longrightarrow> p < SL_NPROC \<Longrightarrow> \<exists>t. add s p = Some t \<and> rep t (xs @ [p])"
    and rem_rep: "rep s xs \<Longrightarrow> \<exists>t. rem s p = Some t \<and> rep t (remove1 p xs)"
begin

primrec run :: "list_op list \<Rightarrow> 's \<Rightarrow> 's option" where
  "run [] s = Some s"
| "run (o1 # ops) s =
     (case (case o1 of Add p \<Rightarrow> add s p | Remove p \<Rightarrow> rem s p) of None \<Rightarrow> None | Some t \<Rightarrow> run ops t)"

lemma run_rep: "rep s xs \<Longrightarrow> ops_legal ops xs \<Longrightarrow> \<exists>t. run ops s = Some t \<and> rep t (fold spec_op ops xs)"
proof (induction ops arbitrary: s xs)
  case (Cons o1 ops)
  show ?case
  proof (cases o1)
    case (Add p)
    then obtain t where "add s p = Some t" "rep t (xs @ [p])" using add_rep Cons.prems by fastforce
    then show ?thesis using Cons Add by simp
  next
    case (Remove p)
    then obtain t where "rem s p = Some t" "rep t (remove1 p xs)" using rem_rep Cons.prems by blast
    then show ?thesis using Cons Remove by simp
  qed
qed simp

end

definition sl_rep :: "slist \<times> links \<Rightarrow> nat list \<Rightarrow> bool" where
  "sl_rep s = holds_list (fst s) (snd s)"

definition sl_add :: "slist \<times> links \<Rightarrow> nat \<Rightarrow> (slist \<times> links) option" where
  "sl_add s = stateListAdd (fst s) (snd s)"

definition sl_remove :: "slist \<times> links \<Rightarrow> nat \<Rightarrow> (slist \<times> links) option" where
  "sl_remove s p = map_option snd (stateListRemove (fst s) (snd s) (Some p))"

interpretation sl: process_list sl_rep sl_add sl_remove
proof
  fix s xs p
  show "sl_rep s xs \<Longrightarrow> p \<notin> set xs \<Longrightarrow> p < SL_NPROC \<Longrightarrow> \<exists>t. sl_add s p = Some t \<and> sl_rep t (xs @ [p])"
    using stateListAdd_ok [of "fst s" "snd s" xs p] by (fastforce simp: sl_rep_def sl_add_def)
  show "sl_rep s xs \<Longrightarrow> \<exists>t. sl_remove s p = Some t \<and> sl_rep t (remove1 p xs)"
    using stateListRemove_ok [of "fst s" "snd s" xs p] stateListRemove_absent [of "fst s" "snd s" xs p]
    by (cases "p \<in> set xs") (fastforce simp: sl_rep_def sl_remove_def remove1_idem)+
qed

primrec sl_run :: "list_op list \<Rightarrow> slist \<times> links \<Rightarrow> (slist \<times> links) option" where
  "sl_run [] s = Some s"
| "sl_run (o1 # ops) s =
     (case (case o1 of Add p \<Rightarrow> sl_add s p | Remove p \<Rightarrow> sl_remove s p) of None \<Rightarrow> None | Some t \<Rightarrow> sl_run ops t)"

lemma sl_run_run: "sl_run ops s = sl.run ops s"
  by (induction ops arbitrary: s) (auto split: option.splits list_op.splits)

lemma sl_addall_run: "sl_addall ps l nxt = sl_run (map Add ps) (l, nxt)"
  by (induction ps arbitrary: l nxt) (auto simp: sl_add_def split: option.splits)



end
