(* ===== verification/FileData.thy ===== *)
theory FileData
  imports Fs
begin

text \<open>
  A file as an array of bytes. Within a transaction, with no buffer held, \<open>readi\<close> and \<open>writei\<close> of
  theory \<open>Fs\<close> read and update the bytes that the blocks of the inode make up, through the block map,
  the buffer cache and the log.
\<close>

section \<open>Operations on one block\<close>

lemma brest_ist:
  assumes "brest s (t :: 'x ist_scheme)"
  shows "inodes t = inodes s" "sb t = sb s"
  using brestD(4) [OF assms] by (cases s; cases t; simp)+

text \<open>Read a block, use it, release it.\<close>

lemma read_then:
  assumes q: "bio.quiesced k s" "k < NBUF" "n < disksize s"
  shows "\<exists>t. kbind (bread 1 n) (\<lambda>b. kbind (kget (\<lambda>s. g (bdat s b))) (\<lambda>x. kthen (brelse b) (R x))) s = R (g (blk s n)) t \<and>
    bio.quiesced k t \<and> brest s t \<and> blk t = blk s \<and> disk t = disk s \<and> dwrites t = dwrites s \<and> dirtyb t = dirtyb s"
proof -
  obtain t where t: "kbind (bread 1 n) (\<lambda>b. kbind (kget (\<lambda>s. g (bdat s b))) (\<lambda>x. kthen (brelse b) (kret x))) s = Ok (g (blk s n)) t"
    and u: "bio.quiesced k t \<and> brest s t \<and> blk t = blk s \<and> disk t = disk s \<and> dwrites t = dwrites s \<and> dirtyb t = dirtyb s"
    using bio.read_block [OF q, of "\<lambda>b. kget (\<lambda>s. g (bdat s b))" g] by auto
  have "kbind (bread 1 n) (\<lambda>b. kbind (kget (\<lambda>s. g (bdat s b))) (\<lambda>x. kthen (brelse b) (R x))) s = R (g (blk s n)) t"
    using t by (auto simp: kbind_Ok_iff kthen_Ok_iff)
  then show ?thesis using u by blast
qed

section \<open>Transactions\<close>

text \<open>Inside a transaction, between two operations on blocks.\<close>

definition tx_ok :: "'x lst_scheme \<Rightarrow> bool" where
  "tx_ok s \<longleftrightarrow> settled s \<and> lh_ok s \<and> 1 \<le> outstanding s \<and> LK_log \<notin> set (held s) \<and> lh_n s < int NBUF"

text \<open>Room in the log for \<open>r\<close> more blocks.\<close>

definition log_room :: "nat \<Rightarrow> 'x lst_scheme \<Rightarrow> bool" where
  "log_room r s \<longleftrightarrow> lh_n s + int r < int LOGSIZE \<and> lh_n s + int r \<le> lsize s - 1"

text \<open>What a logged write may change besides blocks: the header and the processes it wakes.\<close>

definition lrest :: "'x lst_scheme \<Rightarrow> 'x lst_scheme \<Rightarrow> bool" where
  "lrest s t \<longleftrightarrow> brest (s\<lparr>lh_n := lh_n t, lh_block := lh_block t\<rparr>) t"

lemma tx_quiesced: "tx_ok s \<Longrightarrow> bio.quiesced (nat (lh_n s)) s \<and> nat (lh_n s) < NBUF"
proof -
  assume t: "tx_ok s"
  then have "card (dirtyb s) = nat (lh_n s)"
    using distinct_card [of "take (nat (lh_n s)) (lh_block s)"] by (auto simp: tx_ok_def lh_ok_def)
  moreover have "nat (lh_n s) < NBUF" using t unfolding tx_ok_def NBUF_def by linarith
  ultimately show ?thesis using t by (simp add: quiesced_settled tx_ok_def)
qed

lemma lrest_lst:
  assumes "lrest s (t :: 'x lst_scheme)"
  shows "held t = held s" "disksize t = disksize s" "lsize t = lsize s" "outstanding t = outstanding s"
  using brestD(1,2) [OF assms [unfolded lrest_def]] brest_lst(2,3) [OF assms [unfolded lrest_def]] by simp_all

lemma lrest_ist:
  assumes "lrest s (t :: 'x ist_scheme)"
  shows "inodes t = inodes s" "sb t = sb s"
  using brest_ist [OF assms [unfolded lrest_def]] by simp_all

lemma brest_lrest: "brest s t \<Longrightarrow> lrest s t"
proof -
  assume b: "brest s t"
  have "s\<lparr>lh_n := lh_n t, lh_block := lh_block t\<rparr> = s" using brest_lst(6,7) [OF b] by (cases s) simp
  then show ?thesis using b by (simp add: lrest_def)
qed

lemma lrest_trans: "lrest s t \<Longrightarrow> lrest t u \<Longrightarrow> lrest s u"
proof -
  assume a: "lrest s t" "lrest t u"
  have "brest (s\<lparr>lh_n := lh_n u, lh_block := lh_block u\<rparr>) (t\<lparr>lh_n := lh_n u, lh_block := lh_block u\<rparr>)"
    using a(1) unfolding lrest_def brest_def by (cases s; cases t) auto
  then show ?thesis using a(2) unfolding lrest_def by (rule brest_trans)
qed

text \<open>Read a block, change it, log it, release it.\<close>

lemma log_then:
  assumes tx: "tx_ok s" and r: "log_room 1 s" and n: "n < disksize s" and l: "length (g (blk s n)) = BSIZE"
    and h: "\<And>t. brest s t \<Longrightarrow> h t = g"
  shows "\<exists>t. kbind (bread 1 n) (\<lambda>b. kthen (kmod (\<lambda>s. set_bdat b (h s (bdat s b)) s)) (kthen (log_write b) (kthen (brelse b) R))) s = R t \<and>
    tx_ok t \<and> lrest s t \<and> blk t = (blk s)(n := g (blk s n)) \<and> lh_n t \<le> lh_n s + 1"
proof -
  have q: "bio.quiesced (nat (lh_n s)) s" "nat (lh_n s) < NBUF" using tx_quiesced [OF tx] by auto
  have s: "bc_ok s" "bidle s" "\<And>b m. \<not> has s b m" "card (dirtyb s) \<le> nat (lh_n s)" using q(1) by (auto simp: bio.quiesced_def)
  have "n \<in> dirtyb s \<or> card (busyb s \<union> dirtyb s) < NBUF" using s(3,4) q(2) by simp
  from bio.bread_law [OF s(1,2) n s(3) this] obtain b t where t: "bread 1 n s = Ok b t" "bc_ok t" "brest s t"
    "blk t = blk s" "disk t = disk s" "dirtyb t = dirtyb s" "\<And>b' n'. has t b' n' \<longleftrightarrow> b' = b \<and> n' = n" using s(3) by auto
  have hb: "has t b n" using t(7) by simp
  have d: "bdat t b = blk s n" using bio.data_law [OF t(2) hb] t(4) by simp
  let ?u = "set_bdat b (g (blk s n)) t"
  have u: "bc_ok ?u" "brest t ?u" "blk ?u = (blk s)(n := g (blk s n))" "dirtyb ?u = dirtyb s" "has ?u = has t"
    using bio.setd_law [OF t(2) hb l] t by auto
  have su: "brest s ?u" by (rule brest_trans [OF t(3) u(2)])
  note L = brest_lst [OF su] brestD(1,2) [OF su]
  have lh: "lh_ok ?u" using tx u(4) L by (simp add: tx_ok_def lh_ok_def)
  have rm: "lh_n ?u < int LOGSIZE" "lh_n ?u < lsize ?u - 1" "1 \<le> outstanding ?u" "LK_log \<notin> set (held ?u)"
    using r tx L by (auto simp: log_room_def tx_ok_def)
  obtain v where v: "log_write b ?u = Ok () v" "v = ?u\<lparr>bufs := bufs v, lh_n := lh_n v, lh_block := lh_block v\<rparr>"
    "bc_ok v" "blk v = blk ?u" "has v = has ?u" "dirtyb v = insert n (dirtyb ?u)" "lh_ok v"
    "lh_n v = (if n \<in> dirtyb ?u then lh_n ?u else lh_n ?u + 1)"
    using log_write_ok [of ?u b n] hb u(1,5) lh rm by auto
  have uv: "lrest ?u v" using v(2) unfolding lrest_def brest_def by (cases v) (auto simp: set_bdat_def)
  have hv: "held v = held s" using lrest_lst(1) [OF uv] L by simp
  obtain w where w: "brelse b v = Ok () w" "bc_ok w" "brest v w" "blk w = blk v" "dirtyb w = dirtyb v"
    "\<And>b' n'. \<not> has w b' n'"
    using bio.brelse_law [OF v(3), of b n] v(5,6) u(5) hb t(7) hv s(2) by auto
  have sw: "lrest s w" by (rule lrest_trans [OF brest_lrest [OF su] lrest_trans [OF uv brest_lrest [OF w(3)]]])
  have ln: "lh_n w = lh_n v" "lh_block w = lh_block v" using brest_lst(6,7) [OF w(3)] .
  have le: "lh_n w \<le> lh_n s + 1" using v(8) ln L by simp
  have "tx_ok w"
    using w v(7) ln le r lrest_lst [OF sw] s(2) tx
    by (auto simp: tx_ok_def settled_def lh_ok_def log_room_def NBUF_def LOGSIZE_def)
  then show ?thesis using t(1) d v(1) w(1,4) u(3) v(4) sw le h [OF t(3)] by (intro exI [of _ w]) simp
qed

section \<open>The blocks of a file\<close>

definition ind_block :: "'x ist_scheme \<Rightarrow> nat \<Rightarrow> uint" where
  "ind_block s i = addrs (inodes s ! i) ! NDIRECT"

definition fblock :: "'x ist_scheme \<Rightarrow> nat \<Rightarrow> nat \<Rightarrow> uint" where
  "fblock s i j =
     (if j < NDIRECT then addrs (inodes s ! i) ! j else rd32 (blk s (ind_block s i)) (4 * (j - NDIRECT)))"

text \<open>The first \<open>m\<close> blocks are allocated, distinct, and not the block that lists the others.\<close>

definition mapped :: "'x ist_scheme \<Rightarrow> nat \<Rightarrow> nat \<Rightarrow> bool" where
  "mapped s i m \<longleftrightarrow> m \<le> MAXFILE \<and> idev (inodes s ! i) = 1 \<and>
     (\<forall>j<m. fblock s i j \<noteq> 0 \<and> fblock s i j < disksize s \<and> (NDIRECT < m \<longrightarrow> fblock s i j \<noteq> ind_block s i)) \<and>
     inj_on (fblock s i) {..<m} \<and>
     (NDIRECT < m \<longrightarrow> ind_block s i \<noteq> 0 \<and> ind_block s i < disksize s)"

definition fbyte :: "'x ist_scheme \<Rightarrow> nat \<Rightarrow> nat \<Rightarrow> uchar" where
  "fbyte s i p = blk s (fblock s i (p div BSIZE)) ! (p mod BSIZE)"

definition file_bytes :: "'x ist_scheme \<Rightarrow> nat \<Rightarrow> uchar list" where
  "file_bytes s i = map (fbyte s i) [0..<unat (isize (inodes s ! i))]"

lemma mappedD:
  assumes "mapped s i m"
  shows "m \<le> MAXFILE" "idev (inodes s ! i) = 1" "j < m \<Longrightarrow> fblock s i j \<noteq> 0" "j < m \<Longrightarrow> fblock s i j < disksize s"
    "NDIRECT < m \<Longrightarrow> j < m \<Longrightarrow> fblock s i j \<noteq> ind_block s i" "j < m \<Longrightarrow> j' < m \<Longrightarrow> fblock s i j = fblock s i j' \<longleftrightarrow> j = j'"
    "NDIRECT < m \<Longrightarrow> ind_block s i \<noteq> 0" "NDIRECT < m \<Longrightarrow> ind_block s i < disksize s"
  using assms unfolding mapped_def inj_on_def by blast+

text \<open>These depend on the block contents, the inodes and the size of the disk only.\<close>

lemma fblock_cong: "blk t = blk s \<Longrightarrow> inodes t = inodes s \<Longrightarrow> fblock t i = fblock s i \<and> fbyte t i = fbyte s i"
  by (auto simp: fblock_def fbyte_def ind_block_def fun_eq_iff)

lemma mapped_cong:
  "blk t = blk s \<Longrightarrow> inodes t = inodes s \<Longrightarrow> disksize t = disksize s \<Longrightarrow> mapped t i m = mapped s i m"
  using fblock_cong [of t s i] by (simp add: mapped_def ind_block_def)

lemma bmap_ok:
  assumes q: "bio.quiesced k s" "k < NBUF" and m: "mapped s i m" and j: "j < m"
  shows "\<exists>t. bmap i (of_nat j) s = Ok (fblock s i j) t \<and> bio.quiesced k t \<and> brest s t \<and> blk t = blk s \<and>
    disk t = disk s \<and> dwrites t = dwrites s \<and> dirtyb t = dirtyb s"
proof -
  have ju: "unat (of_nat j :: uint) = j" using j mappedD(1) [OF m] by (intro unat_of_nat_uint) (simp add: MAXFILE_def NDIRECT_def NINDIRECT_def)
  show ?thesis
  proof (cases "j < NDIRECT")
    case True
    then have "fblock s i j = addrs (inodes s ! i) ! j" by (simp add: fblock_def)
    then show ?thesis using True ju mappedD(3) [OF m j] q bio.rest_refl by (auto simp: bmap_def)
  next
    case False
    let ?bi = "j - NDIRECT" and ?g = "\<lambda>bs. rd32 bs (4 * (j - NDIRECT))"
    have nm: "NDIRECT < m" using False j by simp
    have b: "unat (of_nat j - of_nat NDIRECT :: uint) = ?bi"
      using False ju by (simp add: unat_sub word_le_nat_alt NDIRECT_def)
    have b': "?bi < NINDIRECT" using j mappedD(1) [OF m] False unfolding MAXFILE_def by linarith
    have f: "fblock s i j = ?g (blk s (ind_block s i))" using False by (simp add: fblock_def)
    obtain t where t: "kbind (bread 1 (ind_block s i)) (\<lambda>b. kbind (kget (\<lambda>s. ?g (bdat s b))) (\<lambda>x. kthen (brelse b) (kret x))) s
        = Ok (fblock s i j) t" and u: "bio.quiesced k t" "brest s t" "blk t = blk s" "disk t = disk s" "dwrites t = dwrites s" "dirtyb t = dirtyb s"
      using read_then [OF q mappedD(8) [OF m nm], of ?g kret] f by auto
    obtain c a where "bread 1 (ind_block s i) s = Ok c a" "?g (bdat a c) = fblock s i j" "brelse c a = Ok () t"
      using t by (auto simp: kbind_Ok_iff kthen_Ok_iff)
    then have "bmap i (of_nat j) s = Ok (fblock s i j) t"
      using False ju b b' mappedD(2,7) [OF m] nm mappedD(3) [OF m j]
      by (simp add: bmap_def Let_def ind_block_def)
    then show ?thesis using u by blast
  qed
qed

section \<open>Reading\<close>

lemma kbind_ret: "kbind (kret x) f = f x"
  by (rule ext) simp

lemma kthen_mod: "kthen (kmod h) m = (\<lambda>s. m (h s))"
  by (rule ext) simp

lemma kthen_ret: "kthen (kret x) m = m"
  by (rule ext) simp

lemma div_BSIZE:
  fixes off :: uint
  assumes "unat off < m * BSIZE" "m \<le> MAXFILE"
  shows "off div of_nat BSIZE = of_nat (unat off div BSIZE)" "unat off div BSIZE < m"
proof -
  show "off div of_nat BSIZE = of_nat (unat off div BSIZE)"
    by (simp add: word_arith_nat_div BSIZE_def unat_of_nat_uint del: of_nat_numeral)
  show "unat off div BSIZE < m" using assms(1) by (simp add: less_mult_imp_div_less)
qed

lemma unat_add_le:
  fixes off :: uint
  assumes "unat off + c \<le> m * BSIZE" "m \<le> MAXFILE"
  shows "unat (off + of_nat c) = unat off + c"
  using assms unat_add_of_nat [of off c] by (simp add: MAXFILE_def NDIRECT_def NINDIRECT_def BSIZE_def)

lemma length_blk: "bio.quiesced k s \<Longrightarrow> n < disksize s \<Longrightarrow> length (blk s n) = BSIZE"
  using length_blkof by (auto simp: bio.quiesced_def)

text \<open>The bytes of the file in one of its blocks.\<close>

lemma div_mod_within:
  assumes k: "(p :: nat) mod b + k < b"
  shows "(p + k) div b = p div b" "(p + k) mod b = p mod b + k"
proof -
  have "(p + k) mod b = (p mod b + k) mod b" by (simp add: mod_simps)
  then show m: "(p + k) mod b = p mod b + k" using k by simp
  have "b * ((p + k) div b) + (p mod b + k) = b * (p div b) + p mod b + k"
    using mult_div_mod_eq [of b "p + k"] mult_div_mod_eq [of b p] unfolding m by linarith
  then have "b * ((p + k) div b) = b * (p div b)" by linarith
  then show "(p + k) div b = p div b" using k by simp
qed

lemma fbyte_slice:
  assumes "p mod BSIZE + c \<le> BSIZE" "length (blk s (fblock s i (p div BSIZE))) = BSIZE"
  shows "take c (drop (p mod BSIZE) (blk s (fblock s i (p div BSIZE)))) = map (fbyte s i) [p..<p + c]"
proof (rule nth_equalityI)
  show "length (take c (drop (p mod BSIZE) (blk s (fblock s i (p div BSIZE))))) = length (map (fbyte s i) [p..<p + c])"
    using assms by simp
  fix k assume "k < length (take c (drop (p mod BSIZE) (blk s (fblock s i (p div BSIZE)))))"
  then have k: "k < c" "p mod BSIZE + k < BSIZE" using assms(1) by auto
  then have "(p + k) div BSIZE = p div BSIZE" "(p + k) mod BSIZE = p mod BSIZE + k"
    using div_mod_within [OF k(2)] by auto
  then show "take c (drop (p mod BSIZE) (blk s (fblock s i (p div BSIZE)))) ! k = map (fbyte s i) [p..<p + c] ! k"
    using k assms by (simp add: fbyte_def)
qed

lemma rest_len: "c \<le> n - tot \<Longrightarrow> p + c + (n - (tot + c)) = p + (n - tot)" for c n tot p :: nat
  by simp

lemma readi_loop_ok:
  fixes s :: "'x cst_scheme"
  assumes "bio.quiesced k s" "k < NBUF" "mapped s i m" "unat off + (n - tot) \<le> m * BSIZE" "n - tot \<le> fuel"
  shows "\<exists>t. readi_loop fuel i Dst_local off tot n s = Ok (map (fbyte s i) [unat off..<unat off + (n - tot)]) t \<and>
    bio.quiesced k t \<and> brest s t \<and> blk t = blk s \<and> dirtyb t = dirtyb s"
  using assms
proof (induction fuel arbitrary: s off tot)
  case 0
  then show ?case using bio.rest_refl by auto
next
  case (Suc fuel)
  show ?case
  proof (cases "tot < n")
    case False
    then show ?thesis using Suc.prems(1) bio.rest_refl by auto
  next
    case True
    let ?o = "unat off mod BSIZE"
    let ?c = "min (n - tot) (BSIZE - ?o)" and ?j = "unat off div BSIZE"
    have B: "0 < BSIZE" "?o < BSIZE" by (simp_all add: BSIZE_def)
    have c: "0 < ?c" "?c \<le> n - tot" "?o + ?c \<le> BSIZE" using True B by auto
    note M = mappedD [OF Suc.prems(3)]
    have off: "unat off < m * BSIZE" using Suc.prems(4) True by simp
    note D = div_BSIZE [OF off M(1)]
    have u: "unat (off + of_nat ?c) = unat off + ?c"
      by (rule unat_add_le [OF _ M(1)]) (use Suc.prems(4) c(2) in linarith)
    obtain a where a: "bmap i (of_nat ?j) s = Ok (fblock s i ?j) a" "bio.quiesced k a" "brest s a" "blk a = blk s"
      "dirtyb a = dirtyb s" using bmap_ok [OF Suc.prems(1-3) D(2)] by blast
    have ia: "inodes a = inodes s" "disksize a = disksize s" using brest_ist(1) [OF a(3)] brestD(2) [OF a(3)] by auto
    define R :: "uchar list \<Rightarrow> ('x cst_scheme, uchar list) kop" where "R = (\<lambda>bs. kbind (readi_loop fuel i Dst_local (off + of_nat ?c) (tot + ?c) n) (\<lambda>rest. kret (bs @ rest)))"
    have "fblock s i ?j < disksize a" using M(4) [OF D(2)] ia by simp
    from read_then [OF a(2) Suc.prems(2) this, of "\<lambda>d. take ?c (drop ?o d)" R]
    obtain t where t: "kbind (bread 1 (fblock s i ?j)) (\<lambda>b. kbind (kget (\<lambda>s. take ?c (drop ?o (bdat s b)))) (\<lambda>x. kthen (brelse b) (R x))) a
        = R (take ?c (drop ?o (blk s (fblock s i ?j)))) t" and tq: "bio.quiesced k t" "brest a t" "blk t = blk s" "dirtyb t = dirtyb s"
      using a(4,5) by auto
    have st: "brest s t" by (rule brest_trans [OF a(3) tq(2)])
    have it: "inodes t = inodes s" "disksize t = disksize s" using brest_ist(1) [OF st] brestD(2) [OF st] by auto
    have len: "length (blk s (fblock s i ?j)) = BSIZE" by (rule length_blk [OF Suc.prems(1) M(4) [OF D(2)]])
    have step: "readi_loop (Suc fuel) i Dst_local off tot n s = R (map (fbyte s i) [unat off..<unat off + ?c]) t"
      using t a(1) True M(2) ia D(1) fbyte_slice [OF c(3) len]
      by (simp add: R_def Let_def deliver_def kthen_ret)
    have fb: "fbyte t i = fbyte s i" using fblock_cong [OF tq(3) it(1)] by blast
    have e: "unat (off + of_nat ?c) + (n - (tot + ?c)) = unat off + (n - tot)" unfolding u by (rule rest_len [OF c(2)])
    have "\<exists>w. readi_loop fuel i Dst_local (off + of_nat ?c) (tot + ?c) n t =
        Ok (map (fbyte t i) [unat (off + of_nat ?c)..<unat (off + of_nat ?c) + (n - (tot + ?c))]) w \<and>
        bio.quiesced k w \<and> brest t w \<and> blk w = blk t \<and> dirtyb w = dirtyb t"
    proof (rule Suc.IH [OF tq(1) Suc.prems(2)])
      show "mapped t i m" using mapped_cong [OF tq(3) it] Suc.prems(3) by simp
      show "unat (off + of_nat ?c) + (n - (tot + ?c)) \<le> m * BSIZE" using e Suc.prems(4) by simp
      show "n - (tot + ?c) \<le> fuel" using Suc.prems(5) c(1) by linarith
    qed
    then have "\<exists>w. readi_loop fuel i Dst_local (off + of_nat ?c) (tot + ?c) n t =
        Ok (map (fbyte s i) [unat off + ?c..<unat off + (n - tot)]) w \<and> bio.quiesced k w \<and> brest t w \<and> blk w = blk t \<and> dirtyb w = dirtyb t"
      unfolding e unfolding u fb .
    then obtain w where w: "readi_loop fuel i Dst_local (off + of_nat ?c) (tot + ?c) n t =
        Ok (map (fbyte s i) [unat off + ?c..<unat off + (n - tot)]) w" "bio.quiesced k w" "brest t w" "blk w = blk t" "dirtyb w = dirtyb t"
      by blast
    have "unat off + ?c + (n - tot - ?c) = unat off + (n - tot)" using c(2) by linarith
    then have "map (fbyte s i) [unat off..<unat off + ?c] @ map (fbyte s i) [unat off + ?c..<unat off + (n - tot)] =
        map (fbyte s i) [unat off..<unat off + (n - tot)]"
      using upt_add_eq_append [OF le_add1, of "unat off" ?c "n - tot - ?c"] by (simp only: map_append [symmetric])
    then have "readi_loop (Suc fuel) i Dst_local off tot n s = Ok (map (fbyte s i) [unat off..<unat off + (n - tot)]) w"
      unfolding step R_def using w(1) by (simp only: kbind_simps(1) kret_apply)
    then show ?thesis using w(2,4,5) tq(3,4) brest_trans [OF st w(3)] by (intro exI [of _ w]) simp
  qed
qed

section \<open>Writing\<close>

text \<open>How many blocks the \<open>len\<close> bytes at \<open>p\<close> touch.\<close>

definition nblk :: "nat \<Rightarrow> nat \<Rightarrow> nat" where
  "nblk p len = (if len = 0 then 0 else Suc ((p + len - 1) div BSIZE - p div BSIZE))"

lemma nblk_chunk:
  assumes "0 < len"
  shows "nblk p len = Suc (nblk (p + min len (BSIZE - p mod BSIZE)) (len - min len (BSIZE - p mod BSIZE)))"
proof (cases "p mod BSIZE + len \<le> BSIZE")
  case True
  then have "(p + (len - 1)) div BSIZE = p div BSIZE" using assms by (intro div_mod_within(1)) linarith
  then have "(p + len - 1) div BSIZE = p div BSIZE" using assms by simp
  moreover have "min len (BSIZE - p mod BSIZE) = len" using True by simp
  ultimately show ?thesis using assms by (simp add: nblk_def)
next
  case False
  have B: "p mod BSIZE < BSIZE" by (simp add: BSIZE_def)
  let ?c = "BSIZE - p mod BSIZE"
  have m: "min len ?c = ?c" "0 < len - ?c" using False B by linarith+
  have pc: "p + ?c = BSIZE * Suc (p div BSIZE)" using mult_div_mod_eq [of BSIZE p] B unfolding mult_Suc_right by linarith
  have d: "(p + ?c) div BSIZE = Suc (p div BSIZE)" unfolding pc by (simp add: BSIZE_def)
  have e: "p + ?c + (len - ?c) - 1 = p + len - 1" using m(2) by linarith
  have "(p + ?c) div BSIZE \<le> (p + len - 1) div BSIZE" using m(2) by (intro div_le_mono) linarith
  then show ?thesis unfolding nblk_def m(1) using assms m(2) d e by simp
qed

lemma nth_blit:
  assumes "off + length vs \<le> length bs" "k < length bs"
  shows "blit bs off vs ! k = (if off \<le> k \<and> k < off + length vs then vs ! (k - off) else bs ! k)"
  using assms by (auto simp: blit_def nth_append min_def)

lemma length_blit [simp]: "off + length vs \<le> length bs \<Longrightarrow> length (blit bs off vs) = length bs"
  by (simp add: blit_def)

lemma tx_brest:
  assumes "tx_ok s" "bio.quiesced (nat (lh_n s)) t" "brest s t" "dirtyb t = dirtyb s"
  shows "tx_ok t"
  using assms brest_lst [OF assms(3)] brestD(1,2) [OF assms(3)] by (auto simp: tx_ok_def quiesced_settled lh_ok_def)

lemma log_room_less: "log_room (Suc r) s \<Longrightarrow> log_room 1 s"
  and log_room_step: "log_room (Suc r) s \<Longrightarrow> lrest s t \<Longrightarrow> lh_n t \<le> lh_n s + 1 \<Longrightarrow> log_room r t"
  using lrest_lst(3) [of s t] by (auto simp: log_room_def)

text \<open>Writing in one block of the file changes the bytes written and neither the other bytes nor the map.\<close>

lemma fblock_agree:
  assumes M: "mapped s i m" and e: "inodes t = inodes s" "disksize t = disksize s"
    and ib: "NDIRECT < m \<Longrightarrow> blk t (ind_block s i) = blk s (ind_block s i)"
  shows "\<And>j. j < m \<Longrightarrow> fblock t i j = fblock s i j" "mapped t i m"
proof -
  show f: "\<And>j. j < m \<Longrightarrow> fblock t i j = fblock s i j" using e ib by (auto simp: fblock_def ind_block_def)
  have "inj_on (fblock t i) {..<m}" using M f by (auto simp: mapped_def inj_on_def)
  then show "mapped t i m" using M f e unfolding mapped_def ind_block_def by auto
qed

lemma fbyte_write:
  assumes M: "mapped s i m" and e: "inodes t = inodes s" "disksize t = disksize s"
    and j: "p div BSIZE < m" and v: "p mod BSIZE + length v \<le> BSIZE" "length (blk s (fblock s i (p div BSIZE))) = BSIZE"
    and b: "blk t = (blk s)(fblock s i (p div BSIZE) := blit (blk s (fblock s i (p div BSIZE))) (p mod BSIZE) v)"
    and q: "q div BSIZE < m"
  shows "fbyte t i q = (if p \<le> q \<and> q < p + length v then v ! (q - p) else fbyte s i q)"
proof -
  have B: "q mod BSIZE < BSIZE" by (simp add: BSIZE_def)
  have "blk t (ind_block s i) = blk s (ind_block s i)" if "NDIRECT < m" using b mappedD(5) [OF M that j] by simp
  from fblock_agree(1) [OF M e this q] have f: "fblock t i (q div BSIZE) = fblock s i (q div BSIZE)" by simp
  show ?thesis
  proof (cases "q div BSIZE = p div BSIZE")
    case True
    have "q = BSIZE * (p div BSIZE) + q mod BSIZE" "p = BSIZE * (p div BSIZE) + p mod BSIZE"
      using mult_div_mod_eq [of BSIZE q] True by simp_all
    then have "p \<le> q \<longleftrightarrow> p mod BSIZE \<le> q mod BSIZE" "q < p + length v \<longleftrightarrow> q mod BSIZE < p mod BSIZE + length v"
      "q - p = q mod BSIZE - p mod BSIZE" by linarith+
    then show ?thesis using f True b v B by (simp add: fbyte_def nth_blit)
  next
    case False
    have "q div BSIZE = p div BSIZE" if "p \<le> q" "q < p + length v"
      using div_mod_within(1) [of p BSIZE "q - p"] v(1) that by simp
    then have "\<not> (p \<le> q \<and> q < p + length v)" using False by blast
    moreover have "fblock s i (q div BSIZE) \<noteq> fblock s i (p div BSIZE)" using mappedD(6) [OF M q j] False by simp
    ultimately show ?thesis using f b by (auto simp: fbyte_def)
  qed
qed

lemma chunk_join:
  assumes "(c :: nat) \<le> l"
  shows "(if p + c \<le> q \<and> q < p + l then f (x + c + (q - (p + c))) else if p \<le> q \<and> q < p + c then f (x + (q - p)) else g) =
    (if p \<le> q \<and> q < p + l then f (x + (q - p)) else g)"
proof (cases "p + c \<le> q")
  case True
  then have "x + c + (q - (p + c)) = x + (q - p)" by simp
  then show ?thesis using True by simp
next
  case False
  then show ?thesis using assms by auto
qed

lemma writei_loop_ok:
  fixes s :: "'x cst_scheme"
  assumes "tx_ok s" "log_room (nblk (unat off) (n - tot)) s" "mapped s i m" "unat off + (n - tot) \<le> m * BSIZE"
    "n \<le> length bs" "n - tot \<le> fuel"
  shows "\<exists>t. writei_loop fuel i (Src_local bs) off tot n s = Ok () t \<and> tx_ok t \<and> lrest s t \<and> mapped t i m \<and>
    lh_n t \<le> lh_n s + int (nblk (unat off) (n - tot)) \<and> (\<forall>j<m. fblock t i j = fblock s i j) \<and>
    (\<forall>b. b \<notin> fblock s i ` {..<m} \<longrightarrow> blk t b = blk s b) \<and>
    (\<forall>q. q div BSIZE < m \<longrightarrow> fbyte t i q =
      (if unat off \<le> q \<and> q < unat off + (n - tot) then bs ! (tot + (q - unat off)) else fbyte s i q))"
  using assms
proof (induction fuel arbitrary: s off tot)
  case 0
  then show ?case using brest_lrest [OF bio.rest_refl] by auto
next
  case (Suc fuel)
  show ?case
  proof (cases "tot < n")
    case False
    then show ?thesis using Suc.prems brest_lrest [OF bio.rest_refl] by auto
  next
    case True
    let ?p = "unat off"
    let ?o = "?p mod BSIZE"
    let ?c = "min (n - tot) (BSIZE - ?o)" and ?j = "?p div BSIZE"
    have B: "0 < BSIZE" "?o < BSIZE" by (simp_all add: BSIZE_def)
    have c: "0 < ?c" "?c \<le> n - tot" "?o + ?c \<le> BSIZE" using True B by auto
    define v where "v = take ?c (drop tot bs)"
    have v: "length v = ?c" "\<And>k. k < ?c \<Longrightarrow> v ! k = bs ! (tot + k)" using c(2) True Suc.prems(5) by (auto simp: v_def)
    note M = mappedD [OF Suc.prems(3)]
    have off: "?p < m * BSIZE" using Suc.prems(4) True by simp
    note D = div_BSIZE [OF off M(1)]
    have u: "unat (off + of_nat ?c) = ?p + ?c"
      by (rule unat_add_le [OF _ M(1)]) (use Suc.prems(4) c(2) in linarith)
    have nb: "nblk ?p (n - tot) = Suc (nblk (?p + ?c) (n - (tot + ?c)))"
      using nblk_chunk [of "n - tot" ?p] True by simp
    note Q = tx_quiesced [OF Suc.prems(1), THEN conjunct1] tx_quiesced [OF Suc.prems(1), THEN conjunct2]
    obtain a where a: "bmap i (of_nat ?j) s = Ok (fblock s i ?j) a" "bio.quiesced (nat (lh_n s)) a" "brest s a" "blk a = blk s"
      "dirtyb a = dirtyb s" using bmap_ok [OF Q Suc.prems(3) D(2)] by blast
    have ia: "inodes a = inodes s" "disksize a = disksize s" using brest_ist(1) [OF a(3)] brestD(2) [OF a(3)] by auto
    have ta: "tx_ok a" by (rule tx_brest [OF Suc.prems(1) a(2,3,5)])
    have la: "lh_n a = lh_n s" "lsize a = lsize s" using brest_lst(6,3) [OF a(3)] brest_lst(2) [OF a(3)] by auto
    have ra: "log_room (Suc (nblk (?p + ?c) (n - (tot + ?c)))) a" using Suc.prems(2) la unfolding nb log_room_def by simp
    have len: "length (blk s (fblock s i ?j)) = BSIZE" by (rule length_blk [OF Q(1) M(4) [OF D(2)]])
    define R :: "('x cst_scheme, unit) kop" where "R = writei_loop fuel i (Src_local bs) (off + of_nat ?c) (tot + ?c) n"
    have "fblock s i ?j < disksize a" using M(4) [OF D(2)] ia by simp
    from log_then [OF ta log_room_less [OF ra] this, of "\<lambda>d. blit d ?o v" "\<lambda>_ d. blit d ?o v" R]
    obtain t where t: "kbind (bread 1 (fblock s i ?j)) (\<lambda>b. kthen (kmod (\<lambda>s. set_bdat b (blit (bdat s b) ?o v) s))
          (kthen (log_write b) (kthen (brelse b) R))) a = R t"
      and tq: "tx_ok t" "lrest a t" "blk t = (blk s)(fblock s i ?j := blit (blk s (fblock s i ?j)) ?o v)" "lh_n t \<le> lh_n s + 1"
      using a(4) len v(1) c(3) la by auto
    have st: "lrest s t" by (rule lrest_trans [OF brest_lrest [OF a(3)] tq(2)])
    note it = lrest_ist(1) [OF st] lrest_lst(2) [OF st]
    have step: "writei_loop (Suc fuel) i (Src_local bs) off tot n s = R t"
      using t a(1) True M(2) ia D(1) by (simp add: R_def v_def Let_def fetch_def kbind_ret kthen_mod)
    have ib: "blk t (ind_block s i) = blk s (ind_block s i)" if "NDIRECT < m" using tq(3) M(5) [OF that D(2)] by simp
    note F = fblock_agree [OF Suc.prems(3) it ib]
    have fq: "fbyte t i q = (if ?p \<le> q \<and> q < ?p + ?c then bs ! (tot + (q - ?p)) else fbyte s i q)" if "q div BSIZE < m" for q
    proof -
      have w: "fbyte t i q = (if ?p \<le> q \<and> q < ?p + ?c then v ! (q - ?p) else fbyte s i q)"
        using fbyte_write [OF Suc.prems(3) it D(2) _ len tq(3) that] c(3) unfolding v(1) by blast
      show ?thesis
      proof (cases "?p \<le> q \<and> q < ?p + ?c")
        case True
        then have "q - ?p < ?c" using diff_less_mono [of q "?p + ?c" ?p] unfolding diff_add_inverse by blast
        then show ?thesis unfolding w using v(2) by presburger
      qed (simp only: w if_False)
    qed
    have e: "unat (off + of_nat ?c) + (n - (tot + ?c)) = ?p + (n - tot)" unfolding u by (rule rest_len [OF c(2)])
    have "\<exists>w. R t = Ok () w \<and> tx_ok w \<and> lrest t w \<and> mapped w i m \<and>
        lh_n w \<le> lh_n t + int (nblk (unat (off + of_nat ?c)) (n - (tot + ?c))) \<and> (\<forall>j<m. fblock w i j = fblock t i j) \<and>
        (\<forall>b. b \<notin> fblock t i ` {..<m} \<longrightarrow> blk w b = blk t b) \<and>
        (\<forall>q. q div BSIZE < m \<longrightarrow> fbyte w i q = (if unat (off + of_nat ?c) \<le> q \<and> q < unat (off + of_nat ?c) + (n - (tot + ?c))
          then bs ! (tot + ?c + (q - unat (off + of_nat ?c))) else fbyte t i q))"
      unfolding R_def
    proof (rule Suc.IH [OF tq(1) _ F(2) _ Suc.prems(5)])
      show "log_room (nblk (unat (off + of_nat ?c)) (n - (tot + ?c))) t"
        using log_room_step [OF ra tq(2)] tq(4) la unfolding u by simp
      show "unat (off + of_nat ?c) + (n - (tot + ?c)) \<le> m * BSIZE" using e Suc.prems(4) by simp
      show "n - (tot + ?c) \<le> fuel" using Suc.prems(6) c(1) by linarith
    qed
    then obtain w where w: "R t = Ok () w" "tx_ok w" "lrest t w" "mapped w i m"
      "lh_n w \<le> lh_n t + int (nblk (?p + ?c) (n - (tot + ?c)))" "\<forall>j<m. fblock w i j = fblock t i j"
      "\<forall>b. b \<notin> fblock t i ` {..<m} \<longrightarrow> blk w b = blk t b"
      and wq: "\<And>q. q div BSIZE < m \<Longrightarrow> fbyte w i q = (if ?p + ?c \<le> q \<and> q < ?p + (n - tot)
          then bs ! (tot + ?c + (q - (?p + ?c))) else fbyte t i q)"
      unfolding e unfolding u by blast
    have im: "fblock t i ` {..<m} = fblock s i ` {..<m}" using F(1) by (intro image_cong) auto
    have "blk w b = blk s b" if "b \<notin> fblock s i ` {..<m}" for b
      using w(7) im that tq(3) D(2) by auto
    moreover have "fbyte w i q = (if ?p \<le> q \<and> q < ?p + (n - tot) then bs ! (tot + (q - ?p)) else fbyte s i q)"
      if "q div BSIZE < m" for q
      unfolding wq [OF that] fq [OF that] by (rule chunk_join [OF c(2)])
    moreover have "lh_n w \<le> lh_n s + int (nblk ?p (n - tot))" unfolding nb using w(5) tq(4) by simp
    ultimately show ?thesis using step w(1,2,4,6) F(1) lrest_trans [OF st w(3)] by (intro exI [of _ w]) auto
  qed
qed

section \<open>The inode on disk\<close>

text \<open>What \<open>iupdate\<close> stores, \<open>ilock\<close> reads back; the other inodes of the block keep their bytes.\<close>

lemma length_wrs [simp]: "length (fold (\<lambda>k bs. wr32 bs (off + 12 + 4 * k) (f k)) ks bs) = length bs"
  by (induction ks arbitrary: bs) simp_all

lemma length_dinode_put [simp]: "length (dinode_put ip off bs) = length bs"
  by (simp add: dinode_put_def)

lemma wrs_other:
  assumes "q < off + 12 \<or> off + 12 + 4 * n \<le> q"
  shows "fold (\<lambda>k bs. wr32 bs (off + 12 + 4 * k) (f k)) [0..<n] bs ! q = bs ! q"
  using assms
proof (induction n)
  case (Suc n)
  then have "q < off + 12 + 4 * n \<or> off + 12 + 4 * n + 4 \<le> q" by auto
  moreover have "q < off + 12 \<or> off + 12 + 4 * n \<le> q" using Suc.prems by auto
  ultimately show ?case using Suc.IH by (simp add: nth_wr32_out)
qed simp

lemma wrs_same:
  assumes "k < n" "off + 12 + 4 * n \<le> length bs"
  shows "rd32 (fold (\<lambda>k bs. wr32 bs (off + 12 + 4 * k) (f k)) [0..<n] bs) (off + 12 + 4 * k) = f k"
  using assms
proof (induction n)
  case (Suc n)
  then show ?case by (cases "k = n") (simp_all add: rd32_wr32_other)
qed simp

lemma dinode_put_head:
  fixes ip :: inode
  assumes "off + 12 \<le> length bs"
  defines "ds \<equiv> dinode_put ip off bs"
  shows "rd16 ds off = itype ip" "rd16 ds (off + 2) = imajor ip" "rd16 ds (off + 4) = iminor ip"
    "rd16 ds (off + 6) = nlink ip" "rd32 ds (off + 8) = isize ip"
proof -
  define hb where "hb = wr32 (wr16 (wr16 (wr16 (wr16 bs off (itype ip)) (off + 2) (imajor ip)) (off + 4) (iminor ip))
    (off + 6) (nlink ip)) (off + 8) (isize ip)"
  have e: "ds ! q = hb ! q" if "q < off + 12" for q
    unfolding ds_def dinode_put_def hb_def by (rule wrs_other) (use that in blast)
  from e have w: "rd16 ds (off + k) = rd16 hb (off + k)" if "k \<le> 10" for k using that by (auto intro!: rd16_cong)
  have "rd32 ds (off + 8) = rd32 hb (off + 8)" using e by (auto intro!: rd32_cong)
  then show "rd16 ds off = itype ip" "rd16 ds (off + 2) = imajor ip" "rd16 ds (off + 4) = iminor ip"
    "rd16 ds (off + 6) = nlink ip" "rd32 ds (off + 8) = isize ip"
    using w [of 0] w [of 2] w [of 4] w [of 6] assms(1) unfolding hb_def by (simp_all add: rd16_wr32_other rd16_wr16_other)
qed

lemma dinode_roundtrip:
  assumes "off + 64 \<le> length bs" "length (addrs ip) = Suc NDIRECT"
  shows "dinode_get (dinode_put ip off bs) off jp =
    ip\<lparr>idev := idev jp, inum := inum jp, iref := iref jp, ibusy := ibusy jp, ivalid := ivalid jp\<rparr>"
proof -
  have "map (\<lambda>k. rd32 (dinode_put ip off bs) (off + 12 + 4 * k)) [0..<Suc NDIRECT] = map (\<lambda>k. addrs ip ! k) [0..<Suc NDIRECT]"
    unfolding dinode_put_def using assms(1) by (intro map_cong refl wrs_same) (auto simp: NDIRECT_def)
  also have "\<dots> = addrs ip" using assms(2) map_nth [of "addrs ip"] by simp
  finally show ?thesis
    unfolding dinode_get_def using dinode_put_head [of off bs ip] assms(1) by (cases ip; cases jp) simp
qed

lemma dinode_put_others:
  assumes "q < off \<or> off + 64 \<le> q"
  shows "dinode_put ip off bs ! q = bs ! q"
  using assms unfolding dinode_put_def
  by (subst wrs_other) (auto simp: NDIRECT_def nth_wr32_out nth_wr16_out)

lemma iupdate_ok:
  fixes s :: "'x ist_scheme"
  assumes tx: "tx_ok s" "log_room 1 s" and d: "idev (inodes s ! i) = 1"
  defines "n \<equiv> IBLOCK (inum (inodes s ! i)) (sb s)"
  assumes n: "n < disksize s"
  shows "\<exists>t. iupdate i s = Ok () t \<and> tx_ok t \<and> lrest s t \<and> lh_n t \<le> lh_n s + 1 \<and>
    blk t = (blk s)(n := dinode_put (inodes s ! i) (dinode_off (inum (inodes s ! i))) (blk s n))"
proof -
  have q: "bio.quiesced (nat (lh_n s)) s" using tx_quiesced [OF tx(1)] by simp
  let ?g = "dinode_put (inodes s ! i) (dinode_off (inum (inodes s ! i)))"
  have "\<And>t. brest s t \<Longrightarrow> dinode_put (inodes t ! i) (dinode_off (inum (inodes s ! i))) = ?g" by (simp add: brest_ist(1))
  from log_then [OF tx n, of ?g "\<lambda>t. dinode_put (inodes t ! i) (dinode_off (inum (inodes s ! i)))" "kret ()", OF _ this]
  obtain t where "kbind (bread 1 n) (\<lambda>b. kthen (kmod (\<lambda>t. set_bdat b (dinode_put (inodes t ! i) (dinode_off (inum (inodes s ! i))) (bdat t b)) t))
      (kthen (log_write b) (kthen (brelse b) (kret ())))) s = Ok () t" and t: "tx_ok t \<and> lrest s t \<and> lh_n t \<le> lh_n s + 1 \<and>
      blk t = (blk s)(n := ?g (blk s n))"
    using length_blk [OF q n] by auto
  then have "iupdate i s = Ok () t" unfolding iupdate_def using d by (auto simp: n_def kbind_Ok_iff kthen_Ok_iff)
  then show ?thesis using t by blast
qed

section \<open>Files\<close>

text \<open>
  A file of at most \<open>m\<close> blocks: they are allocated, they hold the \<open>isize\<close> bytes, and neither they nor
  the block that lists them contain the inode.
\<close>

definition iblk :: "'x ist_scheme \<Rightarrow> nat \<Rightarrow> uint" where
  "iblk s i = IBLOCK (inum (inodes s ! i)) (sb s)"

definition file_ok :: "'x ist_scheme \<Rightarrow> nat \<Rightarrow> nat \<Rightarrow> bool" where
  "file_ok s i m \<longleftrightarrow> mapped s i m \<and> i < length (inodes s) \<and> itype (inodes s ! i) \<noteq> T_DEV \<and>
     unat (isize (inodes s ! i)) \<le> m * BSIZE \<and> length (addrs (inodes s ! i)) = Suc NDIRECT \<and>
     iblk s i < disksize s \<and> iblk s i \<notin> fblock s i ` {..<m} \<and> (NDIRECT < m \<longrightarrow> iblk s i \<noteq> ind_block s i)"

text \<open>The inode on disk is the one in memory.\<close>

definition istored :: "'x ist_scheme \<Rightarrow> nat \<Rightarrow> bool" where
  "istored s i \<longleftrightarrow> dinode_get (blk s (iblk s i)) (dinode_off (inum (inodes s ! i))) (inodes s ! i) = inodes s ! i"

lemma file_okD:
  assumes "file_ok s i m"
  shows "mapped s i m" "i < length (inodes s)" "itype (inodes s ! i) \<noteq> T_DEV" "unat (isize (inodes s ! i)) \<le> m * BSIZE"
    "length (addrs (inodes s ! i)) = Suc NDIRECT" "iblk s i < disksize s" "iblk s i \<notin> fblock s i ` {..<m}"
    "NDIRECT < m \<Longrightarrow> iblk s i \<noteq> ind_block s i"
  using assms unfolding file_ok_def by blast+

lemma file_bytes_nth: "q < unat (isize (inodes s ! i)) \<Longrightarrow> file_bytes s i ! q = fbyte s i q"
  and length_file_bytes [simp]: "length (file_bytes s i) = unat (isize (inodes s ! i))"
  by (simp_all add: file_bytes_def)

lemma sint_small: "unat (w :: uint) < 2 ^ 31 \<Longrightarrow> sint w = int (unat w)"
proof -
  assume "unat w < 2 ^ 31"
  then have "int (unat w) < 2 ^ 31" by (simp only: of_nat_less_numeral_power_cancel_iff)
  moreover have "- (2 ^ 31) \<le> int (unat w)" by (rule order_trans [of _ 0]) simp_all
  ultimately have "signed_take_bit 31 (int (unat w)) = int (unat w)" by (intro signed_take_bit_int_eq_self)
  then show ?thesis unfolding sint_uint by (simp only: uint_nat len_num0 len_bit0 len_num1) simp
qed

lemma readi_ok:
  fixes s :: "'x cst_scheme"
  assumes tx: "tx_ok s" and f: "file_ok s i m" and off: "off \<le> isize (inodes s ! i)" "unat off + unat n < 2 ^ 32"
  shows "\<exists>t. readi i Dst_local off n s =
      Ok (int (min (unat n) (length (file_bytes s i) - unat off)), take (unat n) (drop (unat off) (file_bytes s i))) t \<and>
    tx_ok t \<and> brest s t \<and> blk t = blk s"
proof -
  note F = file_okD [OF f] and Q = tx_quiesced [OF tx]
  note m = mappedD(1) [OF F(1)]
  let ?z = "isize (inodes s ! i)"
  define n' where "n' = (if off + n > ?z then ?z - off else n)"
  have z: "unat ?z \<le> 71680" using F(4) m by (simp add: MAXFILE_def NDIRECT_def NINDIRECT_def BSIZE_def)
  have nw: "unat (off + n) = unat off + unat n" using off(2) by (simp add: unat_word_ariths)
  have n': "unat n' = min (unat n) (unat ?z - unat off)"
    using off(1) nw by (auto simp: n'_def word_less_nat_alt word_le_nat_alt unat_sub)
  have off': "unat off \<le> unat ?z" using off(1) by (simp add: word_le_nat_alt)
  have le: "unat off + unat n' \<le> unat ?z" using n' off' by simp
  obtain t where t: "readi_loop (unat n') i Dst_local off 0 (unat n') s = Ok (map (fbyte s i) [unat off..<unat off + unat n']) t"
    "bio.quiesced (nat (lh_n s)) t" "brest s t" "blk t = blk s" "dirtyb t = dirtyb s"
    using readi_loop_ok [of "nat (lh_n s)" s i m off "unat n'" 0 "unat n'"] Q F(1,4) le by auto
  have "sint n' = int (unat n')" by (rule sint_small) (use n' z in simp)
  moreover have "\<not> off + n < off" using nw by (simp add: word_less_nat_alt)
  moreover have "map (fbyte s i) [unat off..<unat off + unat n'] = take (unat n) (drop (unat off) (file_bytes s i))"
    unfolding file_bytes_def using n' off' by (intro nth_equalityI) auto
  ultimately have "readi i Dst_local off n s =
      Ok (int (min (unat n) (length (file_bytes s i) - unat off)), take (unat n) (drop (unat off) (file_bytes s i))) t"
    using t(1) F(3) off(1) n' by (simp add: readi_def Let_def n'_def [symmetric] not_less)
  then show ?thesis using t tx_brest [OF tx t(2,3,5)] by blast
qed

text \<open>The bytes of the file after a write, as a list.\<close>

lemma file_bytes_blit:
  assumes "unat off \<le> unat (isize (inodes s ! i))" "unat (isize (inodes t ! i)) = max (unat (isize (inodes s ! i))) (unat off + length bs)"
    and "\<And>q. q < unat (isize (inodes t ! i)) \<Longrightarrow> fbyte t i q =
      (if unat off \<le> q \<and> q < unat off + length bs then bs ! (q - unat off) else fbyte s i q)"
  shows "file_bytes t i = blit (file_bytes s i) (unat off) bs"
proof (rule nth_equalityI)
  show l: "length (file_bytes t i) = length (blit (file_bytes s i) (unat off) bs)" using assms(1,2) by (simp add: blit_def max_def)
  fix q assume "q < length (file_bytes t i)"
  then have q: "q < unat (isize (inodes t ! i))" by simp
  show "file_bytes t i ! q = blit (file_bytes s i) (unat off) bs ! q"
    unfolding file_bytes_nth [OF q] assms(3) [OF q] using q assms(1,2)
    by (auto simp: blit_def nth_append file_bytes_nth min_def max_def split: if_splits)
qed

lemma upd_inode_size:
  fixes s :: "'x cst_scheme"
  assumes f: "file_ok s i m" and z: "unat z \<le> m * BSIZE"
  defines "t \<equiv> s\<lparr>inodes := (inodes s)[i := (inodes s ! i)\<lparr>isize := z\<rparr>]\<rparr>"
  shows "file_ok t i m" "fbyte t i = fbyte s i" "tx_ok t = tx_ok s" "log_room r t = log_room r s" "inodes t ! i = (inodes s ! i)\<lparr>isize := z\<rparr>"
proof -
  note F = file_okD [OF f]
  show i: "inodes t ! i = (inodes s ! i)\<lparr>isize := z\<rparr>" using F(2) by (simp add: t_def)
  have b: "blk t = blk s" "sb t = sb s" "disksize t = disksize s" "length (inodes t) = length (inodes s)" by (simp_all add: t_def)
  have fb: "fblock t i = fblock s i" "ind_block t i = ind_block s i" "iblk t i = iblk s i"
    using i b by (auto simp: fblock_def ind_block_def iblk_def fun_eq_iff)
  have "mapped t i m" using F(1) i b fb by (simp add: mapped_def)
  then show "file_ok t i m" using f i b fb z by (simp add: file_ok_def)
  show "fbyte t i = fbyte s i" using fb b by (simp add: fbyte_def fun_eq_iff)
  show "tx_ok t = tx_ok s" "log_room r t = log_room r s" by (simp_all add: tx_ok_def t_def settled_def lh_ok_def log_room_def)
qed

text \<open>Writing the inode's block leaves the file as it is and stores the inode.\<close>

lemma file_iblk:
  assumes f: "file_ok s i m" and l: "lrest s t" and len: "length (blk s (iblk s i)) = BSIZE"
    and b: "blk t = (blk s)(iblk s i := dinode_put (inodes s ! i) (dinode_off (inum (inodes s ! i))) (blk s (iblk s i)))"
  shows "file_ok t i m" "q div BSIZE < m \<Longrightarrow> fbyte t i q = fbyte s i q" "istored t i"
proof -
  note F = file_okD [OF f] and I = lrest_ist [OF l] and D = lrest_lst(2) [OF l]
  have ib: "blk t (ind_block s i) = blk s (ind_block s i)" if "NDIRECT < m" using b F(8) [OF that] by simp
  have A: "\<And>j. j < m \<Longrightarrow> fblock t i j = fblock s i j" "mapped t i m" using fblock_agree [OF F(1) I(1) D ib] by blast+
  have e: "iblk t i = iblk s i" "ind_block t i = ind_block s i" using I by (simp_all add: iblk_def ind_block_def)
  have im: "fblock t i ` {..<m} = fblock s i ` {..<m}" using A(1) by (intro image_cong) auto
  show "file_ok t i m" using f A(2) I D e im by (simp add: file_ok_def)
  show "fbyte t i q = fbyte s i q" if "q div BSIZE < m"
  proof -
    have "fblock s i (q div BSIZE) \<in> fblock s i ` {..<m}" using that by (intro imageI) simp
    then have "fblock s i (q div BSIZE) \<noteq> iblk s i" using F(7) by metis
    then show ?thesis using A(1) [OF that] b by (simp add: fbyte_def)
  qed
  have "dinode_off (inum (inodes s ! i)) + 64 \<le> BSIZE" by (simp add: dinode_off_def IPB_def BSIZE_def)
  then show "istored t i"
    using dinode_roundtrip [of "dinode_off (inum (inodes s ! i))" "blk s (iblk s i)" "inodes s ! i" "inodes s ! i"] len F(5) e I b
    by (simp add: istored_def)
qed

lemma writei_ok:
  fixes s :: "'x cst_scheme"
  assumes tx: "tx_ok s" and f: "file_ok s i m" and st: "istored s i" and off: "off \<le> isize (inodes s ! i)"
    and le: "unat off + length bs \<le> m * BSIZE" and room: "log_room (Suc (nblk (unat off) (length bs))) s"
  shows "\<exists>t. writei i (Src_local bs) off (of_nat (length bs)) s = Ok (int (length bs)) t \<and> tx_ok t \<and> file_ok t i m \<and> istored t i \<and>
    file_bytes t i = blit (file_bytes s i) (unat off) bs \<and> inodes t ! i = (inodes s ! i)\<lparr>isize := isize (inodes t ! i)\<rparr>"
proof -
  note F = file_okD [OF f]
  let ?n = "of_nat (length bs) :: uint" and ?z = "isize (inodes s ! i)"
  have mx: "m * BSIZE \<le> 71680" using mappedD(1) [OF F(1)] by (simp add: MAXFILE_def NDIRECT_def NINDIRECT_def BSIZE_def)
  have n: "unat ?n = length bs" by (rule unat_of_nat_uint) (use mx le in linarith)
  have nw: "unat (off + ?n) = unat off + length bs" by (rule unat_add_of_nat) (use mx le in linarith)
  have sn: "sint ?n = int (length bs)" using sint_small [of ?n] n mx le by simp
  have off': "unat off \<le> unat ?z" using off by (simp add: word_le_nat_alt)
  have g: "\<not> off > ?z" "\<not> off + ?n < off" "\<not> off + ?n > of_nat (MAXFILE * BSIZE)"
    using off' nw le mx by (auto simp: word_less_nat_alt MAXFILE_def NDIRECT_def NINDIRECT_def BSIZE_def)
  have "log_room (nblk (unat off) (unat ?n - 0)) s" using room n by (simp add: log_room_def)
  then obtain a where a: "writei_loop (unat ?n) i (Src_local bs) off 0 (unat ?n) s = Ok () a" "tx_ok a" "lrest s a" "mapped a i m"
    "lh_n a \<le> lh_n s + int (nblk (unat off) (length bs))" "\<forall>j<m. fblock a i j = fblock s i j"
    "\<forall>b. b \<notin> fblock s i ` {..<m} \<longrightarrow> blk a b = blk s b"
    and aq: "\<And>q. q div BSIZE < m \<Longrightarrow> fbyte a i q = (if unat off \<le> q \<and> q < unat off + length bs then bs ! (q - unat off) else fbyte s i q)"
    using writei_loop_ok [of s off "unat ?n" 0 i m bs "unat ?n"] tx F(1) le n by auto
  note ia = lrest_ist [OF a(3)] lrest_lst(2,3) [OF a(3)]
  have im: "fblock a i ` {..<m} = fblock s i ` {..<m}" using a(6) by (intro image_cong) auto
  have ea: "iblk a i = iblk s i" "ind_block a i = ind_block s i" using ia by (simp_all add: iblk_def ind_block_def)
  have fa: "file_ok a i m" using f a(4) ia ea im by (simp add: file_ok_def)
  have sa: "istored a i" using st ea ia F(7) a(7) by (simp add: istored_def)
  have dq: "q div BSIZE < m" if "q < m * BSIZE" for q using that by (simp add: less_mult_imp_div_less)
  let ?grow = "?n > 0 \<and> off + ?n > ?z"
  show ?thesis
  proof (cases ?grow)
    case False
    have w: "writei i (Src_local bs) off ?n s = Ok (int (length bs)) a"
      using a(1) F(3) g False ia sn by (auto simp: writei_def not_less)
    have "unat off + length bs \<le> unat ?z" using False n nw off' by (auto simp: word_less_nat_alt)
    then have "file_bytes a i = blit (file_bytes s i) (unat off) bs"
      using off' ia aq dq F(4) by (intro file_bytes_blit) auto
    moreover have "inodes a ! i = (inodes s ! i)\<lparr>isize := isize (inodes a ! i)\<rparr>" using ia(1) by simp
    ultimately show ?thesis using w a(2) fa sa by blast
  next
    case True
    define c where "c = a\<lparr>inodes := (inodes a)[i := (inodes a ! i)\<lparr>isize := off + ?n\<rparr>]\<rparr>"
    have z: "unat (off + ?n) \<le> m * BSIZE" using nw le by simp
    note C = upd_inode_size [OF fa z, folded c_def] and FC = file_okD [OF upd_inode_size(1) [OF fa z, folded c_def]]
    have ra: "log_room 1 a" using room a(5) ia unfolding log_room_def by auto
    have tc: "tx_ok c" "log_room 1 c" using C(3,4) a(2) ra by auto
    have qc: "bio.quiesced (nat (lh_n c)) c" using tx_quiesced [OF tc(1)] by simp
    obtain t where t: "iupdate i c = Ok () t" "tx_ok t" "lrest c t"
      "blk t = (blk c)(iblk c i := dinode_put (inodes c ! i) (dinode_off (inum (inodes c ! i))) (blk c (iblk c i)))"
      using iupdate_ok [OF tc mappedD(2) [OF FC(1)]] FC(6) unfolding iblk_def by auto
    note T = file_iblk [OF C(1) t(3) length_blk [OF qc FC(6)] t(4)]
    have w: "writei i (Src_local bs) off ?n s = Ok (int (length bs)) t"
      using a(1) F(3) g True ia sn t(1) by (simp add: writei_def not_less c_def)
    have it: "isize (inodes t ! i) = off + ?n" using lrest_ist(1) [OF t(3)] C(5) by simp
    have "unat off + length bs > unat ?z" using True nw by (auto simp: word_less_nat_alt)
    then have "file_bytes t i = blit (file_bytes s i) (unat off) bs"
      using off' it nw aq dq T(2) C(2) le by (intro file_bytes_blit) auto
    moreover have "inodes t ! i = (inodes s ! i)\<lparr>isize := isize (inodes t ! i)\<rparr>"
      using lrest_ist(1) [OF t(3)] C(5) ia(1) by simp
    ultimately show ?thesis using w t(2) T(1,3) by blast
  qed
qed

text \<open>
  C3. A file is an array of bytes. Within a transaction with room in the log, let the first \<open>m\<close> blocks
  of a file be allocated (through the indirect block too), and \<open>off\<close> be at most its size. Then \<open>writei\<close>
  of \<open>bs\<close> at \<open>off\<close> within these blocks returns the number of bytes, replaces exactly these bytes of the
  file, makes it longer where they go past its end, changes nothing else in the inode, and stores the new size in the inode on disk; and
  \<open>readi\<close> after it returns, at every offset up to the size, the bytes of the file that result, cut
  at its end.
\<close>

theorem file_write_read:
  fixes s :: "'x cst_scheme"
  assumes "tx_ok s" "file_ok s i m" "istored s i" "off \<le> isize (inodes s ! i)"
    and "unat off + length bs \<le> m * BSIZE" "log_room (Suc (nblk (unat off) (length bs))) s"
  shows "\<exists>t. writei i (Src_local bs) off (of_nat (length bs)) s = Ok (int (length bs)) t \<and>
    file_bytes t i = blit (file_bytes s i) (unat off) bs \<and> file_ok t i m \<and> istored t i \<and>
    inodes t ! i = (inodes s ! i)\<lparr>isize := isize (inodes t ! i)\<rparr> \<and>
    (\<forall>p n. p \<le> isize (inodes t ! i) \<longrightarrow> unat p + unat n < 2 ^ 32 \<longrightarrow>
      (\<exists>u. readi i Dst_local p n t = Ok (int (min (unat n) (length (file_bytes t i) - unat p)),
         take (unat n) (drop (unat p) (blit (file_bytes s i) (unat off) bs))) u))"
proof -
  obtain t where t: "writei i (Src_local bs) off (of_nat (length bs)) s = Ok (int (length bs)) t" "tx_ok t" "file_ok t i m" "istored t i"
    "file_bytes t i = blit (file_bytes s i) (unat off) bs" "inodes t ! i = (inodes s ! i)\<lparr>isize := isize (inodes t ! i)\<rparr>"
    using writei_ok [OF assms] by blast
  then show ?thesis using readi_ok [OF t(2,3)] unfolding t(5) [symmetric] by blast
qed

text \<open>A file of \<open>z\<close> zero bytes in a transaction that has logged nothing yet.\<close>

definition wit_fino :: "ushort \<Rightarrow> uint \<Rightarrow> inode" where
  "wit_fino ty z = \<lparr>idev = 1, inum = 1, iref = 1, ibusy = True, ivalid = True, itype = ty, imajor = 0, iminor = 0,
     nlink = 1, isize = z, addrs = [100, 101, 102, 103, 104, 105, 106, 107, 108, 109, 110, 111, 120]\<rparr>"

definition wit_sb :: superblock where
  "wit_sb = \<lparr>sb_size = 2000, sb_nblocks = 1941, sb_ninodes = 200, sb_nlog = 30, sb_logstart = 2, sb_inodestart = 32, sb_bmapstart = 58\<rparr>"

definition wit_fdisk :: "inode \<Rightarrow> uint \<Rightarrow> uchar list" where
  "wit_fdisk ip = wit_zero(32 := dinode_put ip 64 (replicate 512 0))"

definition wit_file :: "inode \<Rightarrow> cst" where
  "wit_file ip = wit_cst (wit_ist (wit_lst (wit_bufs (\<lambda>_. wit_clean)) (wit_fdisk ip) 0 (replicate 30 0) 1) wit_sb [ip])
     (replicate 128 0) 0 0 0"

lemma wit_file_ok:
  assumes ty: "ty \<noteq> T_DEV" and z: "unat z \<le> 512"
  defines "s \<equiv> wit_file (wit_fino ty z)"
  shows "tx_ok s" "file_ok s 0 2" "istored s 0" "log_room 2 s" "file_bytes s 0 = replicate (unat z) 0"
    "inodes s = [wit_fino ty z]"
proof -
  let ?bs = "wit_bufs (\<lambda>_. wit_clean)" and ?d = "wit_fdisk (wit_fino ty z)"
  have l: "length (?d n) = BSIZE" for n by (simp add: wit_fdisk_def wit_zero_def BSIZE_def)
  note W = wit_fresh [of ?d, OF l]
  have sel: "bufs s = ?bs" "disk s = ?d" "disksize s = 2000" "lh_n s = 0" "lh_block s = replicate 30 0"
    "lsize s = 30" "outstanding s = 1" "held s = []" "sb s = wit_sb" "inodes s = [wit_fino ty z]"
    by (simp_all add: s_def wit_file_def wit_cst_def wit_ist_def wit_lst_def lst.defs ist.defs cst.defs)
  have b: "blk s n = ?d n" for n
    unfolding sel by (auto simp: blkof_def wit_clean_def wit_buf_def wit_bufs_def NBUF_def split: option.split dest!: find_idx_Some)
  show "inodes s = [wit_fino ty z]" by (rule sel)
  show "tx_ok s" using W by (simp add: tx_ok_def settled_def sel lh_ok_def NBUF_def LOGSIZE_def)
  show "log_room 2 s" by (simp add: log_room_def sel LOGSIZE_def)
  have f: "fblock s 0 j = 100 + of_nat j" if "j < 2" for j
    using that by (cases "j = 0") (auto simp: fblock_def sel wit_fino_def NDIRECT_def less_2_cases_iff)
  have ib: "iblk s 0 = 32" by (simp add: iblk_def sel IBLOCK_def wit_fino_def wit_sb_def IPB_def)
  have "mapped s 0 2"
    using f by (auto simp: mapped_def MAXFILE_def NDIRECT_def sel wit_fino_def inj_on_def less_2_cases_iff)
  then show "file_ok s 0 2"
    using f ib ty z by (auto simp: file_ok_def sel wit_fino_def BSIZE_def NDIRECT_def less_2_cases_iff)
  show "istored s 0"
    using dinode_roundtrip [of 64 "replicate 512 0" "wit_fino ty z" "wit_fino ty z"] ib b
    by (simp add: istored_def sel wit_fdisk_def dinode_off_def IPB_def) (simp add: wit_fino_def NDIRECT_def)
  have "fbyte s 0 q = 0" if "q < unat z" for q
    using that z f [of 0] b by (simp add: fbyte_def BSIZE_def wit_fdisk_def wit_zero_def)
  then show "file_bytes s 0 = replicate (unat z) 0"
    by (intro nth_equalityI) (auto simp: file_bytes_def sel wit_fino_def)
qed

definition wit_f5 :: cst where "wit_f5 = wit_file (wit_fino T_FILE 5)"

theorem file_write_read_witness:
  "\<exists>t u. writei 0 (Src_local [1, 2, 3]) 4 3 wit_f5 = Ok 3 t \<and> readi 0 Dst_local 3 10 t = Ok (4, [0, 1, 2, 3]) u"
proof -
  have W: "tx_ok wit_f5" "file_ok wit_f5 0 2" "istored wit_f5 0" "log_room 2 wit_f5" "file_bytes wit_f5 0 = [0, 0, 0, 0, 0]"
    unfolding wit_f5_def using wit_file_ok [of T_FILE 5]
    by (simp_all add: T_FILE_def T_DEV_def) (simp add: numeral_eq_Suc)
  have l: "\<exists>t. writei 0 (Src_local [1, 2, 3]) 4 (of_nat (length [1, 2, 3 :: uchar])) wit_f5 = Ok (int (length [1, 2, 3 :: uchar])) t \<and>
      file_bytes t 0 = blit (file_bytes wit_f5 0) (unat (4 :: uint)) [1, 2, 3] \<and> file_ok t 0 2 \<and> istored t 0 \<and>
      inodes t ! 0 = (inodes wit_f5 ! 0)\<lparr>isize := isize (inodes t ! 0)\<rparr> \<and>
      (\<forall>p n. p \<le> isize (inodes t ! 0) \<longrightarrow> unat p + unat n < 2 ^ 32 \<longrightarrow>
        (\<exists>u. readi 0 Dst_local p n t = Ok (int (min (unat n) (length (file_bytes t 0) - unat p)),
           take (unat n) (drop (unat p) (blit (file_bytes wit_f5 0) (unat (4 :: uint)) [1, 2, 3]))) u))"
  proof (rule file_write_read)
    have "length (file_bytes wit_f5 0) = 5" by (simp only: W(5)) simp
    then show "4 \<le> isize (inodes wit_f5 ! 0)" by (simp add: word_le_nat_alt)
    show "unat (4 :: uint) + length [1, 2, 3 :: uchar] \<le> 2 * BSIZE" by (simp add: BSIZE_def)
    have "Suc (nblk (unat (4 :: uint)) (length [1, 2, 3 :: uchar])) = 2" by (simp add: nblk_def BSIZE_def)
    then show "log_room (Suc (nblk (unat (4 :: uint)) (length [1, 2, 3 :: uchar]))) wit_f5"
      using W(4) by (simp only:)
  qed (rule W)+
  then obtain t where t: "writei 0 (Src_local [1, 2, 3]) 4 3 wit_f5 = Ok 3 t" "file_bytes t 0 = [0, 0, 0, 0, 1, 2, 3]"
    and r: "\<And>p n. p \<le> isize (inodes t ! 0) \<Longrightarrow> unat p + unat n < 2 ^ 32 \<Longrightarrow>
      \<exists>u. readi 0 Dst_local p n t = Ok (int (min (unat n) (unat (isize (inodes t ! 0)) - unat p)), take (unat n) (drop (unat p) [0, 0, 0, 0, 1, 2, 3])) u"
    by (auto simp: W(5) blit_def)
  have "length (file_bytes t 0) = 7" by (simp only: t(2)) simp
  then have "unat (isize (inodes t ! 0)) = 7" by simp
  then show ?thesis using t(1) r [of 3 10] by (auto simp: word_le_nat_alt)
qed

end
