(* ===== verification/Directory.thy ===== *)
theory Directory
  imports FileData
begin

text \<open>
  A directory as a list of named inode numbers. \<open>dirlookup\<close> and \<open>dirlink\<close> of theory \<open>Fs\<close>, which read and
  write the bytes of a file, implement looking up and inserting a name in that list.
\<close>

section \<open>Directories as lists\<close>

type_synonym dir = "(ushort \<times> uchar list) list"

definition dlookup :: "dir \<Rightarrow> uchar list \<Rightarrow> nat option" where
  "dlookup es nm = find_idx (\<lambda>(i, n). i \<noteq> 0 \<and> n = nm) es"

definition dslot :: "dir \<Rightarrow> nat" where
  "dslot es = (case find_idx (\<lambda>(i, n). i = 0) es of None \<Rightarrow> length es | Some k \<Rightarrow> k)"

definition dinsert :: "dir \<Rightarrow> ushort \<Rightarrow> uchar list \<Rightarrow> dir" where
  "dinsert es i nm = (if dslot es = length es then es @ [(i, nm)] else es[dslot es := (i, nm)])"

text \<open>The name that the first \<open>DIRSIZ\<close> bytes of a string denote.\<close>

definition dname :: "uchar list \<Rightarrow> uchar list" where
  "dname nm = cstr (take DIRSIZ nm)"

lemma find_idx_first:
  "k < length xs \<Longrightarrow> P (xs ! k) \<Longrightarrow> (\<And>j. j < k \<Longrightarrow> \<not> P (xs ! j)) \<Longrightarrow> find_idx P xs = Some k"
proof (induction xs arbitrary: k)
  case (Cons x xs)
  show ?case
  proof (cases k)
    case 0
    then show ?thesis using Cons.prems by simp
  next
    case (Suc n)
    have "\<not> P x" using Cons.prems(3) [of 0] Suc by simp
    moreover have "find_idx P xs = Some n"
    proof (rule Cons.IH)
      show "n < length xs" "P (xs ! n)" using Cons.prems(1,2) Suc by simp_all
      show "\<not> P (xs ! j)" if "j < n" for j using Cons.prems(3) [of "Suc j"] Suc that by simp
    qed
    ultimately show ?thesis using Suc by simp
  qed
qed simp

lemma find_idx_append: "find_idx P (xs @ ys) = (case find_idx P xs of Some k \<Rightarrow> Some k | None \<Rightarrow> map_option (\<lambda>k. length xs + k) (find_idx P ys))"
  by (induction xs; cases "find_idx P ys") (auto split: option.splits)

lemma find_idx_update: "k < length xs \<Longrightarrow> \<not> P (xs ! k) \<Longrightarrow> \<not> P y \<Longrightarrow> find_idx P (xs[k := y]) = find_idx P xs"
proof (induction xs arbitrary: k)
  case (Cons x xs)
  then show ?case by (cases k) auto
qed simp

lemma dslot_le: "dslot es \<le> length es" "dslot es < length es \<Longrightarrow> fst (es ! dslot es) = 0"
  using find_idx_Some [of "\<lambda>(i, n). i = 0" es] by (auto simp: dslot_def split: option.splits)

text \<open>Looking up after inserting a new name.\<close>

lemma dlookup_dinsert:
  assumes "dlookup es nm = None" "i \<noteq> 0"
  shows "dlookup (dinsert es i nm) nm' = (if nm' = nm then Some (dslot es) else dlookup es nm')"
proof (cases "dslot es = length es")
  case True
  then show ?thesis using assms by (auto simp: dinsert_def dlookup_def find_idx_append split: option.splits)
next
  case False
  then have k: "dslot es < length es" "fst (es ! dslot es) = 0" using dslot_le [of es] by simp_all
  have e: "dinsert es i nm = es[dslot es := (i, nm)]" using False by (simp add: dinsert_def)
  show ?thesis
  proof (cases "nm' = nm")
    case True
    have "\<not> (case es ! j of (i, n) \<Rightarrow> i \<noteq> 0 \<and> n = nm)" if "j < length es" for j
      using assms(1) that nth_mem [OF that] by (auto simp: dlookup_def find_idx_None)
    then have "dlookup (es[dslot es := (i, nm)]) nm = Some (dslot es)"
      unfolding dlookup_def using k assms(2) by (intro find_idx_first) auto
    then show ?thesis using e True by simp
  next
    case False
    then show ?thesis unfolding e dlookup_def using k by (auto intro!: find_idx_update split: prod.splits)
  qed
qed

section \<open>Entries\<close>

definition dent :: "'x ist_scheme \<Rightarrow> nat \<Rightarrow> nat \<Rightarrow> uchar list" where
  "dent s dp k = take 16 (drop (16 * k) (file_bytes s dp))"

definition ndents :: "'x ist_scheme \<Rightarrow> nat \<Rightarrow> nat" where
  "ndents s dp = length (file_bytes s dp) div 16"

definition entries :: "'x ist_scheme \<Rightarrow> nat \<Rightarrow> dir" where
  "entries s dp = map (\<lambda>k. (de_inum (dent s dp k), cstr (de_name (dent s dp k)))) [0..<ndents s dp]"

definition dir_ok :: "'x ist_scheme \<Rightarrow> nat \<Rightarrow> nat \<Rightarrow> bool" where
  "dir_ok s dp m \<longleftrightarrow> file_ok s dp m \<and> istored s dp \<and> itype (inodes s ! dp) = T_DIR \<and> unat (isize (inodes s ! dp)) mod 16 = 0"

lemma take_takeWhile: "take n (takeWhile P xs) = takeWhile P (take n xs)"
proof (induction xs arbitrary: n)
  case (Cons x xs)
  then show ?case by (cases n) simp_all
qed simp

lemma cstr_strncpy: "cstr (strncpy_l nm n) = cstr (take n nm)"
  by (auto simp: strncpy_l_def cstr_def Let_def take_takeWhile takeWhile_append dest: set_takeWhileD)

lemma length_strncpy [simp]: "length (strncpy_l nm n) = n"
  by (simp add: strncpy_l_def Let_def)

lemma namecmp_iff: "length nm' = DIRSIZ \<Longrightarrow> namecmp nm nm' = 0 \<longleftrightarrow> dname nm = cstr nm'"
  by (simp add: namecmp_def strncmp_l_0_iff dname_def)

lemma dir_sizes:
  assumes d: "dir_ok s dp m"
  shows "length (file_bytes s dp) = 16 * ndents s dp" "ndents s dp \<le> 4480"
    "de_offs (isize (inodes s ! dp)) = map (\<lambda>k. of_nat (16 * k)) [0..<ndents s dp]"
    "of_nat (16 * ((unat (isize (inodes s ! dp)) + 15) div 16)) = (of_nat (16 * ndents s dp) :: uint)"
    "k \<le> ndents s dp \<Longrightarrow> unat (of_nat (16 * k) :: uint) = 16 * k"
proof -
  have f: "file_ok s dp m" and z: "unat (isize (inodes s ! dp)) mod 16 = 0" using d by (auto simp: dir_ok_def)
  have "m * BSIZE \<le> 71680" using mappedD(1) [OF file_okD(1) [OF f]] by (simp add: MAXFILE_def NDIRECT_def NINDIRECT_def BSIZE_def)
  then have le: "unat (isize (inodes s ! dp)) \<le> 71680" using file_okD(4) [OF f] by linarith
  have n: "ndents s dp = unat (isize (inodes s ! dp)) div 16" by (simp add: ndents_def)
  show l: "length (file_bytes s dp) = 16 * ndents s dp" using z n by (simp add: mult_div_mod_eq [symmetric] minus_mod_eq_mult_div [symmetric])
  show m: "ndents s dp \<le> 4480" using le n by simp
  have c: "(unat (isize (inodes s ! dp)) + 15) div 16 = ndents s dp" using z n by (simp add: div_add1_eq)
  show "de_offs (isize (inodes s ! dp)) = map (\<lambda>k. of_nat (16 * k)) [0..<ndents s dp]" unfolding de_offs_def c ..
  show "of_nat (16 * ((unat (isize (inodes s ! dp)) + 15) div 16)) = (of_nat (16 * ndents s dp) :: uint)" unfolding c ..
  show "unat (of_nat (16 * k) :: uint) = 16 * k" if "k \<le> ndents s dp" by (rule unat_of_nat_uint) (use that m in linarith)
qed

lemma entries_nth: "k < ndents s dp \<Longrightarrow> entries s dp ! k = (de_inum (dent s dp k), cstr (de_name (dent s dp k)))"
  and length_entries [simp]: "length (entries s dp) = ndents s dp"
  by (simp_all add: entries_def)

text \<open>What the functions below read depends on the blocks and the inodes only.\<close>

lemma dir_cong:
  assumes "blk t = blk s" "brest s t"
  shows "file_bytes t dp = file_bytes s dp" "dir_ok t dp m = dir_ok s dp m" "inodes t = inodes s"
proof -
  have i: "inodes t = inodes s" "sb t = sb s" using brest_ist [OF assms(2)] .
  have d: "disksize t = disksize s" using brestD(2) [OF assms(2)] .
  have f: "fblock t dp = fblock s dp" "fbyte t dp = fbyte s dp" using fblock_cong [OF assms(1) i(1)] by auto
  show "inodes t = inodes s" by (rule i)
  show "file_bytes t dp = file_bytes s dp" using f i by (simp add: file_bytes_def)
  show "dir_ok t dp m = dir_ok s dp m"
    using mapped_cong [OF assms(1) i(1) d] f i d assms(1) by (simp add: dir_ok_def file_ok_def istored_def iblk_def ind_block_def)
qed

lemma read_de_ok:
  fixes s :: "'x cst_scheme"
  assumes tx: "tx_ok s" and d: "dir_ok s dp m" and k: "k < ndents s dp"
  shows "\<exists>t. read_de dp (of_nat (16 * k)) s = Ok (dent s dp k) t \<and> tx_ok t \<and> brest s t \<and> blk t = blk s"
proof -
  note D = dir_sizes [OF d] and f = d [unfolded dir_ok_def, THEN conjunct1]
  have u: "unat (of_nat (16 * k) :: uint) = 16 * k" by (rule D(5)) (use k in simp)
  have le: "16 * k + 16 \<le> length (file_bytes s dp)" using D(1) k by simp
  have "of_nat (16 * k) \<le> isize (inodes s ! dp)" using le u by (simp add: word_le_nat_alt)
  moreover have "unat (of_nat (16 * k) :: uint) + unat (16 :: uint) < 2 ^ 32" using u D(2) k by simp
  ultimately obtain t where "readi dp Dst_local (of_nat (16 * k)) 16 s =
      Ok (int (min (unat (16 :: uint)) (length (file_bytes s dp) - unat (of_nat (16 * k) :: uint))),
          take (unat (16 :: uint)) (drop (unat (of_nat (16 * k) :: uint)) (file_bytes s dp))) t"
    and t: "tx_ok t \<and> brest s t \<and> blk t = blk s" using readi_ok [OF tx f] by blast
  moreover have "min (unat (16 :: uint)) (length (file_bytes s dp) - unat (of_nat (16 * k) :: uint)) = 16" unfolding u using le by simp
  ultimately have "readi dp Dst_local (of_nat (16 * k)) 16 s = Ok (16, dent s dp k) t" unfolding u dent_def by simp
  then have "read_de dp (of_nat (16 * k)) s = Ok (dent s dp k) t" by (simp add: read_de_def)
  then show ?thesis using t by blast
qed

lemma dent_name: "dir_ok s dp m \<Longrightarrow> k < ndents s dp \<Longrightarrow> length (de_name (dent s dp k)) = DIRSIZ"
  using dir_sizes(1) [of s dp m] by (simp add: de_name_def dent_def DIRSIZ_def)

text \<open>The scan of \<open>dirlookup\<close> from entry \<open>k\<close> on.\<close>

lemma dirlookup_loop_ok:
  fixes s :: "'x cst_scheme"
  assumes "tx_ok s" "dir_ok s dp m" "k \<le> ndents s dp"
  shows "\<exists>t. tx_ok t \<and> brest s t \<and> blk t = blk s \<and> dirlookup_loop dp nm (map (\<lambda>k. of_nat (16 * k)) [k..<ndents s dp]) s =
    (case dlookup (drop k (entries s dp)) (dname nm) of None \<Rightarrow> Ok None t
     | Some j \<Rightarrow> kbind (iget 1 (ucast (fst (entries s dp ! (k + j))))) (\<lambda>i. kret (Some (i, of_nat (16 * (k + j))))) t)"
  using assms
proof (induction "ndents s dp - k" arbitrary: s k)
  case 0
  then show ?case using bio.rest_refl by (intro exI [of _ s]) (simp add: dlookup_def)
next
  case (Suc n)
  then have k: "k < ndents s dp" by simp
  obtain a where a: "read_de dp (of_nat (16 * k)) s = Ok (dent s dp k) a" "tx_ok a" "brest s a" "blk a = blk s"
    using read_de_ok [OF Suc.prems(1,2) k] by blast
  note C = dir_cong [OF a(4,3)]
  have na: "ndents a dp = ndents s dp" "dent a dp = dent s dp" "entries a dp = entries s dp"
    using C(1) [of dp] by (auto simp: ndents_def dent_def entries_def fun_eq_iff)
  have u: "[k..<ndents s dp] = k # [Suc k..<ndents s dp]" using k by (simp add: upt_conv_Cons)
  have dk: "drop k (entries s dp) = entries s dp ! k # drop (Suc k) (entries s dp)" using k by (simp add: Cons_nth_drop_Suc)
  have one: "idev (inodes a ! dp) = 1" unfolding C(3) by (rule mappedD(2) [OF file_okD(1) [OF Suc.prems(2) [unfolded dir_ok_def, THEN conjunct1]]])
  let ?hit = "de_inum (dent s dp k) \<noteq> 0 \<and> namecmp nm (de_name (dent s dp k)) = 0"
  have hit: "?hit \<longleftrightarrow> fst (entries s dp ! k) \<noteq> 0 \<and> snd (entries s dp ! k) = dname nm"
    unfolding namecmp_iff [OF dent_name [OF Suc.prems(2) k]] entries_nth [OF k] fst_conv snd_conv by (intro conj_cong refl eq_commute)
  show ?case
  proof (cases ?hit)
    case True
    then have "dlookup (drop k (entries s dp)) (dname nm) = Some 0" unfolding dk dlookup_def using hit by (simp add: case_prod_beta)
    moreover have "dirlookup_loop dp nm (map (\<lambda>k. of_nat (16 * k)) [k..<ndents s dp]) s =
        kbind (iget 1 (ucast (de_inum (dent s dp k)))) (\<lambda>i. kret (Some (i, of_nat (16 * k)))) a"
      unfolding u using True a(1) one by simp
    ultimately show ?thesis using a(2-4) entries_nth [OF k] by (intro exI [of _ a]) simp
  next
    case False
    have s1: "dirlookup_loop dp nm (map (\<lambda>k. of_nat (16 * k)) [k..<ndents s dp]) s =
        dirlookup_loop dp nm (map (\<lambda>k. of_nat (16 * k)) [Suc k..<ndents a dp]) a"
      unfolding u na using False a(1) by auto
    have l: "dlookup (drop k (entries s dp)) (dname nm) = map_option Suc (dlookup (drop (Suc k) (entries s dp)) (dname nm))"
      unfolding dk dlookup_def using hit False by (auto simp: case_prod_beta)
    have "n = ndents a dp - Suc k" "dir_ok a dp m" "Suc k \<le> ndents a dp" using Suc.hyps(2) na C(2) Suc.prems(2) k by auto
    from Suc.hyps(1) [OF this(1) a(2) this(2,3)] obtain t where t: "tx_ok t" "brest a t" "blk t = blk a"
      "dirlookup_loop dp nm (map (\<lambda>k. of_nat (16 * k)) [Suc k..<ndents a dp]) a =
       (case dlookup (drop (Suc k) (entries a dp)) (dname nm) of None \<Rightarrow> Ok None t
        | Some j \<Rightarrow> kbind (iget 1 (ucast (fst (entries a dp ! (Suc k + j))))) (\<lambda>i. kret (Some (i, of_nat (16 * (Suc k + j))))) t)" by blast
    note e = s1 [unfolded t(4), unfolded na]
    show ?thesis
    proof (intro exI [of _ t] conjI)
      show "tx_ok t" "brest s t" "blk t = blk s" using t(1,3) brest_trans [OF a(3) t(2)] a(4) by auto
      show "dirlookup_loop dp nm (map (\<lambda>k. of_nat (16 * k)) [k..<ndents s dp]) s =
          (case dlookup (drop k (entries s dp)) (dname nm) of None \<Rightarrow> Ok None t
           | Some j \<Rightarrow> kbind (iget 1 (ucast (fst (entries s dp ! (k + j))))) (\<lambda>i. kret (Some (i, of_nat (16 * (k + j))))) t)"
        unfolding e l by (cases "dlookup (drop (Suc k) (entries s dp)) (dname nm)") (simp_all only: option.simps add_Suc add_Suc_right)
    qed
  qed
qed

lemma dirlookup_ok:
  fixes s :: "'x cst_scheme"
  assumes "tx_ok s" "dir_ok s dp m"
  shows "\<exists>t. tx_ok t \<and> brest s t \<and> blk t = blk s \<and> dirlookup dp nm s =
    (case dlookup (entries s dp) (dname nm) of None \<Rightarrow> Ok None t
     | Some j \<Rightarrow> kbind (iget 1 (ucast (fst (entries s dp ! j)))) (\<lambda>i. kret (Some (i, of_nat (16 * j)))) t)"
proof -
  have ty: "itype (inodes s ! dp) = T_DIR" using assms(2) by (simp add: dir_ok_def)
  have d: "dirlookup dp nm s = dirlookup_loop dp nm (map (\<lambda>k. of_nat (16 * k)) [0..<ndents s dp]) s"
    unfolding dirlookup_def dir_sizes(3) [OF assms(2), symmetric] using ty by simp
  show ?thesis unfolding d by (rule dirlookup_loop_ok [OF assms le0, of nm, unfolded drop_0 add_0])
qed

section \<open>Inserting\<close>

lemma dirlink_loop_ok:
  fixes s :: "'x cst_scheme"
  assumes "tx_ok s" "dir_ok s dp m" "k \<le> ndents s dp"
  shows "\<exists>t. tx_ok t \<and> brest s t \<and> blk t = blk s \<and>
    dirlink_loop dp (map (\<lambda>k. of_nat (16 * k)) [k..<ndents s dp]) (of_nat (16 * ndents s dp)) s =
      Ok (of_nat (16 * (k + dslot (drop k (entries s dp))))) t"
  using assms
proof (induction "ndents s dp - k" arbitrary: s k)
  case 0
  then show ?case using bio.rest_refl by (intro exI [of _ s]) (simp add: dslot_def)
next
  case (Suc n)
  then have k: "k < ndents s dp" by simp
  obtain a where a: "read_de dp (of_nat (16 * k)) s = Ok (dent s dp k) a" "tx_ok a" "brest s a" "blk a = blk s"
    using read_de_ok [OF Suc.prems(1,2) k] by blast
  note C = dir_cong [OF a(4,3)]
  have na: "ndents a dp = ndents s dp" "entries a dp = entries s dp"
    using C(1) [of dp] by (auto simp: ndents_def dent_def entries_def)
  have u: "[k..<ndents s dp] = k # [Suc k..<ndents s dp]" using k by (simp add: upt_conv_Cons)
  have dk: "drop k (entries s dp) = entries s dp ! k # drop (Suc k) (entries s dp)" using k by (simp add: Cons_nth_drop_Suc)
  have f: "fst (entries s dp ! k) = de_inum (dent s dp k)" using entries_nth [OF k] by simp
  show ?case
  proof (cases "de_inum (dent s dp k) = 0")
    case True
    have "dslot (drop k (entries s dp)) = 0" unfolding dk dslot_def using True f by (simp add: case_prod_beta)
    moreover have "dirlink_loop dp (map (\<lambda>k. of_nat (16 * k)) [k..<ndents s dp]) (of_nat (16 * ndents s dp)) s = Ok (of_nat (16 * k)) a"
      unfolding u using True a(1) by simp
    ultimately show ?thesis using a(2-4) by (intro exI [of _ a]) simp
  next
    case False
    have s1: "dirlink_loop dp (map (\<lambda>k. of_nat (16 * k)) [k..<ndents s dp]) (of_nat (16 * ndents s dp)) s =
        dirlink_loop dp (map (\<lambda>k. of_nat (16 * k)) [Suc k..<ndents a dp]) (of_nat (16 * ndents a dp)) a"
      unfolding u na using False a(1) by simp
    have l: "dslot (drop k (entries s dp)) = Suc (dslot (drop (Suc k) (entries s dp)))"
      unfolding dk dslot_def using f False by (auto simp: case_prod_beta split: option.splits)
    have "n = ndents a dp - Suc k" "dir_ok a dp m" "Suc k \<le> ndents a dp" using Suc.hyps(2) na C(2) Suc.prems(2) k by auto
    from Suc.hyps(1) [OF this(1) a(2) this(2,3)] obtain t where t: "tx_ok t" "brest a t" "blk t = blk a"
      "dirlink_loop dp (map (\<lambda>k. of_nat (16 * k)) [Suc k..<ndents a dp]) (of_nat (16 * ndents a dp)) a =
       Ok (of_nat (16 * (Suc k + dslot (drop (Suc k) (entries a dp))))) t" by blast
    note e = s1 [unfolded t(4), unfolded na]
    show ?thesis
      by (rule exI [of _ t]) (use t(1,3) brest_trans [OF a(3) t(2)] a(4) in \<open>simp only: e l add_Suc add_Suc_right simp_thms\<close>)
  qed
qed

lemma nblk_16: "nblk (16 * k) 16 = 1"
proof -
  have "16 * k mod 512 = 16 * (k mod 32)" using mult_mod_right [of 16 k 32] by simp
  then have "16 * k mod BSIZE + 15 < BSIZE" by (simp add: BSIZE_def)
  from div_mod_within(1) [OF this] show ?thesis by (simp add: nblk_def add.commute)
qed

text \<open>The entries after sixteen bytes at an entry, or at the end, have been written.\<close>

lemma entries_blit:
  assumes n: "length (file_bytes s dp) = 16 * ndents s dp" and k: "k \<le> ndents s dp" and de: "length de = 16"
    and t: "file_bytes t dp = blit (file_bytes s dp) (16 * k) de"
  shows "entries t dp = (if k = ndents s dp then entries s dp @ [(de_inum de, cstr (de_name de))]
    else (entries s dp)[k := (de_inum de, cstr (de_name de))])"
    and "length (file_bytes t dp) = 16 * ndents t dp"
proof -
  have l: "length (file_bytes t dp) = (if k = ndents s dp then 16 * Suc (ndents s dp) else 16 * ndents s dp)"
    unfolding t blit_def using n k de by simp
  then have nt: "ndents t dp = (if k = ndents s dp then Suc (ndents s dp) else ndents s dp)" by (simp add: ndents_def)
  then show "length (file_bytes t dp) = 16 * ndents t dp" using l by simp
  have d: "dent t dp j = (if j = k then de else dent s dp j)" if "j < ndents t dp" for j
  proof (rule nth_equalityI)
    have j: "j = k \<or> j < ndents s dp" using that nt k by (auto split: if_splits)
    show "length (dent t dp j) = length (if j = k then de else dent s dp j)"
      using j that l nt n de by (auto simp: dent_def split: if_splits)
    fix q assume "q < length (dent t dp j)"
    then have q: "q < 16" "16 * j + q < length (file_bytes t dp)" by (auto simp: dent_def)
    have "dent t dp j ! q = blit (file_bytes s dp) (16 * k) de ! (16 * j + q)" using q by (simp add: dent_def t)
    also have "\<dots> = (if j = k then de ! q else file_bytes s dp ! (16 * j + q))"
    proof (cases "j < k")
      case True
      then have "16 * j + q < 16 * k" using q(1) by linarith
      then show ?thesis using True n k by (simp add: blit_def nth_append)
    next
      case False
      then show ?thesis
      proof (cases "j = k")
        case True
        then show ?thesis using n k de q(1) by (simp add: blit_def nth_append)
      next
        case False
        with \<open>\<not> j < k\<close> have p: "16 * k + 16 \<le> 16 * j + q" by linarith
        have "16 * k + 16 \<le> length (file_bytes s dp)" using False j \<open>\<not> j < k\<close> n by linarith
        moreover have "\<not> 16 * j + q - 16 * k < 16" "16 * j + q - 16 * k - 16 = 16 * j + q - (16 * k + 16)" using p by linarith+
        ultimately show ?thesis using False n k de p by (simp add: blit_def nth_append)
      qed
    qed
    also have "\<dots> = (if j = k then de else dent s dp j) ! q" using q(1) j n by (auto simp: dent_def)
    finally show "dent t dp j ! q = (if j = k then de else dent s dp j) ! q" .
  qed
  show "entries t dp = (if k = ndents s dp then entries s dp @ [(de_inum de, cstr (de_name de))]
    else (entries s dp)[k := (de_inum de, cstr (de_name de))])"
    by (rule nth_equalityI) (use k nt d in \<open>auto simp: entries_def nth_append nth_list_update less_Suc_eq\<close>)
qed

lemma entries_write:
  assumes d: "dir_ok s dp m" and de: "length de = 16"
    and t: "file_bytes t dp = blit (file_bytes s dp) (16 * dslot (entries s dp)) de"
  shows "entries t dp = dinsert (entries s dp) (de_inum de) (cstr (de_name de))"
    and "length (file_bytes t dp) = 16 * ndents t dp"
  using entries_blit [OF dir_sizes(1) [OF d] _ de t] dslot_le(1) [of "entries s dp"] by (simp_all add: dinsert_def)

lemma new_entry:
  fixes ino :: uint and nm :: "uchar list"
  defines "de \<equiv> [byte_of16 0 (ucast ino), byte_of16 1 (ucast ino)] @ strncpy_l nm DIRSIZ"
  shows "length de = 16" "de_inum de = ucast ino" "cstr (de_name de) = dname nm"
  by (simp_all add: de_def DIRSIZ_def de_inum_def rd16_def de_name_def cstr_strncpy dname_def)

lemma dirlink_ok:
  fixes s :: "'x cst_scheme"
  assumes tx: "tx_ok s" and d: "dir_ok s dp m" and l: "dlookup (entries s dp) (dname nm) = None"
    and room: "log_room 2 s" "16 * dslot (entries s dp) + 16 \<le> m * BSIZE"
  shows "\<exists>t. dirlink dp nm ino s = Ok 0 t \<and> tx_ok t \<and> dir_ok t dp m \<and> entries t dp = dinsert (entries s dp) (ucast ino) (dname nm)"
proof -
  let ?k = "dslot (entries s dp)"
  define de where "de = [byte_of16 0 (ucast ino), byte_of16 1 (ucast ino)] @ strncpy_l nm DIRSIZ"
  note E = new_entry [of ino nm, folded de_def]
  obtain a where a: "tx_ok a" "brest s a" "blk a = blk s" "dirlookup dp nm s = Ok None a" using dirlookup_ok [OF tx d, of nm] l by auto
  note A = dir_cong [OF a(3,2)]
  have na: "ndents a dp = ndents s dp" "entries a dp = entries s dp" using A(1) [of dp] by (auto simp: ndents_def dent_def entries_def)
  have da: "dir_ok a dp m" using d A(2) by simp
  obtain b where b: "tx_ok b" "brest a b" "blk b = blk a"
    "dirlink_loop dp (map (\<lambda>k. of_nat (16 * k)) [0..<ndents a dp]) (of_nat (16 * ndents a dp)) a = Ok (of_nat (16 * ?k)) b"
    using dirlink_loop_ok [OF a(1) da le0] unfolding drop_0 add_0 na by blast
  note B = dir_cong [OF b(3,2)]
  have db: "dir_ok b dp m" using da B(2) by simp
  have fb: "file_bytes b dp = file_bytes s dp" "entries b dp = entries s dp" "ndents b dp = ndents s dp"
    using A(1) [of dp] B(1) [of dp] by (auto simp: ndents_def dent_def entries_def)
  have sb: "brest s b" by (rule brest_trans [OF a(2) b(2)])
  have k: "?k \<le> ndents s dp" using dslot_le(1) [of "entries s dp"] by simp
  have u: "unat (of_nat (16 * ?k) :: uint) = 16 * ?k" by (rule dir_sizes(5) [OF d k])
  have "of_nat (16 * ?k) \<le> isize (inodes b ! dp)"
    using u k dir_sizes(1) [OF d] A(3) B(3) by (simp add: word_le_nat_alt)
  moreover have "log_room (Suc (nblk (unat (of_nat (16 * ?k) :: uint)) (length de))) b"
    unfolding u E(1) nblk_16 using room(1) brest_lst(6,3,2) [OF sb] by (simp add: log_room_def)
  moreover have "unat (of_nat (16 * ?k) :: uint) + length de \<le> m * BSIZE" unfolding u E(1) by (rule room(2))
  ultimately obtain t where t: "writei dp (Src_local de) (of_nat (16 * ?k)) (of_nat (length de)) b = Ok (int (length de)) t"
    "tx_ok t" "file_ok t dp m" "istored t dp" "file_bytes t dp = blit (file_bytes b dp) (unat (of_nat (16 * ?k) :: uint)) de"
    "inodes t ! dp = (inodes b ! dp)\<lparr>isize := isize (inodes t ! dp)\<rparr>"
    using writei_ok [of b dp m "of_nat (16 * ?k)" de] b(1) db unfolding dir_ok_def by blast
  have ft: "file_bytes t dp = blit (file_bytes b dp) (16 * dslot (entries b dp)) de" using t(5) unfolding u fb by simp
  note W = entries_write [OF db E(1) ft]
  have "unat (isize (inodes t ! dp)) mod 16 = 0" using W(2) by simp
  moreover have "itype (inodes t ! dp) = T_DIR" using t(6) db by (metis dir_ok_def inode.select_convs(6) inode.surjective inode.update_convs(10))
  ultimately have "dir_ok t dp m" using t(3,4) by (simp add: dir_ok_def)
  moreover have "entries t dp = dinsert (entries s dp) (ucast ino) (dname nm)" using W(1) E fb by simp
  moreover have "dirlink dp nm ino s = Ok 0 t"
  proof -
    have "dirlink_loop dp (de_offs (isize (inodes a ! dp))) (of_nat (16 * ((unat (isize (inodes a ! dp)) + 15) div 16))) a = Ok (of_nat (16 * ?k)) b"
      unfolding dir_sizes(3,4) [OF da] by (rule b(4))
    moreover have "writei dp (Src_local de) (of_nat (16 * ?k)) 16 b = Ok 16 t" using t(1) E(1) by simp
    ultimately show ?thesis using a(4) unfolding dirlink_def de_def [symmetric] Let_def by simp
  qed
  ultimately show ?thesis using t(2) by blast
qed

section \<open>Properties\<close>

text \<open>What \<open>dirlookup\<close> does with a hit at entry \<open>j\<close>.\<close>

definition found :: "ushort \<Rightarrow> nat \<Rightarrow> ('x cst_scheme, (nat \<times> uint) option) kop" where
  "found i j = kbind (iget 1 (ucast i)) (\<lambda>ip. kret (Some (ip, of_nat (16 * j))))"

lemma dinsert_nth:
  assumes "dlookup es nm = Some j"
  shows "dinsert es i n ! j = es ! j" "dinsert es i n ! dslot es = (i, n)"
proof -
  have j: "j < length es" "fst (es ! j) \<noteq> 0" using find_idx_Some [OF assms [unfolded dlookup_def]] by (auto split: prod.splits)
  then have "j \<noteq> dslot es" using dslot_le(2) [of es] by auto
  then show "dinsert es i n ! j = es ! j" using j by (simp add: dinsert_def nth_append)
  show "dinsert es i n ! dslot es = (i, n)" using dslot_le(1) [of es] by (auto simp: dinsert_def)
qed

text \<open>
  C6. A directory is a list of names. Within a transaction with room for two blocks in the log, let \<open>dp\<close>
  be a directory with a free entry or room for one in its blocks. \<open>dirlink\<close> of a name that is not in it
  returns 0 and puts the name, cut to \<open>DIRSIZ\<close> bytes, with the inode number in the first free entry, or
  behind the last. After that \<open>dirlookup\<close> finds the new entry under that name, and under every other
  name exactly what it found before.
\<close>

theorem dirlink_dirlookup:
  fixes s :: "'x cst_scheme"
  assumes "tx_ok s" "dir_ok s dp m" "dlookup (entries s dp) (dname nm) = None" "log_room 2 s"
    and "16 * dslot (entries s dp) + 16 \<le> m * BSIZE" "(ucast ino :: ushort) \<noteq> 0"
  shows "\<exists>t. dirlink dp nm ino s = Ok 0 t \<and> dir_ok t dp m \<and> entries t dp = dinsert (entries s dp) (ucast ino) (dname nm) \<and>
    (\<forall>nm'. \<exists>u. blk u = blk t \<and> dirlookup dp nm' t =
      (if dname nm' = dname nm then found (ucast ino) (dslot (entries s dp)) u
       else case dlookup (entries s dp) (dname nm') of None \<Rightarrow> Ok None u | Some j \<Rightarrow> found (fst (entries s dp ! j)) j u))"
proof -
  let ?es = "entries s dp"
  obtain t where t: "dirlink dp nm ino s = Ok 0 t" "tx_ok t" "dir_ok t dp m" "entries t dp = dinsert ?es (ucast ino) (dname nm)"
    using dirlink_ok [OF assms(1-5)] by blast
  have L: "dlookup (entries t dp) n = (if n = dname nm then Some (dslot ?es) else dlookup ?es n)" for n
    unfolding t(4) by (rule dlookup_dinsert [OF assms(3,6)])
  have S: "fst (entries t dp ! dslot ?es) = ucast ino" unfolding t(4) using dslot_le(1) [of ?es] by (auto simp: dinsert_def nth_append)
  have "\<exists>u. blk u = blk t \<and> dirlookup dp nm' t = (if dname nm' = dname nm then found (ucast ino) (dslot ?es) u
       else case dlookup ?es (dname nm') of None \<Rightarrow> Ok None u | Some j \<Rightarrow> found (fst (?es ! j)) j u)" for nm'
  proof -
    obtain u where u: "blk u = blk t" "dirlookup dp nm' t = (case dlookup (entries t dp) (dname nm') of None \<Rightarrow> Ok None u
        | Some j \<Rightarrow> found (fst (entries t dp ! j)) j u)" using dirlookup_ok [OF t(2,3), of nm'] unfolding found_def by blast
    show ?thesis
    proof (cases "dname nm' = dname nm")
      case True
      then show ?thesis using u L S by (intro exI [of _ u]) simp
    next
      case False
      then show ?thesis using u L dinsert_nth(1) [of ?es "dname nm'"] t(4) by (intro exI [of _ u]) (simp split: option.split)
    qed
  qed
  then show ?thesis using t by blast
qed

text \<open>The first name in an empty directory.\<close>

definition wit_dir :: cst where "wit_dir = wit_file (wit_fino T_DIR 0)"

theorem dirlink_dirlookup_witness:
  "\<exists>t u. dirlink 0 [97, 98] 7 wit_dir = Ok 0 t \<and> entries t 0 = [(7, [97, 98])] \<and> dirlookup 0 [97, 98, 0, 99] t = found 7 0 u \<and>
    (\<exists>v. dirlookup 0 [98] t = Ok None v)"
proof -
  have W: "tx_ok wit_dir" "file_ok wit_dir 0 2" "istored wit_dir 0" "log_room 2 wit_dir" "file_bytes wit_dir 0 = []" "inodes wit_dir = [wit_fino T_DIR 0]"
    unfolding wit_dir_def using wit_file_ok [of T_DIR 0] by (simp_all add: T_DIR_def T_DEV_def)
  have e: "entries wit_dir 0 = []" by (simp only: entries_def ndents_def W(5)) simp
  have d: "dir_ok wit_dir 0 2" using W(2,3,6) by (simp add: dir_ok_def wit_fino_def)
  have n: "dname [97, 98] = [97, 98]" "dname [97, 98, 0, 99] = [97, 98]" "dname [98] = [98]" by (simp_all add: dname_def DIRSIZ_def cstr_def)
  have x: "dlookup (entries wit_dir 0) (dname [97, 98]) = None" "dslot (entries wit_dir 0) = 0" "(ucast (7 :: uint) :: ushort) = 7" "(7 :: ushort) \<noteq> 0"
    unfolding e by (simp_all add: dlookup_def dslot_def)
  obtain t where t: "dirlink 0 [97, 98] 7 wit_dir = Ok 0 t" "entries t 0 = dinsert (entries wit_dir 0) (ucast (7 :: uint)) (dname [97, 98])"
    and l: "\<And>nm'. \<exists>u. blk u = blk t \<and> dirlookup 0 nm' t =
      (if dname nm' = dname [97, 98] then found (ucast (7 :: uint)) (dslot (entries wit_dir 0)) u
       else case dlookup (entries wit_dir 0) (dname nm') of None \<Rightarrow> Ok None u | Some j \<Rightarrow> found (fst (entries wit_dir 0 ! j)) j u)"
    using dirlink_dirlookup [OF W(1) d x(1) W(4), of 7] x by (auto simp: BSIZE_def)
  have "dlookup (entries wit_dir 0) [98] = None" unfolding e by (simp add: dlookup_def)
  then have "\<exists>v. dirlookup 0 [98] t = Ok None v" using l [of "[98]"] n by auto
  moreover have "\<exists>u. dirlookup 0 [97, 98, 0, 99] t = found 7 0 u" using l [of "[97, 98, 0, 99]"] n x by auto
  moreover have "entries t 0 = [(7, [97, 98])]" using t(2) e x n by (simp add: dinsert_def dslot_def)
  ultimately show ?thesis using t(1) by blast
qed

end
