(* ===== verification/IdeQueue.thy ===== *)
theory IdeQueue
  imports Ide
begin

text \<open>
  The disk driver \<open>ide.c\<close> against the memory disk \<open>memide.c\<close>. Requests wait in a linked queue while the
  controller works on the first one, their processes sleep, and an interrupt completes one request and
  starts the next. Whatever the interleaving, the buffers and the disk end up as if each request had been
  done at once, in the order in which they were made, by the driver of the memory disk.
\<close>

section \<open>The queue\<close>

primrec qchain :: "(nat \<Rightarrow> nat option) \<Rightarrow> nat option \<Rightarrow> nat list \<Rightarrow> bool" where
  "qchain nx q [] \<longleftrightarrow> q = None"
| "qchain nx q (x # xs) \<longleftrightarrow> q = Some x \<and> qchain nx (nx x) xs"

lemma qchain_fun_upd: "a \<notin> set xs \<Longrightarrow> qchain (nx(a := v)) q xs = qchain nx q xs"
  by (induction xs arbitrary: q) auto

lemma qchain_last: "qchain nx q xs \<Longrightarrow> xs \<noteq> [] \<Longrightarrow> nx (last xs) = None"
  by (induction xs arbitrary: q) auto

lemma qchain_snoc:
  assumes "qchain nx q xs" "xs \<noteq> []" "distinct xs" "b \<notin> set xs" "nx b = None"
  shows "qchain (nx(last xs := Some b)) q (xs @ [b])"
  using assms
proof (induction xs arbitrary: q)
  case (Cons x xs)
  then show ?case by (cases "xs = []") (auto simp: qchain_fun_upd)
qed simp

lemma ide_append_end:
  "qnext s a = None \<Longrightarrow> ide_append (Suc n) b (Some a) s = Ok () (s\<lparr>qnext := (qnext s)(a := Some b)\<rparr>)"
  by simp

lemma ide_append_next: "qnext s a = Some x \<Longrightarrow> ide_append (Suc n) b (Some a) s = ide_append n b (Some x) s"
  by simp

lemma ide_append_from:
  "qchain (qnext s) (qnext s a) xs \<Longrightarrow>
   ide_append (length xs + Suc k) b (Some a) s = Ok () (s\<lparr>qnext := (qnext s)(last (a # xs) := Some b)\<rparr>)"
proof (induction xs arbitrary: a)
  case Nil
  then show ?case using ide_append_end [of s a k b] by (simp del: ide_append.simps add: fun_upd_def)
next
  case (Cons x xs)
  then have x: "qnext s a = Some x" "qchain (qnext s) (qnext s x) xs" by simp_all
  have "ide_append (length (x # xs) + Suc k) b (Some a) s = ide_append (length xs + Suc k) b (Some x) s"
    using ide_append_next [OF x(1), of "length xs + Suc k" b] by (simp del: ide_append.simps)
  then show ?case using Cons.IH [OF x(2)] by (simp del: ide_append.simps)
qed

lemma ide_append_ok:
  assumes c: "qchain (qnext s) (idequeue s) xs" "distinct xs" "b \<notin> set xs" "qnext s b = None" "length xs \<le> NBUF"
  shows "\<exists>q nx. ide_append (Suc NBUF) b None s = Ok () (s\<lparr>idequeue := q, qnext := nx\<rparr>) \<and> qchain nx q (xs @ [b])"
proof (cases xs)
  case Nil
  then have "ide_append (Suc NBUF) b None s = Ok () (s\<lparr>idequeue := Some b, qnext := qnext s\<rparr>)" using c by simp
  then show ?thesis using Nil c(4) by fastforce
next
  case (Cons x ys)
  have "ide_append (Suc NBUF) b None s = Ok () (s\<lparr>idequeue := idequeue s, qnext := (qnext s)(last xs := Some b)\<rparr>)"
  proof -
    have x: "idequeue s = Some x" "qchain (qnext s) (qnext s x) ys" "length ys + Suc (NBUF - Suc (length ys)) = NBUF"
      using c(1,5) Cons by simp_all
    have "ide_append (Suc NBUF) b None s = ide_append NBUF b (Some x) s" using x(1) by simp
    then show ?thesis using ide_append_from [OF x(2), of "NBUF - Suc (length ys)" b] Cons unfolding x(3) by simp
  qed
  then show ?thesis using qchain_snoc [OF c(1) _ c(2,3,4)] Cons by fastforce
qed

section \<open>The controller\<close>

text \<open>What the driver relies on: the drive becomes ready within the polls allowed, and then shows no error.\<close>

definition drdy :: "uchar \<Rightarrow> bool" where
  "drdy r \<longleftrightarrow> r AND (IDE_BSY OR IDE_DRDY) = IDE_DRDY"

definition responsive :: "(nat \<Rightarrow> uchar) \<Rightarrow> nat \<Rightarrow> bool" where
  "responsive st n \<longleftrightarrow> (\<forall>p. \<exists>k<n. drdy (st (p + k))) \<and> (\<forall>p. drdy (st p) \<longrightarrow> st p AND (IDE_DF OR IDE_ERR) = 0)"

lemma idewait_loop_ok:
  "\<exists>k<n. drdy (hstat s (hpos s + k)) \<Longrightarrow>
   \<exists>j. idewait_loop n s = Ok (hstat s j) (s\<lparr>hpos := Suc j\<rparr>) \<and> drdy (hstat s j)"
proof (induction n arbitrary: s)
  case (Suc n)
  show ?case
  proof (cases "drdy (hstat s (hpos s))")
    case True
    then show ?thesis by (intro exI [of _ "hpos s"]) (simp add: inb_status_def drdy_def)
  next
    case False
    then obtain k where k: "0 < k" "k < Suc n" "drdy (hstat s (hpos s + k))" using Suc.prems by (metis add_0_right gr0I)
    then have "\<exists>k<n. drdy (hstat (s\<lparr>hpos := Suc (hpos s)\<rparr>) (hpos (s\<lparr>hpos := Suc (hpos s)\<rparr>) + k))"
      by (intro exI [of _ "k - 1"]) auto
    from Suc.IH [OF this] False show ?thesis by (auto simp: inb_status_def drdy_def)
  qed
qed simp

lemma idewait_ok: "responsive (hstat s) (hpoll s) \<Longrightarrow> \<exists>j. idewait c s = Ok 0 (s\<lparr>hpos := j\<rparr>)"
  using idewait_loop_ok [of "hpoll s" s] unfolding responsive_def idewait_def by fastforce

text \<open>The sector number survives its way through the four registers, and so does the drive bit.\<close>

lemma bit_small: "(w::uint) < 2000 \<Longrightarrow> bit w n \<Longrightarrow> n < 11"
proof -
  assume a: "w < 2000" "bit w n"
  have "uint w < 2 ^ 11" using a(1) by (simp add: word_less_def)
  then have "take_bit 11 (uint w) = uint w" by (intro take_bit_int_eq_self) simp_all
  moreover have "bit (uint w) n" using a(2) bit_imp_le_length [OF a(2)] by (simp add: bit_uint_iff)
  ultimately show ?thesis using bit_take_bit_iff [of 11 "uint w" n] by simp
qed

lemma drop_small: "(w::uint) < 2000 \<Longrightarrow> 11 \<le> k \<Longrightarrow> drop_bit k w = 0"
  by (rule bit_word_eqI) (auto simp: bit_drop_bit_eq dest: bit_small)

lemma reg_bits:
  assumes "(w::uint) < 2000"
  shows "ucast (ucast (w AND 0xFF) :: uchar) OR push_bit 8 (ucast (ucast (drop_bit 8 w AND 0xFF) :: uchar)) OR
    push_bit 16 (ucast (ucast (drop_bit 16 w AND 0xFF) :: uchar)) OR push_bit 24 (ucast (ucast (0xE0 OR push_bit 4 (d AND 1) OR (drop_bit 24 w AND 0x0F) :: uint) :: uchar) AND 0xF) = (w :: uint)"
proof -
  have d: "d AND 1 = 0 \<or> d AND 1 = 1" for d :: uint by (simp add: and_one_eq mod2_eq_if)
  have F: "(0xFF :: uint) = mask 8" by (simp add: mask_eq_exp_minus_1)
  have "ucast (ucast (w AND 0xFF) :: uchar) OR push_bit 8 (ucast (ucast (drop_bit 8 w AND 0xFF) :: uchar)) = w"
  proof (rule bit_word_eqI)
    fix n
    show "bit (ucast (ucast (w AND 0xFF) :: uchar) OR push_bit 8 (ucast (ucast (drop_bit 8 w AND 0xFF) :: uchar)) :: uint) n = bit w n"
      using bit_small [OF assms, of n] unfolding F by (auto simp: bit_simps)
  qed
  moreover have "(ucast (ucast (0xE0 OR push_bit 4 (d AND 1) OR (0 AND 0x0F) :: uint) :: uchar) AND 0xF :: uint) = 0"
    using d [of d] by (elim disjE) simp_all
  ultimately show ?thesis using drop_small [OF assms, of 16] drop_small [OF assms, of 24] by simp
qed

lemma dev_bit:
  assumes "(w::uint) < 2000"
  shows "(ucast (0xE0 OR push_bit 4 (1 AND 1) OR (drop_bit 24 w AND 0x0F) :: uint) :: uchar) AND 0x10 \<noteq> 0"
  using drop_small [OF assms, of 24] by simp

definition set_regs :: "buf \<Rightarrow> nat \<Rightarrow> 'x hdst_scheme \<Rightarrow> 'x hdst_scheme" where
  "set_regs x j s = s\<lparr>hpos := j, rcount := 1, rlba0 := ucast (blockno x AND 0xFF), rlba1 := ucast (drop_bit 8 (blockno x) AND 0xFF),
     rlba2 := ucast (drop_bit 16 (blockno x) AND 0xFF),
     rdev := ucast (0xE0 OR push_bit 4 (bdev x AND 1) OR (drop_bit 24 (blockno x) AND 0x0F))\<rparr>"

lemma lba_regs: "blockno x < FSSIZE \<Longrightarrow> lba (set_regs x j s) = blockno x"
  using reg_bits [of "blockno x" "bdev x"] by (simp add: FSSIZE_def lba_def set_regs_def)

lemma drive_regs: "bdev x = 1 \<Longrightarrow> blockno x < FSSIZE \<Longrightarrow> drive1 (set_regs x j s)"
  using dev_bit [of "blockno x"] by (simp add: FSSIZE_def drive1_def set_regs_def)

definition started :: "nat \<Rightarrow> nat \<Rightarrow> 'x hdst_scheme \<Rightarrow> 'x hdst_scheme" where
  "started b j s = (let x = bufs s ! b; t = set_regs x j s in
     if dirty x then t\<lparr>disk := (disk s)(blockno x := bdata x), dwrites := dwrites s @ [(blockno x, bdata x)]\<rparr>
     else t\<lparr>hbuf := disk s (blockno x)\<rparr>)"

lemma started_sel [simp]:
  "bufs (started b j s) = bufs s" "idequeue (started b j s) = idequeue s" "qnext (started b j s) = qnext s"
  "held (started b j s) = held s" "cur (started b j s) = cur s" "procs (started b j s) = procs s"
  "havedisk1 (started b j s) = havedisk1 s" "hstat (started b j s) = hstat s" "hpoll (started b j s) = hpoll s"
  "disksize (started b j s) = disksize s"
  "disk (started b j s) = (if dirty (bufs s ! b) then (disk s)(blockno (bufs s ! b) := bdata (bufs s ! b)) else disk s)"
  "hbuf (started b j s) = (if dirty (bufs s ! b) then hbuf s else disk s (blockno (bufs s ! b)))"
  by (simp_all add: started_def set_regs_def Let_def)

lemma idestart_ok:
  assumes "responsive (hstat s) (hpoll s)" "bdev (bufs s ! b) = 1" "blockno (bufs s ! b) < FSSIZE"
  shows "\<exists>j. idestart (Some b) s = Ok () (started b j s)"
proof -
  let ?x = "bufs s ! b"
  obtain j where j: "idewait False s = Ok 0 (s\<lparr>hpos := j\<rparr>)" using idewait_ok [OF assms(1)] by blast
  have d: "drive1 (set_regs ?x j s)" "lba (set_regs ?x j s) = blockno ?x" using drive_regs lba_regs assms by auto
  have f: "disk (set_regs ?x j s) = disk s" "dwrites (set_regs ?x j s) = dwrites s" by (simp_all add: set_regs_def)
  have spb: "BSIZE div SECTOR_SIZE = 1" by (simp add: BSIZE_def SECTOR_SIZE_def)
  have g: "\<not> FSSIZE \<le> blockno ?x" using assms(3) by simp
  have "idestart (Some b) s = (if dirty ?x then cmd_write (bdata ?x) else cmd_read) (set_regs ?x j s)"
    unfolding set_regs_def idestart_def option.case Let_def spb using j g by simp
  then show ?thesis using d f by (intro exI [of _ j]) (simp add: cmd_write_def cmd_read_def started_def Let_def)
qed

section \<open>Requests\<close>

text \<open>The effect of a request on the buffers and the disk.\<close>

fun effect :: "nat \<Rightarrow> buf list \<times> (uint \<Rightarrow> uchar list) \<Rightarrow> buf list \<times> (uint \<Rightarrow> uchar list)" where
  "effect b (bs, d) =
     (if dirty (bs ! b) then (bs[b := (bs ! b)\<lparr>valid := True, dirty := False\<rparr>], d(blockno (bs ! b) := bdata (bs ! b)))
      else (bs[b := (bs ! b)\<lparr>bdata := d (blockno (bs ! b)), valid := True, dirty := False\<rparr>], d))"

text \<open>A request that \<open>iderw\<close> accepts: the buffer is busy, and there is something to do.\<close>

definition req_ok :: "buf list \<Rightarrow> nat \<Rightarrow> bool" where
  "req_ok bs b \<longleftrightarrow> b < NBUF \<and> NBUF < length bs \<and> busy (bs ! b) \<and> \<not> (valid (bs ! b) \<and> \<not> dirty (bs ! b)) \<and>
     bdev (bs ! b) = 1 \<and> blockno (bs ! b) < FSSIZE"

text \<open>
  \<open>xs\<close> is the queue, its requests are valid, and the controller has been given the first: a write has
  reached the drive, a read is in the sector buffer.
\<close>

definition ide_inv :: "'x hdst_scheme \<Rightarrow> nat list \<Rightarrow> bool" where
  "ide_inv s xs \<longleftrightarrow> qchain (qnext s) (idequeue s) xs \<and> distinct xs \<and> (\<forall>b\<in>set xs. req_ok (bufs s) b) \<and>
     responsive (hstat s) (hpoll s) \<and> havedisk1 s \<and> FSSIZE \<le> disksize s \<and>
     (xs \<noteq> [] \<longrightarrow> (let x = bufs s ! hd xs in if dirty x then disk s (blockno x) = bdata x else hbuf s = disk s (blockno x)))"

lemma effect_other: "c \<noteq> b \<Longrightarrow> fst (effect b sd) ! c = fst sd ! c"
  and effect_length: "length (fst (effect b sd)) = length (fst sd)"
  by (cases sd; simp)+

lemma fold_effect_other: "c \<notin> set xs \<Longrightarrow> fst (fold effect xs sd) ! c = fst sd ! c"
  by (induction xs arbitrary: sd) (auto simp: effect_other)

lemma fold_effect_length: "length (fst (fold effect xs sd)) = length (fst sd)"
  by (induction xs arbitrary: sd) (auto simp: effect_length)

lemma effect_use: "c \<noteq> b \<Longrightarrow> effect b (map_prod (\<lambda>bs. bs[c := x]) id sd) = map_prod (\<lambda>bs. bs[c := x]) id (effect b sd)"
  by (cases sd) (auto simp: list_update_swap)

lemma fold_effect_use:
  "c \<notin> set xs \<Longrightarrow> fold effect xs (map_prod (\<lambda>bs. bs[c := x]) id sd) = map_prod (\<lambda>bs. bs[c := x]) id (fold effect xs sd)"
  by (induction xs arbitrary: sd) (auto simp: effect_use)

lemma ide_rw_ok:
  assumes i: "ide_inv s xs" and b: "req_ok (bufs s) b" "b \<notin> set xs"
    and c: "held s = []" "cur s = Some p" "p < length (procs s)"
  shows "\<exists>t. ide_rw b s = Block t \<and> ide_inv t (xs @ [b]) \<and> bufs t = bufs s \<and>
    fold effect (xs @ [b]) (bufs t, disk t) = fold effect (xs @ [b]) (bufs s, disk s)"
proof -
  have I: "qchain (qnext s) (idequeue s) xs" "distinct xs" "\<And>b. b \<in> set xs \<Longrightarrow> req_ok (bufs s) b" "responsive (hstat s) (hpoll s)" "havedisk1 s"
    using i by (auto simp: ide_inv_def)
  note B = b(1) [unfolded req_ok_def]
  have "set xs \<subseteq> {..<NBUF}" using I(3) by (auto simp: req_ok_def)
  then have len: "length xs \<le> NBUF" using distinct_card [OF I(2)] card_mono [of "{..<NBUF}" "set xs"] by simp
  define a where "a = s\<lparr>held := [LK_ide], qnext := (qnext s)(b := None)\<rparr>"
  have "qchain (qnext a) (idequeue a) xs" using I(1) b(2) by (simp add: a_def qchain_fun_upd)
  from ide_append_ok [OF this I(2) b(2) _ len] obtain q nx where q: "ide_append (Suc NBUF) b None a = Ok () (a\<lparr>idequeue := q, qnext := nx\<rparr>)"
    "qchain nx q (xs @ [b])" by (auto simp: a_def)
  let ?u = "a\<lparr>idequeue := q, qnext := nx\<rparr>"
  have w: "ide_wait_loop b u = Block (u\<lparr>held := [LK_ptable], procs := (procs u)[p := asleep (Ch_buf b) (ticks u) (procs u ! p)]\<rparr>)"
    if "held u = [LK_ide]" "bufs u = bufs s" "cur u = Some p" "procs u = procs s" for u :: "'a hdst_scheme"
    using that B c(3) by (simp add: ide_wait_loop_def sleep_blocks)
  have r: "ide_rw b s = kthen (kwhen (q = Some b) (idestart q)) (ide_wait_loop b) ?u"
    using B I(5) c(1) q(1) by (auto simp: ide_rw_def a_def simp del: ide_append.simps)
  have E: "\<forall>c\<in>set (xs @ [b]). req_ok (bufs s) c" using I(3) b(1) by auto
  show ?thesis
  proof (cases xs)
    case Nil
    then have qb: "q = Some b" using q(2) by simp
    obtain j where j: "idestart (Some b) ?u = Ok () (started b j ?u)"
      using idestart_ok [of ?u b] I(4) B by (auto simp: a_def)
    let ?t = "(started b j ?u)\<lparr>held := [LK_ptable], procs := (procs (started b j ?u))[p := asleep (Ch_buf b) (ticks (started b j ?u)) (procs (started b j ?u) ! p)]\<rparr>"
    have "ide_rw b s = Block ?t" using r qb j w [of "started b j ?u"] c(2) by (simp add: a_def)
    moreover have "ide_inv ?t (xs @ [b])" using i q(2) E Nil by (auto simp: ide_inv_def Let_def a_def)
    moreover have "fold effect (xs @ [b]) (bufs ?t, disk ?t) = fold effect (xs @ [b]) (bufs s, disk s)" "bufs ?t = bufs s"
      using Nil by (simp_all add: a_def)
    ultimately show ?thesis by blast
  next
    case (Cons x ys)
    then have qb: "q \<noteq> Some b" using q(2) b(2) by auto
    let ?t = "?u\<lparr>held := [LK_ptable], procs := (procs ?u)[p := asleep (Ch_buf b) (ticks ?u) (procs ?u ! p)]\<rparr>"
    have "ide_rw b s = Block ?t" using r qb w [of ?u] c(2) by (simp add: a_def)
    moreover have "ide_inv ?t (xs @ [b])" using i q(2) E Cons I(2) b(2) by (auto simp: ide_inv_def Let_def a_def)
    ultimately show ?thesis by (intro exI [of _ ?t]) (simp add: a_def)
  qed
qed

section \<open>Interrupts\<close>

lemma ideintr_spurious: "ide_inv s [] \<Longrightarrow> LK_ide \<notin> set (held s) \<Longrightarrow> ideintr s = Ok () s"
  by (simp add: ide_inv_def ideintr_def)

text \<open>Completing the first request: up to the point where the next one is started.\<close>

definition done_first :: "nat \<Rightarrow> nat \<Rightarrow> 'x hdst_scheme \<Rightarrow> 'x hdst_scheme" where
  "done_first b j s = s\<lparr>held := LK_ide # held s, idequeue := qnext s b, hpos := j, bufs := fst (effect b (bufs s, disk s)),
     procs := map (wake_proc (Ch_buf b)) (procs s)\<rparr>"

lemma ideintr_first:
  assumes i: "ide_inv s (b # bs)" and h: "LK_ide \<notin> set (held s)" "LK_ptable \<notin> set (held s)"
  shows "\<exists>j. ideintr s = kthen (kwhen (qnext s b \<noteq> None) (idestart (qnext s b))) (release LK_ide) (done_first b j s)"
proof -
  have I: "idequeue s = Some b" "responsive (hstat s) (hpoll s)" "b < length (bufs s)" "\<not> dirty (bufs s ! b) \<Longrightarrow> hbuf s = disk s (blockno (bufs s ! b))"
    using i by (auto simp: ide_inv_def req_ok_def Let_def)
  define a where "a = s\<lparr>held := LK_ide # held s, idequeue := qnext s b\<rparr>"
  obtain j where j: "idewait True a = Ok 0 (a\<lparr>hpos := j\<rparr>)" using idewait_ok [of a True] I(2) by (auto simp: a_def)
  show ?thesis
  proof (cases "dirty (bufs s ! b)")
    case True
    have "done_first b (hpos s) s = s\<lparr>held := LK_ide # held s, idequeue := qnext s b, bufs := fst (effect b (bufs s, disk s)),
        procs := map (wake_proc (Ch_buf b)) (procs s)\<rparr>" unfolding done_first_def by (cases s) simp
    with True show ?thesis
      using I h by (intro exI [of _ "hpos s"]) (simp add: ideintr_def wakeup_ok)
  next
    case False
    then show ?thesis
      using I h j by (intro exI [of _ j]) (simp add: ideintr_def done_first_def wakeup_ok a_def)
  qed
qed

lemma ide_inv_done:
  assumes i: "ide_inv s (b # bs)" and t: "bufs t = fst (effect b (bufs s, disk s))"
    "disk t = (if bs \<noteq> [] \<and> dirty (bufs s ! hd bs) then (disk s)(blockno (bufs s ! hd bs) := bdata (bufs s ! hd bs)) else disk s)"
    "bs \<noteq> [] \<Longrightarrow> \<not> dirty (bufs s ! hd bs) \<Longrightarrow> hbuf t = disk s (blockno (bufs s ! hd bs))"
    "idequeue t = qnext s b" "qnext t = qnext s" "hstat t = hstat s" "hpoll t = hpoll s" "havedisk1 t = havedisk1 s" "disksize t = disksize s"
  shows "ide_inv t bs" "fold effect bs (bufs t, disk t) = fold effect (b # bs) (bufs s, disk s)"
proof -
  have o: "bufs t ! c = bufs s ! c" if "c \<in> set bs" for c
    using effect_other [of c b "(bufs s, disk s)"] i that t(1) by (auto simp: ide_inv_def simp del: effect.simps)
  have l: "length (bufs t) = length (bufs s)" using effect_length [of b "(bufs s, disk s)"] t(1) by (simp del: effect.simps)
  have h: "bufs t ! hd bs = bufs s ! hd bs" if "bs \<noteq> []" using o that by simp
  show "ide_inv t bs" using i t(2-) o l h by (auto simp: ide_inv_def req_ok_def Let_def)
  have d: "effect b (bufs s, disk s) = (bufs t, disk s)"
    using i t(1) by (auto simp: ide_inv_def Let_def)
  have "fold effect bs (bufs t, disk t) = fold effect bs (bufs t, disk s)"
    using t(2) h by (cases bs) auto
  then show "fold effect bs (bufs t, disk t) = fold effect (b # bs) (bufs s, disk s)" using d by simp
qed

lemma ideintr_ok:
  assumes i: "ide_inv s (b # bs)" and h: "LK_ide \<notin> set (held s)" "LK_ptable \<notin> set (held s)"
  shows "\<exists>t. ideintr s = Ok () t \<and> ide_inv t bs \<and> fold effect bs (bufs t, disk t) = fold effect (b # bs) (bufs s, disk s) \<and>
    procs t = map (wake_proc (Ch_buf b)) (procs s)"
proof -
  obtain j where j: "ideintr s = kthen (kwhen (qnext s b \<noteq> None) (idestart (qnext s b))) (release LK_ide) (done_first b j s)"
    using ideintr_first [OF assms] by blast
  let ?d = "done_first b j s"
  have D: "idequeue ?d = qnext s b" "qnext ?d = qnext s" "held ?d = LK_ide # held s" "hstat ?d = hstat s" "hpoll ?d = hpoll s"
    "havedisk1 ?d = havedisk1 s" "disk ?d = disk s" "disksize ?d = disksize s" "bufs ?d = fst (effect b (bufs s, disk s))"
    "procs ?d = map (wake_proc (Ch_buf b)) (procs s)"
    by (simp_all add: done_first_def)
  have q: "qchain (qnext s) (qnext s b) bs" "b \<notin> set bs" "responsive (hstat s) (hpoll s)" using i by (auto simp: ide_inv_def)
  show ?thesis
  proof (cases bs)
    case Nil
    then have n: "qnext s b = None" using q by simp
    let ?t = "?d\<lparr>held := held s\<rparr>"
    have "ideintr s = Ok () ?t" using j n D(3) h by simp
    moreover have "ide_inv ?t bs" "fold effect bs (bufs ?t, disk ?t) = fold effect (b # bs) (bufs s, disk s)"
      by (rule ide_inv_done [OF i]; simp add: D Nil)+
    ultimately show ?thesis using D(10) by (intro exI [of _ ?t]) simp
  next
    case (Cons c cs)
    then have n: "qnext s b = Some c" using q by simp
    have bc: "fst (effect b (bufs s, disk s)) ! c = bufs s ! c"
      using effect_other [of c b "(bufs s, disk s)"] q(2) Cons by (simp del: effect.simps)
    have "req_ok (bufs s) c" using i Cons by (simp add: ide_inv_def)
    then obtain k where k: "idestart (Some c) ?d = Ok () (started c k ?d)"
      using idestart_ok [of ?d c] D q(3) bc by (auto simp: req_ok_def simp del: effect.simps)
    let ?t = "(started c k ?d)\<lparr>held := held s\<rparr>"
    have "ideintr s = Ok () ?t" using j n k D(3) h by simp
    moreover have "ide_inv ?t bs" "fold effect bs (bufs ?t, disk ?t) = fold effect (b # bs) (bufs s, disk s)"
      by (rule ide_inv_done [OF i]; simp add: D Cons bc del: effect.simps)+
    ultimately show ?thesis using D(10) by (intro exI [of _ ?t]) simp
  qed
qed

section \<open>Interleavings\<close>

text \<open>
  \<open>Req b\<close>: a process calls \<open>iderw\<close> for buffer \<open>b\<close> and goes to sleep. \<open>Intr\<close>: the interrupt. \<open>Use b x\<close>: a process
  changes a buffer that is not queued. \<open>Sched\<close>: scheduling, and everything else that concerns neither
  the buffers nor the driver; the disk goes on responding.
\<close>

datatype io_event = Req nat | Intr | Use nat buf | Sched

definition same_io :: "hdst \<Rightarrow> hdst \<Rightarrow> bool" where
  "same_io s t \<longleftrightarrow> disk t = disk s \<and> disksize t = disksize s \<and> bufs t = bufs s \<and> hbuf t = hbuf s \<and> idequeue t = idequeue s \<and>
     qnext t = qnext s \<and> havedisk1 t = havedisk1 s \<and> hstat t = hstat s \<and> hpoll t = hpoll s"

primrec walk :: "nat \<Rightarrow> (nat \<Rightarrow> nat option) \<Rightarrow> nat option \<Rightarrow> nat list" where
  "walk 0 nx q = []"
| "walk (Suc n) nx q = (case q of None \<Rightarrow> [] | Some x \<Rightarrow> x # walk n nx (nx x))"

definition pending :: "hdst \<Rightarrow> nat list" where
  "pending s = walk NBUF (qnext s) (idequeue s)"

inductive ide_step :: "hdst \<Rightarrow> io_event \<Rightarrow> hdst \<Rightarrow> bool" where
  ide_req: "held s = [] \<Longrightarrow> cur s = Some p \<Longrightarrow> p < length (procs s) \<Longrightarrow> req_ok (bufs s) b \<Longrightarrow> b \<notin> set (pending s) \<Longrightarrow>
    ide_rw b s = Block t \<Longrightarrow> ide_step s (Req b) t"
| ide_int: "held s = [] \<Longrightarrow> ideintr s = Ok () t \<Longrightarrow> ide_step s Intr t"
| ide_use: "b \<notin> set (pending s) \<Longrightarrow> ide_step s (Use b x) (s\<lparr>bufs := (bufs s)[b := x]\<rparr>)"
| ide_sched: "same_io s t \<Longrightarrow> ide_step s Sched t"

inductive mem_step :: "bst \<Rightarrow> io_event \<Rightarrow> bst \<Rightarrow> bool" where
  mem_req: "iderw b s = Ok () t \<Longrightarrow> mem_step s (Req b) t"
| mem_int: "mem_step s Intr s"
| mem_use: "mem_step s (Use b x) (s\<lparr>bufs := (bufs s)[b := x]\<rparr>)"
| mem_sched: "mem_step s Sched s"

inductive steps :: "('s \<Rightarrow> 'e \<Rightarrow> 's \<Rightarrow> bool) \<Rightarrow> 's \<Rightarrow> 'e list \<Rightarrow> 's \<Rightarrow> bool" for R where
  steps_nil: "steps R s [] s"
| steps_snoc: "steps R s es t \<Longrightarrow> R t e u \<Longrightarrow> steps R s (es @ [e]) u"

lemma walk_qchain: "qchain nx q xs \<Longrightarrow> length xs \<le> n \<Longrightarrow> walk n nx q = xs"
proof (induction xs arbitrary: q n)
  case Nil
  then show ?case by (cases n) simp_all
next
  case (Cons x xs)
  then show ?case by (cases n) simp_all
qed

lemma pending_inv: "ide_inv s xs \<Longrightarrow> pending s = xs"
proof -
  assume i: "ide_inv s xs"
  have "set xs \<subseteq> {..<NBUF}" using i by (auto simp: ide_inv_def req_ok_def)
  moreover have "distinct xs" "qchain (qnext s) (idequeue s) xs" using i by (auto simp: ide_inv_def)
  ultimately show ?thesis
    using distinct_card [of xs] card_mono [of "{..<NBUF}" "set xs"] by (simp add: pending_def walk_qchain)
qed

text \<open>The memory disk does at once what the queue will have done.\<close>

lemma iderw_effect:
  assumes "req_ok (bufs m) b" "FSSIZE \<le> disksize m"
  shows "\<exists>m'. iderw b m = Ok () m' \<and> (bufs m', disk m') = effect b (bufs m, disk m) \<and> disksize m' = disksize m"
proof -
  have "blockno (bufs m ! b) < disksize m" using assms by (auto simp: req_ok_def)
  then show ?thesis using assms(1) by (cases "bufs m ! b") (auto simp: iderw_def req_ok_def not_le)
qed

definition catches_up :: "hdst \<Rightarrow> bst \<Rightarrow> bool" where
  "catches_up s m \<longleftrightarrow> ide_inv s (pending s) \<and> fold effect (pending s) (bufs s, disk s) = (bufs m, disk m) \<and> FSSIZE \<le> disksize m"

lemma catches_up_step:
  assumes c: "catches_up s m" and st: "ide_step s e t"
  shows "\<exists>m'. mem_step m e m' \<and> catches_up t m'"
  using st
proof cases
  case (ide_req p b)
  have i: "ide_inv s (pending s)" "fold effect (pending s) (bufs s, disk s) = (bufs m, disk m)" "FSSIZE \<le> disksize m"
    using c by (auto simp: catches_up_def)
  from ide_rw_ok [OF i(1) ide_req(5,6,2,3,4)] ide_req(7)
  have t: "ide_inv t (pending s @ [b])" "fold effect (pending s @ [b]) (bufs t, disk t) = effect b (bufs m, disk m)"
    using i(2) by auto
  have "bufs m ! b = bufs s ! b" "length (bufs m) = length (bufs s)"
    using fold_effect_other [OF ide_req(6), of "(bufs s, disk s)"] fold_effect_length [of "pending s" "(bufs s, disk s)"] i(2) by simp_all
  then have "req_ok (bufs m) b" using ide_req(5) by (simp add: req_ok_def)
  from iderw_effect [OF this i(3)] obtain m' where m': "iderw b m = Ok () m'" "(bufs m', disk m') = effect b (bufs m, disk m)" "disksize m' = disksize m"
    by blast
  then have "catches_up t m'" using t pending_inv [OF t(1)] i(3) by (simp add: catches_up_def del: effect.simps)
  then show ?thesis using m'(1) ide_req(1) mem_req by blast
next
  case ide_int
  have i: "ide_inv s (pending s)" using c by (simp add: catches_up_def)
  have "ide_inv t (tl (pending s)) \<and> fold effect (tl (pending s)) (bufs t, disk t) = fold effect (pending s) (bufs s, disk s)"
  proof (cases "pending s")
    case Nil
    then have "t = s" using ideintr_spurious [of s] i ide_int(2,3) by simp
    then show ?thesis using Nil i by simp
  next
    case (Cons b bs)
    then show ?thesis using ideintr_ok [of s b bs] i ide_int(2,3) by auto
  qed
  then have "catches_up t m" using c pending_inv [of t "tl (pending s)"] by (simp add: catches_up_def)
  then show ?thesis using ide_int(1) mem_int by blast
next
  case (ide_use b x)
  have o: "bufs t ! k = bufs s ! k" if "k \<in> set (pending s)" for k using that ide_use(2,3) by (cases "k = b") auto
  have h: "bufs t ! hd (pending s) = bufs s ! hd (pending s)" if "pending s \<noteq> []" by (rule o) (use that in simp)
  have "ide_inv s (pending s)" using c by (simp add: catches_up_def)
  moreover have "length (bufs t) = length (bufs s)" "qnext t = qnext s" "idequeue t = idequeue s" "hstat t = hstat s" "hpoll t = hpoll s"
    "havedisk1 t = havedisk1 s" "disk t = disk s" "disksize t = disksize s" "hbuf t = hbuf s" using ide_use(2) by simp_all
  ultimately have "ide_inv t (pending s)" using o h by (cases "pending s = []") (simp_all add: ide_inv_def req_ok_def Let_def)
  moreover have "fold effect (pending s) (bufs t, disk t) = ((bufs m)[b := x], disk m)"
    using fold_effect_use [OF ide_use(3), of x "(bufs s, disk s)"] c ide_use(2) by (simp add: catches_up_def)
  ultimately have "catches_up t (m\<lparr>bufs := (bufs m)[b := x]\<rparr>)" using c pending_inv [of t "pending s"] by (simp add: catches_up_def)
  then show ?thesis using ide_use(1) mem_use by blast
next
  case ide_sched
  then have p: "pending t = pending s" by (simp add: pending_def same_io_def)
  then have "catches_up t m" using c ide_sched(2) by (simp add: catches_up_def same_io_def ide_inv_def Let_def)
  then show ?thesis using ide_sched(1) mem_sched by blast
qed

lemma steps_catch_up:
  assumes "steps ide_step s es t" "catches_up s m"
  shows "\<exists>m'. steps mem_step m es m' \<and> catches_up t m'"
  using assms
proof (induction rule: steps.induct)
  case (steps_nil s)
  then show ?case by (intro exI [of _ m] conjI steps.steps_nil)
next
  case (steps_snoc s es t e u)
  from steps_snoc.IH [OF steps_snoc.prems] obtain n where n: "steps mem_step m es n" "catches_up t n" by (elim exE conjE)
  from catches_up_step [OF n(2) steps_snoc.hyps(2)] obtain m' where m': "mem_step n e m'" "catches_up u m'" by (elim exE conjE)
  show ?case by (rule exI [of _ m'], rule conjI [OF steps.steps_snoc [OF n(1) m'(1)] m'(2)])
qed

text \<open>
  C4. The interrupt-driven driver does what the memory disk does. Start with an idle driver on a drive that
  responds, and let requests, interrupts, other uses of buffers and scheduling follow each other in any
  order. Then the driver of the memory disk accepts the same sequence of requests, each done at once,
  and whenever the queue is empty again, both have the same buffers and the same disk. At any time a running
  process may make a new request, which is queued and puts the process to sleep, and an interrupt
  is handled without panic; it completes the first request of the queue, and wakes its process.
\<close>

theorem ide_refines_memide:
  assumes "steps ide_step s es t" "ide_inv s []"
  shows "\<exists>m. steps mem_step (bst.truncate s) es m \<and> (pending t = [] \<longrightarrow> bufs m = bufs t \<and> disk m = disk t) \<and>
    (held t = [] \<longrightarrow> (\<forall>b p. cur t = Some p \<longrightarrow> p < length (procs t) \<longrightarrow> req_ok (bufs t) b \<longrightarrow> b \<notin> set (pending t) \<longrightarrow>
       (\<exists>u. ide_rw b t = Block u \<and> pending u = pending t @ [b]))) \<and>
    (held t = [] \<longrightarrow> (\<exists>u. ideintr t = Ok () u \<and> pending u = tl (pending t) \<and>
       (pending t \<noteq> [] \<longrightarrow> (let b = hd (pending t) in valid (bufs u ! b) \<and> \<not> dirty (bufs u ! b) \<and>
          procs u = map (wake_proc (Ch_buf b)) (procs t)))))"
proof -
  have e: "pending s = []" by (rule pending_inv [OF assms(2)])
  have "catches_up s (bst.truncate s)" using assms(2) e by (simp add: catches_up_def bst.truncate_def ide_inv_def)
  from steps_catch_up [OF assms(1) this] obtain m where m: "steps mem_step (bst.truncate s) es m" "catches_up t m" by blast
  have i: "ide_inv t (pending t)" using m(2) by (simp add: catches_up_def)
  have "bufs m = bufs t \<and> disk m = disk t" if "pending t = []" using m(2) that by (simp add: catches_up_def)
  moreover have "\<exists>u. ide_rw b t = Block u \<and> pending u = pending t @ [b]"
    if "held t = []" "cur t = Some p" "p < length (procs t)" "req_ok (bufs t) b" "b \<notin> set (pending t)" for b p
    using ide_rw_ok [OF i that(4,5,1,2,3)] pending_inv by blast
  moreover have "\<exists>u. ideintr t = Ok () u \<and> pending u = tl (pending t) \<and> (pending t \<noteq> [] \<longrightarrow> (let b = hd (pending t) in
      valid (bufs u ! b) \<and> \<not> dirty (bufs u ! b) \<and> procs u = map (wake_proc (Ch_buf b)) (procs t)))" if h: "held t = []"
  proof (cases "pending t")
    case Nil
    then show ?thesis using ideintr_spurious [of t] i h by simp
  next
    case (Cons b bs)
    then obtain u where u: "ideintr t = Ok () u" "ide_inv u bs" "fold effect bs (bufs u, disk u) = fold effect (b # bs) (bufs t, disk t)"
      "procs u = map (wake_proc (Ch_buf b)) (procs t)" using ideintr_ok [of t b bs] i h by auto
    have b: "b \<notin> set bs" "b < length (bufs t)" using i Cons by (auto simp: ide_inv_def req_ok_def)
    have "bufs u ! b = fst (fold effect bs (effect b (bufs t, disk t))) ! b"
      using fold_effect_other [OF b(1), of "(bufs u, disk u)"] u(3) by (simp del: effect.simps)
    also have "\<dots> = fst (effect b (bufs t, disk t)) ! b" by (rule fold_effect_other [OF b(1)])
    finally have "valid (bufs u ! b) \<and> \<not> dirty (bufs u ! b)" using b(2) by simp
    then show ?thesis using u Cons pending_inv [OF u(2)] by simp
  qed
  ultimately show ?thesis using m(1) by blast
qed

text \<open>A read of block 7 of a drive that is always ready: the request, the switch to another process, the interrupt.\<close>

definition wit_ide :: "buf list \<Rightarrow> hdst" where
  "wit_ide bs = bst.extend ((wit_bst bs)\<lparr>cur := Some 0\<rparr>) (hdst.fields (\<lambda>_. []) 0 0 0 0 0 (\<lambda>_. 0x40) 0 1 [] None (\<lambda>_. None) True)"

definition wit_req :: "buf list" where
  "wit_req = replicate 31 (wit_buf\<lparr>busy := True, bdev := 1, blockno := 7\<rparr>)"

lemma wit_ide_idle: "ide_inv (wit_ide wit_req) []" "held (wit_ide bs) = []" "cur (wit_ide bs) = Some 0" "0 < length (procs (wit_ide bs))"
  "req_ok (bufs (wit_ide wit_req)) 3"
  by (auto simp: ide_inv_def wit_ide_def wit_bst_def hdst.defs bst.defs responsive_def drdy_def IDE_BSY_def IDE_DRDY_def IDE_DF_def
      IDE_ERR_def FSSIZE_def req_ok_def wit_req_def wit_buf_def NBUF_def)

theorem ide_refines_memide_witness:
  "\<exists>t v m. steps ide_step (wit_ide wit_req) [Req 3, Sched] t \<and> pending t = [3] \<and> ideintr t = Ok () v \<and> pending v = [] \<and>
    steps mem_step (bst.truncate (wit_ide wit_req)) [Req 3, Sched, Intr] m \<and> bufs m = bufs v \<and> valid (bufs v ! 3)"
proof -
  let ?s = "wit_ide wit_req"
  note w = wit_ide_idle
  have p: "pending ?s = []" by (rule pending_inv [OF w(1)])
  have n: "steps ide_step ?s [] ?s" by (rule steps_nil)
  from ide_refines_memide [OF n w(1)] obtain u where u: "ide_rw 3 ?s = Block u" "pending u = [3]"
    using w(2-5) p by force
  have r: "steps ide_step ?s ([] @ [Req 3]) u"
    by (rule steps_snoc [OF n ide_req]) (use w p u in auto)
  let ?t = "u\<lparr>held := []\<rparr>"
  have t: "steps ide_step ?s (([] @ [Req 3]) @ [Sched]) ?t" by (rule steps_snoc [OF r ide_sched]) (simp add: same_io_def)
  have pt: "pending ?t = [3]" using u(2) by (simp add: pending_def)
  from ide_refines_memide [OF t w(1)] obtain v where v: "ideintr ?t = Ok () v" "pending v = []" "valid (bufs v ! 3)"
    using pt by (auto simp: Let_def)
  have "steps ide_step ?s ((([] @ [Req 3]) @ [Sched]) @ [Intr]) v" by (rule steps_snoc [OF t ide_int]) (use v in auto)
  from ide_refines_memide [OF this w(1)] obtain m where "steps mem_step (bst.truncate ?s) [Req 3, Sched, Intr] m" "bufs m = bufs v"
    using v(2) by auto
  then show ?thesis using t pt v by (intro exI [of _ ?t] exI [of _ v] exI [of _ m]) simp
qed

end
