(* ===== verification/Paths.thy ===== *)
theory Paths
  imports Fs
begin

text \<open>
  The walk of \<open>namex\<close> over a path, against a reference that first splits the path at its slashes.
\<close>

section \<open>Splitting\<close>

primrec splits :: "uchar list \<Rightarrow> uchar list list" where
  "splits [] = [[]]"
| "splits (c # cs) = (if c = slash then [] # splits cs else (c # hd (splits cs)) # tl (splits cs))"

text \<open>The elements of a path: the parts that are not empty.\<close>

definition elements :: "uchar list \<Rightarrow> uchar list list" where
  "elements path = filter (\<lambda>w. w \<noteq> []) (splits path)"

lemma splits_unfold:
  "splits p = takeWhile (\<lambda>c. c \<noteq> slash) p # (case dropWhile (\<lambda>c. c \<noteq> slash) p of [] \<Rightarrow> [] | _ # r \<Rightarrow> splits r)"
  by (induction p) simp_all

lemma elements_slash [simp]: "elements (slash # p) = elements p"
  by (simp add: elements_def)

lemma elements_skip: "elements (dropWhile (\<lambda>c. c = slash) p) = elements p"
  by (induction p) simp_all

lemma elements_Cons:
  "c \<noteq> slash \<Longrightarrow> elements (c # p) = takeWhile (\<lambda>c. c \<noteq> slash) (c # p) # elements (dropWhile (\<lambda>c. c \<noteq> slash) (c # p))"
proof -
  assume c: "c \<noteq> slash"
  have "elements (c # p) = takeWhile (\<lambda>c. c \<noteq> slash) (c # p) #
      (case dropWhile (\<lambda>c. c \<noteq> slash) (c # p) of [] \<Rightarrow> [] | _ # r \<Rightarrow> elements r)"
    unfolding elements_def using c by (subst splits_unfold) (cases "dropWhile (\<lambda>c. c \<noteq> slash) (c # p)"; simp del: dropWhile_eq_Nil_conv)
  moreover have "(case dropWhile (\<lambda>c. c \<noteq> slash) q of [] \<Rightarrow> [] | _ # r \<Rightarrow> elements r) = elements (dropWhile (\<lambda>c. c \<noteq> slash) q)" for q
  proof (cases "dropWhile (\<lambda>c. c \<noteq> slash) q")
    case (Cons x r)
    then have "x = slash" using hd_dropWhile [of "\<lambda>c. c \<noteq> slash" q] by simp
    then show ?thesis using Cons by simp
  qed (simp add: elements_def del: dropWhile_eq_Nil_conv)
  ultimately show ?thesis by simp
qed

lemma elements_empty: "elements (dropWhile (\<lambda>c. c = slash) p) = [] \<longleftrightarrow> dropWhile (\<lambda>c. c = slash) p = []"
proof (cases "dropWhile (\<lambda>c. c = slash) p")
  case (Cons x r)
  then have "x \<noteq> slash" using hd_dropWhile [of "\<lambda>c. c = slash" p] by simp
  then show ?thesis using Cons elements_Cons by simp
qed (simp add: elements_def del: dropWhile_eq_Nil_conv)

lemma skipelem_elements:
  "skipelem p = None \<and> elements p = [] \<or>
   (\<exists>rest w. skipelem p = Some (rest, take DIRSIZ w) \<and> elements p = w # elements rest \<and> (rest = [] \<longleftrightarrow> elements rest = []))"
proof (cases "dropWhile (\<lambda>c. c = slash) p")
  case Nil
  then have "elements p = []" using elements_empty [of p] elements_skip [of p] by simp
  then show ?thesis using Nil by (simp add: skipelem_def)
next
  case (Cons x r)
  then have x: "x \<noteq> slash" using hd_dropWhile [of "\<lambda>c. c = slash" p] by simp
  let ?rest = "dropWhile (\<lambda>c. c = slash) (dropWhile (\<lambda>c. c \<noteq> slash) (x # r))"
  let ?w = "takeWhile (\<lambda>c. c \<noteq> slash) (x # r)"
  have "skipelem p = Some (?rest, take DIRSIZ ?w)" using Cons by (simp add: skipelem_def Let_def)
  moreover have "elements p = ?w # elements ?rest" unfolding elements_skip using elements_skip [of p] elements_Cons [OF x] Cons by simp
  ultimately show ?thesis using elements_empty by blast
qed

section \<open>The walk\<close>

primrec namex_ref :: "uchar list list \<Rightarrow> bool \<Rightarrow> uchar list \<Rightarrow> nat \<Rightarrow> ('x cst_scheme, nat option \<times> uchar list) kop" where
  "namex_ref [] par name ip = (if par then kthen (iput ip) (kret (None, name)) else kret (Some ip, name))"
| "namex_ref (w # ws) par name ip =
     kthen (ilock ip) (
     kbind (kget (\<lambda>s. itype (inodes s ! ip))) (\<lambda>ty.
     if ty \<noteq> T_DIR then kthen (iunlockput ip) (kret (None, take DIRSIZ w))
     else if par \<and> ws = [] then kthen (iunlock ip) (kret (Some ip, take DIRSIZ w))
     else
       kbind (dirlookup ip (take DIRSIZ w)) (\<lambda>r.
       case r of
         None \<Rightarrow> kthen (iunlockput ip) (kret (None, take DIRSIZ w))
       | Some (next, _) \<Rightarrow> kthen (iunlockput ip) (namex_ref ws par (take DIRSIZ w) next))))"

text \<open>
  C14. \<open>namex\<close> resolves a path element by element. Scanning the path with \<open>skipelem\<close>, it does what the
  reference does on the list of the elements of the path, that is, of the nonempty parts between
  slashes, each cut to \<open>DIRSIZ\<close> bytes: lock the directory, stop there if the parent is wanted and this
  is the last element, else look it up and go on. In particular leading, repeated and trailing slashes
  make no difference.
\<close>

theorem namex_elements: "namex_loop path par name ip = namex_ref (elements path) par name ip"
proof (induction path arbitrary: name ip rule: measure_induct_rule [of length])
  case (less path)
  show ?case
    using skipelem_elements [of path]
  proof (elim disjE exE conjE)
    assume "skipelem path = None" "elements path = []"
    then show ?thesis by (simp add: namex_loop.simps [of path])
  next
    fix rest w
    assume s: "skipelem path = Some (rest, take DIRSIZ w)" and e: "elements path = w # elements rest" "rest = [] \<longleftrightarrow> elements rest = []"
    note IH = less.IH [OF skipelem_shorter [OF s]]
    show ?thesis unfolding e(1) namex_loop.simps [of path] s by (simp add: e(2) IH cong: if_cong)
  qed
qed

end
