(* ===== verification/Sysargs.thy ===== *)
theory Sysargs
  imports Sysfile Ptable
begin

text \<open>
  What the argument checks of \<open>syscall.c\<close> guarantee: the kernel reads arguments, and accepts buffers and
  strings, only within the memory of the calling process.
\<close>

section \<open>The memory of the running process\<close>

text \<open>The memory of process \<open>c\<close>, which runs, is mapped from 0 up to its size, below the kernel.\<close>

definition user_ok :: "'x pst_scheme \<Rightarrow> nat \<Rightarrow> bool" where
  "user_ok s c \<longleftrightarrow> cur s = Some c \<and> sz (procs s ! c) \<le> KERNBASE \<and>
     (\<forall>a. a < sz (procs s ! c) \<longrightarrow> vtrans (mem s) (p2v (cr3 s)) a \<noteq> None)"

text \<open>The byte at a user address.\<close>

definition ubyte :: "'x vmst_scheme \<Rightarrow> uint \<Rightarrow> uchar" where
  "ubyte s a = mem s (the (vtrans (mem s) (p2v (cr3 s)) a))"

definition usize :: "'x pst_scheme \<Rightarrow> nat \<Rightarrow> nat" where
  "usize s c = unat (sz (procs s ! c))"

lemma user_okD:
  assumes "user_ok s c"
  shows "cur s = Some c" "usize s c \<le> 2147483648" "unat a < usize s c \<Longrightarrow> vload a s = Ok (ubyte s a) s"
  using assms by (auto simp: user_ok_def usize_def word_le_nat_alt word_less_nat_alt vload_def ubyte_def KERNBASE_def)

lemma vload32_ok:
  assumes u: "user_ok s c" and a: "unat a + 4 \<le> usize s c"
  shows "vload32 a s = Ok (le32 (ubyte s a) (ubyte s (a + 1)) (ubyte s (a + 2)) (ubyte s (a + 3))) s"
proof -
  have "unat (a + of_nat k) = unat a + k" if "k < 4" for k
    by (rule unat_add_of_nat) (use user_okD(2) [OF u] a that in linarith)
  from this [of 1] this [of 2] this [of 3] have "unat (a + 1) = unat a + 1" "unat (a + 2) = unat a + 2" "unat (a + 3) = unat a + 3" by simp_all
  then show ?thesis using user_okD(3) [OF u] a by (simp add: vload32_def)
qed

section \<open>The checks\<close>

lemma above_iff:
  fixes a z :: uint
  assumes "unat z \<le> 2147483648" "m < 2147483648"
  shows "\<not> (a \<ge> z \<or> a + of_nat m > z) \<longleftrightarrow> unat a < unat z \<and> unat a + m \<le> unat z"
proof (cases "unat a < unat z")
  case True
  then have "unat (a + of_nat m) = unat a + m" by (intro unat_add_of_nat) (use assms in linarith)
  then show ?thesis using True by (auto simp: word_le_nat_alt word_less_nat_alt)
next
  case False
  then show ?thesis by (auto simp: word_le_nat_alt)
qed

definition arg_addr :: "'x pst_scheme \<Rightarrow> nat \<Rightarrow> nat \<Rightarrow> uint" where
  "arg_addr s c n = tf_esp (tf (procs s ! c)) + 4 + 4 * of_nat n"

definition arg_word :: "'x pst_scheme \<Rightarrow> nat \<Rightarrow> nat \<Rightarrow> uint" where
  "arg_word s c n = (let a = arg_addr s c n in le32 (ubyte s a) (ubyte s (a + 1)) (ubyte s (a + 2)) (ubyte s (a + 3)))"

lemma argint_ok:
  assumes u: "user_ok s c"
  shows "argint n s = Ok (if unat (arg_addr s c n) + 4 \<le> usize s c then Some (arg_word s c n) else None) s"
proof -
  note U = user_okD [OF u]
  have "\<not> (arg_addr s c n \<ge> sz (procs s ! c) \<or> arg_addr s c n + 4 > sz (procs s ! c)) \<longleftrightarrow> unat (arg_addr s c n) + 4 \<le> usize s c"
    using above_iff [of "sz (procs s ! c)" 4 "arg_addr s c n"] U(2) by (auto simp: usize_def)
  then have g: "(arg_addr s c n \<ge> sz (procs s ! c) \<or> arg_addr s c n + 4 > sz (procs s ! c)) \<longleftrightarrow> \<not> unat (arg_addr s c n) + 4 \<le> usize s c" by blast
  have "argint n s = fetchint (arg_addr s c n) s" using U(1) by (simp add: argint_def myproc_def arg_addr_def)
  also have "\<dots> = Ok (if unat (arg_addr s c n) + 4 \<le> usize s c then Some (arg_word s c n) else None) s"
    using U(1) vload32_ok [OF u, of "arg_addr s c n"]
    by (simp add: fetchint_def myproc_def g arg_word_def Let_def)
  finally show ?thesis .
qed

lemma argptr_ok:
  assumes u: "user_ok s c" and siz: "0 \<le> siz" "siz < 2147483648"
  shows "argptr n siz s = Ok (if unat (arg_addr s c n) + 4 \<le> usize s c \<and> unat (arg_word s c n) < usize s c \<and>
      unat (arg_word s c n) + nat siz \<le> usize s c then Some (arg_word s c n) else None) s"
proof -
  note U = user_okD [OF u]
  obtain m where m: "siz = int m" "m < 2147483648" using siz by (metis nonneg_int_cases of_nat_less_iff of_nat_numeral)
  let ?p = "arg_word s c n" and ?z = "sz (procs s ! c)"
  have g: "(?p \<ge> ?z \<or> ?p + word_of_int siz > ?z) \<longleftrightarrow> \<not> (unat ?p < usize s c \<and> unat ?p + nat siz \<le> usize s c)"
    using above_iff [of ?z m ?p] U(2) m by (auto simp: usize_def)
  show ?thesis
    using argint_ok [OF u, of n] U(1) by (simp add: argptr_def myproc_def g)
qed

lemma fetchstr_loop_ok:
  assumes "\<forall>k<n. vload (a + of_nat k) s = Ok (f k) s"
  shows "\<exists>r. fetchstr_loop n a s = Ok r s \<and> (case r of None \<Rightarrow> \<forall>k<n. f k \<noteq> 0
    | Some bs \<Rightarrow> length bs < n \<and> f (length bs) = 0 \<and> bs = map f [0..<length bs] \<and> 0 \<notin> set bs)"
  using assms
proof (induction n arbitrary: a f)
  case (Suc n)
  have v: "vload a s = Ok (f 0) s" using Suc.prems [rule_format, of 0] by simp
  show ?case
  proof (cases "f 0 = 0")
    case True
    then show ?thesis using v by simp
  next
    case False
    have "\<forall>k<n. vload (a + 1 + of_nat k) s = Ok (f (Suc k)) s"
    proof (intro allI impI)
      fix k assume "k < n"
      then show "vload (a + 1 + of_nat k) s = Ok (f (Suc k)) s" using Suc.prems [rule_format, of "Suc k"] by (simp add: add.assoc)
    qed
    from Suc.IH [OF this] obtain r where r: "fetchstr_loop n (a + 1) s = Ok r s" "case r of None \<Rightarrow> \<forall>k<n. f (Suc k) \<noteq> 0
      | Some bs \<Rightarrow> length bs < n \<and> f (Suc (length bs)) = 0 \<and> bs = map (\<lambda>k. f (Suc k)) [0..<length bs] \<and> 0 \<notin> set bs" by blast
    then have l: "fetchstr_loop (Suc n) a s = Ok (map_option (\<lambda>bs. f 0 # bs) r) s" using v False by simp
    show ?thesis
    proof (cases r)
      case None
      then have "\<forall>k<Suc n. f k \<noteq> 0" using r(2) False by (simp add: All_less_Suc2)
      then show ?thesis using l None by simp
    next
      case (Some bs)
      then have b: "length bs < n" "f (Suc (length bs)) = 0" "bs = map (\<lambda>k. f (Suc k)) [0..<length bs]" "0 \<notin> set bs" using r(2) by auto
      have "map f [0..<Suc (length bs)] = f 0 # map (\<lambda>k. f (Suc k)) [0..<length bs]"
        by (simp add: upt_conv_Cons map_Suc_upt [symmetric] comp_def del: upt_Suc map_Suc_upt)
      then show ?thesis using l Some b False by (simp del: upt_Suc)
    qed
  qed
qed simp

lemma argstr_ok:
  assumes u: "user_ok s c"
  shows "\<exists>r. argstr n s = Ok r s \<and> (\<forall>bs. r = Some bs \<longrightarrow> (let a = arg_word s c n in
    unat a + length bs < usize s c \<and> bs = map (\<lambda>k. ubyte s (a + of_nat k)) [0..<length bs] \<and> 0 \<notin> set bs \<and>
    ubyte s (a + of_nat (length bs)) = 0))"
proof (cases "unat (arg_addr s c n) + 4 \<le> usize s c \<and> unat (arg_word s c n) < usize s c")
  case False
  then show ?thesis using argint_ok [OF u, of n] user_okD(1) [OF u]
    by (auto simp: argstr_def fetchstr_def myproc_def usize_def word_le_nat_alt)
next
  case True
  let ?a = "arg_word s c n" and ?z = "sz (procs s ! c)"
  have z: "unat (?z - ?a) = usize s c - unat ?a" using True by (simp add: usize_def unat_sub word_le_nat_alt)
  have "vload (?a + of_nat k) s = Ok (ubyte s (?a + of_nat k)) s" if "k < unat (?z - ?a)" for k
  proof (rule user_okD(3) [OF u])
    have "unat (?a + of_nat k) = unat ?a + k" by (rule unat_add_of_nat) (use that z user_okD(2) [OF u] in linarith)
    then show "unat (?a + of_nat k) < usize s c" using that z by linarith
  qed
  from fetchstr_loop_ok [of "unat (?z - ?a)" ?a s "\<lambda>k. ubyte s (?a + of_nat k)"] this obtain r where
    r: "fetchstr_loop (unat (?z - ?a)) ?a s = Ok r s" "case r of None \<Rightarrow> True | Some bs \<Rightarrow> length bs < unat (?z - ?a) \<and>
      ubyte s (?a + of_nat (length bs)) = 0 \<and> bs = map (\<lambda>k. ubyte s (?a + of_nat k)) [0..<length bs] \<and> 0 \<notin> set bs"
    by (auto split: option.splits)
  have "argstr n s = Ok r s"
    using argint_ok [OF u, of n] user_okD(1) [OF u] True r(1)
    by (simp add: argstr_def fetchstr_def myproc_def usize_def word_le_nat_alt)
  then show ?thesis using r(2) z True by (intro exI [of _ r]) (auto simp: Let_def)
qed

lemma argptr_negative:
  assumes u: "user_ok s c" and a: "unat (arg_addr s c n) + 4 \<le> usize s c" "0 < unat (arg_word s c n)" "unat (arg_word s c n) < usize s c"
  shows "argptr n (- 1) s = Ok (Some (arg_word s c n)) s"
proof -
  have "unat (arg_word s c n + word_of_int (- 1)) = unat (arg_word s c n) - 1"
    using a(2) unat_sub [of 1 "arg_word s c n"] by (simp add: word_le_nat_alt)
  then show ?thesis
    using argint_ok [OF u, of n] user_okD(1) [OF u] a
    by (simp add: argptr_def myproc_def usize_def word_le_nat_alt word_less_nat_alt)
qed

section \<open>Properties\<close>

text \<open>
  C10. System call arguments are confined to the caller's memory. Let the memory of the running process
  be mapped up to its size, below the kernel. Then fetching an argument neither faults nor changes the
  state. \<open>argint\<close> returns the word on the user stack exactly when its four bytes are in the process;
  \<open>argptr\<close> with a size that is not negative accepts exactly the buffers that start and end in it;
  a string that \<open>argstr\<close> returns is what user memory holds from the argument on, up to the
  first zero byte, which is in the process as well. A buffer of a negative size is not confined: its start
  alone is checked, as when a caller passes -1 for the number of bytes to read.
\<close>

theorem syscall_args_confined:
  assumes "user_ok s c"
  shows "argint n s = Ok (if unat (arg_addr s c n) + 4 \<le> usize s c then Some (arg_word s c n) else None) s \<and>
    (0 \<le> siz \<longrightarrow> siz < 2147483648 \<longrightarrow>
      (\<exists>r. argptr n siz s = Ok r s \<and> (\<forall>p. r = Some p \<longleftrightarrow> unat (arg_addr s c n) + 4 \<le> usize s c \<and> p = arg_word s c n \<and>
         unat p < usize s c \<and> unat p + nat siz \<le> usize s c))) \<and>
    (\<exists>r. argstr n s = Ok r s \<and> (\<forall>bs. r = Some bs \<longrightarrow> (let a = arg_word s c n in
      unat a + length bs < usize s c \<and> bs = map (\<lambda>k. ubyte s (a + of_nat k)) [0..<length bs] \<and> 0 \<notin> set bs \<and>
      ubyte s (a + of_nat (length bs)) = 0))) \<and>
    (unat (arg_addr s c n) + 4 \<le> usize s c \<longrightarrow> 0 < unat (arg_word s c n) \<longrightarrow> unat (arg_word s c n) < usize s c \<longrightarrow>
      argptr n (- 1) s = Ok (Some (arg_word s c n)) s)"
proof -
  have "\<exists>r. argptr n siz s = Ok r s \<and> (\<forall>p. r = Some p \<longleftrightarrow> unat (arg_addr s c n) + 4 \<le> usize s c \<and> p = arg_word s c n \<and>
        unat p < usize s c \<and> unat p + nat siz \<le> usize s c)" if "0 \<le> siz" "siz < 2147483648"
    using argptr_ok [OF assms that, of n] by auto
  then show ?thesis using argint_ok [OF assms] argstr_ok [OF assms] argptr_negative [OF assms] by blast
qed

text \<open>A process of 32 megabytes, all of them mapped to a page that holds the byte 1.\<close>

definition wit_user :: pst where
  "wit_user = (wit_pt RUNNING)\<lparr>mem := \<lambda>_. 1, procs := [proc_zero\<lparr>sz := 0x2000000\<rparr>], cur := Some 0\<rparr>"

theorem syscall_args_confined_witness:
  "argint 2 wit_user = Ok (Some 0x01010101) wit_user \<and> argptr 2 16 wit_user = Ok (Some 0x01010101) wit_user"
proof -
  have s: "sz (procs wit_user ! 0) = 0x2000000" "cur wit_user = Some 0" "mem wit_user = (\<lambda>_. 1)" "usize wit_user 0 = 0x2000000"
    by (simp_all add: wit_user_def usize_def)
  have u: "user_ok wit_user 0"
    using s by (simp add: user_ok_def vtrans_def Let_def ld32_def le32_def PTE_P_def KERNBASE_def)
  have w: "unat (arg_addr wit_user 0 2) + 4 \<le> usize wit_user 0" "arg_word wit_user 0 2 = 0x01010101"
    using s by (simp_all add: arg_addr_def wit_user_def proc_zero_def tf_zero_def arg_word_def ubyte_def le32_def Let_def)
  show ?thesis using syscall_args_confined [OF u, of 2 16] w s(4) by auto
qed

end
