(* ===== verification/Grep.thy ===== *)
theory Grep
  imports Main
begin

text \<open>
  The pattern matcher and the line loop of \<open>grep.c\<close>. A C string is the list of its characters
  before the NUL, so \<open>re[0] == '\0'\<close> is \<open>re = []\<close>. What \<open>read\<close> returns is an argument: the list of
  the pieces that successive calls put into the buffer.
\<close>

section \<open>The matcher\<close>

function matchhere :: "string \<Rightarrow> string \<Rightarrow> bool"
  and matchstar :: "char \<Rightarrow> string \<Rightarrow> string \<Rightarrow> bool" where
  "matchhere re text =
     (case re of [] \<Rightarrow> True
      | r0 # re1 \<Rightarrow>
          if re1 \<noteq> [] \<and> hd re1 = CHR ''*'' then matchstar r0 (tl re1) text
          else if r0 = CHR ''$'' \<and> re1 = [] then text = []
          else (case text of [] \<Rightarrow> False
                | t0 # text1 \<Rightarrow> (r0 = CHR ''.'' \<or> r0 = t0) \<and> matchhere re1 text1))"
| "matchstar c re text =
     (matchhere re text \<or>
      (case text of [] \<Rightarrow> False
       | t0 # text1 \<Rightarrow> (t0 = c \<or> c = CHR ''.'') \<and> matchstar c re text1))"
  by pat_completeness auto

termination
proof (relation "measures [\<lambda>x. case x of Inl (re, _) \<Rightarrow> 2 * length re | Inr (_, re, _) \<Rightarrow> 2 * length re + 1,
                           \<lambda>x. case x of Inl (_, text) \<Rightarrow> length text | Inr (_, _, text) \<Rightarrow> length text]")
  fix re t :: string and r0 re1
  assume "re = r0 # re1" "re1 \<noteq> [] \<and> hd re1 = CHR ''*''"
  then show "(Inr (r0, tl re1, t), Inl (re, t)) \<in> measures
      [\<lambda>x. case x of Inl (re, _) \<Rightarrow> 2 * length re | Inr (_, re, _) \<Rightarrow> 2 * length re + 1,
       \<lambda>x. case x of Inl (_, text) \<Rightarrow> length text | Inr (_, _, text) \<Rightarrow> length text]"
    by (cases re1) auto
qed auto

declare matchhere.simps [simp del] matchstar.simps [simp del]

primrec match_from :: "string \<Rightarrow> string \<Rightarrow> bool" where
  "match_from re [] = matchhere re []"
| "match_from re (t0 # text1) = (matchhere re (t0 # text1) \<or> match_from re text1)"

definition re_match :: "string \<Rightarrow> string \<Rightarrow> bool" where
  "re_match re text =
     (if re \<noteq> [] \<and> hd re = CHR ''^'' then matchhere (tl re) text else match_from re text)"

section \<open>The lines\<close>

text \<open>\<open>strchr(p, '\n')\<close> on the bytes of the buffer: the line before the newline and the bytes after it.\<close>

fun strchr_nl :: "string \<Rightarrow> (string \<times> string) option" where
  "strchr_nl [] = None"
| "strchr_nl (c # cs) =
     (if c = CHR 0x00 then None
      else if c = CHR 0x0A then Some ([], cs)
      else map_option (\<lambda>(l, r). (c # l, r)) (strchr_nl cs))"

lemma strchr_nl_shorter: "strchr_nl p = Some (l, r) \<Longrightarrow> length r < length p"
proof (induction p arbitrary: l)
  case (Cons c p)
  then show ?case by (fastforce split: if_splits)
qed simp

text \<open>The inner loop: the lines written, and what is left from \<open>p\<close> on.\<close>

function grep_lines :: "string \<Rightarrow> string \<Rightarrow> string list \<times> string" where
  "grep_lines pattern p =
     (case strchr_nl p of None \<Rightarrow> ([], p)
      | Some (l, r) \<Rightarrow>
          let (out, rest) = grep_lines pattern r
          in ((if re_match pattern l then [l @ [CHR 0x0A]] else []) @ out, rest))"
  by pat_completeness auto

termination
  by (relation "measure (\<lambda>(_, p). length p)") (auto dest: strchr_nl_shorter)

declare grep_lines.simps [simp del]

text \<open>
  The outer loop: \<open>kept\<close> are the \<open>m\<close> bytes at the start of \<open>buf\<close>, and the pieces are the results of
  \<open>read\<close>, up to the first that is not positive. When no newline was found, \<open>p == buf\<close> and \<open>m\<close> is
  set to 0.
\<close>

primrec grep_loop :: "string \<Rightarrow> string \<Rightarrow> string list \<Rightarrow> string list" where
  "grep_loop pattern kept [] = []"
| "grep_loop pattern kept (piece # pieces) =
     (if piece = [] then []
      else
        let b = kept @ piece; (out, p) = grep_lines pattern b
        in out @ grep_loop pattern (if length p = length b then [] else p) pieces)"

definition grep :: "string \<Rightarrow> string list \<Rightarrow> string list" where
  "grep pattern = grep_loop pattern []"

text \<open>\<open>main\<close>: the writes with their descriptors; \<open>opens\<close> gives what each file reads as, or fails.\<close>

primrec grep_files :: "(string \<Rightarrow> string list option) \<Rightarrow> string \<Rightarrow> string list \<Rightarrow> (nat \<times> string) list" where
  "grep_files opens pattern [] = []"
| "grep_files opens pattern (f # fs) =
     (case opens f of None \<Rightarrow> [(1, ''grep: cannot open '' @ f @ [CHR 0x0A])]
      | Some pieces \<Rightarrow> map (Pair 1) (grep pattern pieces) @ grep_files opens pattern fs)"

definition grep_main :: "(string \<Rightarrow> string list option) \<Rightarrow> string list \<Rightarrow> string list \<Rightarrow> (nat \<times> string) list" where
  "grep_main opens stdin args =
     (case args of [] \<Rightarrow> [(2, ''usage: grep pattern [file ...]'' @ [CHR 0x0A])]
      | [pattern] \<Rightarrow> map (Pair 1) (grep pattern stdin)
      | pattern # fs \<Rightarrow> grep_files opens pattern fs)"

section \<open>What a pattern means\<close>

text \<open>
  A pattern is a list of items, each a character or \<open>.\<close>, once or starred, possibly anchored at the
  ends. A star that follows nothing, or another star's item, is an ordinary character.
\<close>

datatype item = Once char | Star char

definition charset :: "char \<Rightarrow> char set" where
  "charset c = (if c = CHR ''.'' then UNIV else {c})"

primrec item_lang :: "item \<Rightarrow> string set" where
  "item_lang (Once c) = (\<lambda>x. [x]) ` charset c"
| "item_lang (Star c) = lists (charset c)"

primrec items_lang :: "item list \<Rightarrow> string set" where
  "items_lang [] = {[]}"
| "items_lang (i # is) = {u @ v | u v. u \<in> item_lang i \<and> v \<in> items_lang is}"

fun re_items :: "string \<Rightarrow> item list \<times> bool" where
  "re_items [] = ([], False)"
| "re_items [c] = (if c = CHR ''$'' then ([], True) else ([Once c], False))"
| "re_items (c # d # re) =
     (if d = CHR ''*'' then apfst ((#) (Star c)) (re_items re) else apfst ((#) (Once c)) (re_items (d # re)))"

definition prefix_lang :: "item list \<times> bool \<Rightarrow> string set" where
  "prefix_lang p = {u @ v | u v. u \<in> items_lang (fst p) \<and> (snd p \<longrightarrow> v = [])}"

lemma prefix_lang_Cons:
  "prefix_lang (apfst ((#) i) p) = {u @ v | u v. u \<in> item_lang i \<and> v \<in> prefix_lang p}"
proof -
  have "(\<exists>a b. t = a @ b \<and> (\<exists>u v. a = u @ v \<and> u \<in> item_lang i \<and> v \<in> items_lang (fst p)) \<and> (snd p \<longrightarrow> b = [])) \<longleftrightarrow>
      (\<exists>u w. t = u @ w \<and> u \<in> item_lang i \<and> (\<exists>v b. w = v @ b \<and> v \<in> items_lang (fst p) \<and> (snd p \<longrightarrow> b = [])))" for t
    by (metis append.assoc)
  then show ?thesis by (auto simp: prefix_lang_def)
qed

lemma prefix_lang_Once:
  "t \<in> prefix_lang (apfst ((#) (Once c)) p) \<longleftrightarrow>
   (case t of [] \<Rightarrow> False | x # xs \<Rightarrow> x \<in> charset c \<and> xs \<in> prefix_lang p)"
proof -
  have "(\<exists>u v. t = u @ v \<and> u \<in> (\<lambda>x. [x]) ` charset c \<and> v \<in> prefix_lang p) \<longleftrightarrow>
      (\<exists>x v. t = [x] @ v \<and> x \<in> charset c \<and> v \<in> prefix_lang p)" by blast
  then show ?thesis by (cases t) (auto simp: prefix_lang_Cons)
qed

lemma prefix_lang_Star:
  "t \<in> prefix_lang (apfst ((#) (Star c)) p) \<longleftrightarrow>
   t \<in> prefix_lang p \<or> (case t of [] \<Rightarrow> False | x # xs \<Rightarrow> x \<in> charset c \<and> xs \<in> prefix_lang (apfst ((#) (Star c)) p))"
  (is "?l \<longleftrightarrow> ?r")
proof
  assume ?l
  then obtain u v where uv: "t = u @ v" "u \<in> lists (charset c)" "v \<in> prefix_lang p"
    by (auto simp: prefix_lang_Cons)
  then show ?r by (cases u) (auto simp: prefix_lang_Cons)
next
  assume ?r
  then show ?l
  proof
    assume "t \<in> prefix_lang p"
    then have "t = [] @ t \<and> [] \<in> lists (charset c) \<and> t \<in> prefix_lang p" by simp
    then show ?l unfolding prefix_lang_Cons item_lang.simps mem_Collect_eq by blast
  next
    assume "case t of [] \<Rightarrow> False | x # xs \<Rightarrow> x \<in> charset c \<and> xs \<in> prefix_lang (apfst ((#) (Star c)) p)"
    then obtain x u v where "t = x # (u @ v)" "x \<in> charset c" "u \<in> lists (charset c)" "v \<in> prefix_lang p"
      by (auto simp: prefix_lang_Cons split: list.splits)
    then have "t = (x # u) @ v \<and> x # u \<in> lists (charset c) \<and> v \<in> prefix_lang p" by simp
    then show ?l unfolding prefix_lang_Cons item_lang.simps mem_Collect_eq by blast
  qed
qed

lemma prefix_lang_nil: "t \<in> prefix_lang ([], e) \<longleftrightarrow> (e \<longrightarrow> t = [])"
  by (auto simp: prefix_lang_def)

lemma matchhere_Nil: "matchhere [] t"
  by (simp add: matchhere.simps)

lemma matchhere_one:
  "matchhere [c] t = (if c = CHR ''$'' then t = [] else t \<noteq> [] \<and> hd t \<in> charset c)"
  by (subst matchhere.simps) (auto simp: matchhere_Nil charset_def split: list.splits)

lemma matchhere_more:
  "matchhere (c # d # re) t =
     (if d = CHR ''*'' then matchstar c re t
      else case t of [] \<Rightarrow> False | x # xs \<Rightarrow> x \<in> charset c \<and> matchhere (d # re) xs)"
  by (subst matchhere.simps) (auto simp: charset_def split: list.splits)

lemma matcher_lang:
  "matchhere re t \<longleftrightarrow> t \<in> prefix_lang (re_items re)"
  "matchstar c re t \<longleftrightarrow> t \<in> prefix_lang (apfst ((#) (Star c)) (re_items re))"
proof (induction re t and c re t rule: matchhere_matchstar.induct)
  case (1 re t)
  note IH = "1.IH"
  show ?case
  proof (cases re rule: re_items.cases)
    case 1
    then show ?thesis by (simp add: matchhere_Nil prefix_lang_nil)
  next
    case (2 c)
    then show ?thesis
      using prefix_lang_Once [of t c "([], False)"]
      by (cases t) (simp_all add: matchhere_one prefix_lang_nil)
  next
    case (3 c d re')
    show ?thesis
    proof (cases "d = CHR ''*''")
      case True
      then have "matchstar c re' t \<longleftrightarrow> t \<in> prefix_lang (apfst ((#) (Star c)) (re_items re'))"
        using IH(1) [of c "d # re'"] 3 by simp
      then show ?thesis using True 3 by (simp add: matchhere_more)
    next
      case False
      then have "matchhere (d # re') t1 \<longleftrightarrow> t1 \<in> prefix_lang (re_items (d # re'))" 
          if "t = t0 # t1" "t0 \<in> charset c" for t0 t1
        using IH(2) [of c "d # re'" t0 t1] 3 that by (simp add: charset_def split: if_splits)
      then show ?thesis using False 3
        by (cases t) (auto simp: matchhere_more prefix_lang_Once)
    qed
  qed
next
  case (2 c re t)
  then show ?case unfolding matchstar.simps [of c re t] prefix_lang_Star [of t]
    by (cases t) (auto simp: charset_def)
qed

section \<open>Matching\<close>

definition re_anchored :: "string \<Rightarrow> bool" where
  "re_anchored re \<longleftrightarrow> re \<noteq> [] \<and> hd re = CHR ''^''"

definition re_spec :: "string \<Rightarrow> item list \<times> bool" where
  "re_spec re = re_items (if re_anchored re then tl re else re)"

lemma match_from_iff: "match_from re t \<longleftrightarrow> (\<exists>u v. t = u @ v \<and> matchhere re v)"
proof (induction t)
  case (Cons x t)
  have "(\<exists>u v. x # t = u @ v \<and> matchhere re v) \<longleftrightarrow> matchhere re (x # t) \<or> (\<exists>u v. t = u @ v \<and> matchhere re v)"
    by (auto simp: Cons_eq_append_conv)
  then show ?case using Cons by simp
qed simp

text \<open>
  C13.
  The matcher decides exactly what its pattern means: some part of the line is in the language of
  the items (a character, \<open>.\<close> for any, either one starred), beginning at the start of the line under
  \<open>^\<close> and ending at its end under \<open>$\<close>. The backtracking of \<open>matchstar\<close> misses no match and
  accepts nothing else.
\<close>

theorem match_language:
  "re_match re t \<longleftrightarrow>
   (\<exists>u v w. t = u @ v @ w \<and> v \<in> items_lang (fst (re_spec re)) \<and>
      (u = [] \<or> \<not> re_anchored re) \<and> (w = [] \<or> \<not> snd (re_spec re)))"
proof -
  have *: "matchhere p t \<longleftrightarrow> (\<exists>v w. t = v @ w \<and> v \<in> items_lang (fst (re_items p)) \<and> (w = [] \<or> \<not> snd (re_items p)))" for p t
    by (auto simp: matcher_lang prefix_lang_def)
  show ?thesis
  proof (cases "re_anchored re")
    case True
    then show ?thesis by (simp add: re_match_def re_anchored_def re_spec_def *)
  next
    case False
    then show ?thesis by (auto simp: re_match_def re_anchored_def re_spec_def match_from_iff *)
  qed
qed

theorem match_language_witness: "re_match ''^a.*c$'' ''abbc'' \<and> \<not> re_match ''b$'' ''abbc''"
proof
  have "''abbc'' \<in> items_lang (fst (re_spec ''^a.*c$''))"
  proof -
    have "''abbc'' = ''a'' @ ''bb'' @ ''c'' @ []" "''bb'' \<in> lists UNIV" by simp_all
    moreover have "fst (re_spec ''^a.*c$'') = [Once CHR ''a'', Star CHR ''.'', Once CHR ''c'']"
      by (simp add: re_spec_def re_anchored_def)
    ultimately show ?thesis by (auto simp: charset_def)
  qed
  then have "\<exists>u v w. ''abbc'' = u @ v @ w \<and> v \<in> items_lang (fst (re_spec ''^a.*c$'')) \<and>
      (u = [] \<or> \<not> re_anchored ''^a.*c$'') \<and> (w = [] \<or> \<not> snd (re_spec ''^a.*c$''))"
    by (intro exI [of _ "[]"] exI [of _ "''abbc''"]) simp
  then show "re_match ''^a.*c$'' ''abbc''" by (simp only: match_language)
  have "fst (re_spec ''b$'') = [Once CHR ''b'']" "snd (re_spec ''b$'')"
    by (simp_all add: re_spec_def re_anchored_def)
  moreover have "''abbc'' \<noteq> u @ ''b''" for u
  proof
    assume "''abbc'' = u @ ''b''"
    then have "last ''abbc'' = last (u @ ''b'')" by simp
    then show False by simp
  qed
  ultimately show "\<not> re_match ''b$'' ''abbc''" by (auto simp: match_language charset_def)
qed

section \<open>Searching\<close>

text \<open>The complete lines of a text, and what follows the last newline.\<close>

fun text_lines :: "string \<Rightarrow> string list \<times> string" where
  "text_lines [] = ([], [])"
| "text_lines (c # cs) =
     (if c = CHR 0x0A then apfst ((#) []) (text_lines cs)
      else case text_lines cs of ([], r) \<Rightarrow> ([], c # r) | (l # ls, r) \<Rightarrow> ((c # l) # ls, r))"

definition unlines :: "string list \<Rightarrow> string" where
  "unlines ls = concat (map (\<lambda>l. l @ [CHR 0x0A]) ls)"

text \<open>
  The part of the input that is searched: a piece without a newline is lost, and with it the
  beginning of its line from the pieces before.
\<close>

primrec heard :: "string \<Rightarrow> string list \<Rightarrow> string" where
  "heard acc [] = acc"
| "heard acc (piece # pieces) =
     heard (if CHR 0x0A \<in> set piece then acc @ piece else unlines (fst (text_lines acc))) pieces"

lemma text_lines_strchr:
  assumes "CHR 0x00 \<notin> set p"
  shows "text_lines p = (case strchr_nl p of None \<Rightarrow> ([], p) | Some (l, r) \<Rightarrow> apfst ((#) l) (text_lines r))"
  using assms
proof (induction p)
  case (Cons c p)
  then show ?case by (cases "strchr_nl p") (auto simp: apfst_def map_prod_def split: prod.splits)
qed simp

lemma strchr_nl_set: "strchr_nl p = Some (l, r) \<Longrightarrow> set r \<subseteq> set p"
proof (induction p arbitrary: l)
  case (Cons c p)
  then show ?case by (fastforce split: if_splits)
qed simp

lemma grep_lines_eq:
  assumes "CHR 0x00 \<notin> set p"
  shows "grep_lines pat p =
    (map (\<lambda>l. l @ [CHR 0x0A]) (filter (re_match pat) (fst (text_lines p))), snd (text_lines p))"
  using assms
proof (induction pat p rule: grep_lines.induct)
  case (1 pat p)
  show ?case
  proof (cases "strchr_nl p")
    case None
    then show ?thesis using 1(2) by (simp add: grep_lines.simps [of pat p] text_lines_strchr [of p])
  next
    case (Some x)
    obtain l r where x: "x = (l, r)" by (cases x)
    then have "CHR 0x00 \<notin> set r" using 1(2) strchr_nl_set Some by blast
    then show ?thesis using 1(1) [OF Some] 1(2) Some x
      by (simp add: grep_lines.simps [of pat p] text_lines_strchr [of p])
  qed
qed

lemma text_lines_append:
  "text_lines (a @ b) = apfst ((@) (fst (text_lines a))) (text_lines (snd (text_lines a) @ b))"
proof (induction a)
  case (Cons c a)
  obtain ls r where a: "text_lines a = (ls, r)" by (cases "text_lines a")
  obtain ks q where b: "text_lines (r @ b) = (ks, q)" by (cases "text_lines (r @ b)")
  have "text_lines (a @ b) = (ls @ ks, q)" using Cons a b by simp
  then show ?case using a b by (cases ls; cases ks) auto
qed (simp add: apfst_def map_prod_def)

lemma text_lines_none: "CHR 0x0A \<notin> set p \<Longrightarrow> text_lines p = ([], p)"
  by (induction p) auto

lemma text_lines_rest: "set (snd (text_lines p)) \<subseteq> set p - {CHR 0x0A}"
proof (induction p)
  case (Cons c p)
  then show ?case by (cases "text_lines p"; cases "fst (text_lines p)") auto
qed simp

lemma text_lines_length: "length (snd (text_lines p)) = length p \<longleftrightarrow> CHR 0x0A \<notin> set p"
proof -
  have "length (snd (text_lines p)) \<le> length p" for p
    by (induction p) (auto split: prod.splits list.splits)
  moreover have "CHR 0x0A \<in> set p \<Longrightarrow> length (snd (text_lines p)) < length p"
  proof (induction p)
    case (Cons c p)
    then show ?case using calculation [of p]
      by (cases "text_lines p"; cases "fst (text_lines p)") (auto simp: text_lines_none)
  qed simp
  ultimately show ?thesis by (auto simp: text_lines_none)
qed

lemma text_lines_unlines:
  "\<forall>l\<in>set ls. CHR 0x0A \<notin> set l \<Longrightarrow> text_lines (unlines ls) = (ls, [])"
proof (induction ls)
  case (Cons l ls)
  have "text_lines ((l @ [CHR 0x0A]) @ b) = apfst ((#) l) (text_lines b)" if "CHR 0x0A \<notin> set l" for b
    using that by (induction l) (auto simp: apfst_def map_prod_def split: prod.splits)
  then show ?case using Cons by (simp add: unlines_def)
qed (simp add: unlines_def)

lemma text_lines_fst: "\<forall>l\<in>set (fst (text_lines p)). CHR 0x0A \<notin> set l"
  by (induction p) (auto split: prod.splits list.splits)

lemma text_lines_set: "\<forall>l\<in>set (fst (text_lines p)). set l \<subseteq> set p"
proof (induction p)
  case (Cons c p)
  then show ?case by (cases "text_lines p"; cases "fst (text_lines p)") auto
qed simp

lemma grep_loop_heard:
  assumes "\<forall>p\<in>set pieces. p \<noteq> [] \<and> CHR 0x00 \<notin> set p" "CHR 0x00 \<notin> set acc"
  shows "map (\<lambda>l. l @ [CHR 0x0A]) (filter (re_match pat) (fst (text_lines acc))) @
      grep_loop pat (snd (text_lines acc)) pieces =
    map (\<lambda>l. l @ [CHR 0x0A]) (filter (re_match pat) (fst (text_lines (heard acc pieces))))"
  using assms
proof (induction pieces arbitrary: acc)
  case (Cons p pieces)
  let ?r = "snd (text_lines acc)"
  have nul: "CHR 0x00 \<notin> set (?r @ p)" using Cons.prems text_lines_rest [of acc] by auto
  have len: "length (snd (text_lines (?r @ p))) = length ?r + length p \<longleftrightarrow> CHR 0x0A \<notin> set p"
    using text_lines_length [of "?r @ p"] text_lines_rest [of acc] by auto
  show ?case
  proof (cases "CHR 0x0A \<in> set p")
    case True
    then show ?thesis using Cons.IH [of "acc @ p"] Cons.prems nul len text_lines_append [of acc p]
      by (simp add: grep_lines_eq [OF nul] len Let_def)
  next
    case False
    have *: "text_lines (unlines (fst (text_lines acc))) = (fst (text_lines acc), [])"
      by (rule text_lines_unlines [OF text_lines_fst])
    have "CHR 0x0A \<notin> set (?r @ p)" using False text_lines_rest [of acc] by auto
    then have "text_lines (?r @ p) = ([], ?r @ p)" by (rule text_lines_none)
    moreover have "CHR 0x00 \<notin> set (unlines (fst (text_lines acc)))"
      using Cons.prems(2) text_lines_set [of acc] by (auto simp: unlines_def)
    ultimately show ?thesis
      using Cons.IH [of "unlines (fst (text_lines acc))"] Cons.prems nul False *
      by (simp add: grep_lines_eq [OF nul] Let_def)
  qed
qed simp

text \<open>
  C39.
  \<open>grep\<close> prints the matching lines, in order and each once, of the text it hears: when every piece
  that \<open>read\<close> returns has a newline, that text is the whole input, however the pieces cut the lines.
  A piece without a newline is dropped together with the beginning of its line.
\<close>

theorem grep_prints:
  assumes "\<forall>p\<in>set pieces. p \<noteq> [] \<and> CHR 0x00 \<notin> set p"
  shows "grep pat pieces = map (\<lambda>l. l @ [CHR 0x0A]) (filter (re_match pat) (fst (text_lines (heard [] pieces)))) \<and>
    ((\<forall>p\<in>set pieces. CHR 0x0A \<in> set p) \<longrightarrow> heard [] pieces = concat pieces)"
proof -
  have "\<forall>p\<in>set ps. CHR 0x0A \<in> set p \<Longrightarrow> heard acc ps = acc @ concat ps" for acc ps
    by (induction ps arbitrary: acc) simp_all
  then show ?thesis using grep_loop_heard [OF assms, of "[]" pat] by (simp add: grep_def)
qed

text \<open>A line cut in two is found when the next piece ends it, and lost when it comes in three.\<close>

theorem grep_prints_witness:
  "grep ''ab'' [''x\<newline>a'', ''b\<newline>''] = [''ab\<newline>''] \<and> grep ''ab'' [''x\<newline>a'', ''b'', ''c\<newline>''] = []"
proof -
  have m: "\<not> re_match ''ab'' ''x''" "re_match ''ab'' ''ab''" "\<not> re_match ''ab'' ''c''" by code_simp+
  show ?thesis
    using grep_prints [of "[''x\<newline>a'', ''b\<newline>'']" "''ab''"] grep_prints [of "[''x\<newline>a'', ''b'', ''c\<newline>'']" "''ab''"]
    by (simp add: m unlines_def)
qed

end
