(* ===== verification/Shell.thy ===== *)
theory Shell
  imports Main "HOL-Library.Sublist"
begin

text \<open>
  The command language of \<open>sh.c\<close>. The line is a list of characters, its NUL not included, and a
  pointer into it is the part of the line that it points to: \<open>es\<close> is \<open>[]\<close>, and \<open>s < es\<close> says that
  the list is not empty. The recursion of the parser goes through four functions; it is bounded by
  a depth that is shown to be enough for every line.
\<close>

section \<open>Tokens\<close>

definition whitespace :: string where
  "whitespace = [CHR 0x20, CHR 0x09, CHR 0x0D, CHR 0x0A, CHR 0x0B]"

definition symbols :: string where
  "symbols = ''<|>&;()''"

definition skip_ws :: "string \<Rightarrow> string" where
  "skip_ws = dropWhile (\<lambda>c. c \<in> set whitespace)"

text \<open>\<open>gettoken\<close>: the kind of the token, its ends \<open>q\<close> and \<open>eq\<close>, and where the next one begins.\<close>

definition gettoken :: "string \<Rightarrow> char \<times> string \<times> string \<times> string" where
  "gettoken ps =
     (case skip_ws ps of
        [] \<Rightarrow> (CHR 0x00, [], [], [])
      | c # s \<Rightarrow>
          if c \<in> set ''|();&<'' then (c, c # s, s, skip_ws s)
          else if c = CHR ''>'' then
            (case s of
               d # s' \<Rightarrow> if d = CHR ''>'' then (CHR ''+'', c # s, s', skip_ws s') else (c, c # s, s, skip_ws s)
             | [] \<Rightarrow> (c, c # s, s, skip_ws s))
          else
            let s' = dropWhile (\<lambda>c. c \<notin> set whitespace \<and> c \<notin> set symbols) (c # s)
            in (CHR ''a'', c # s, s', skip_ws s'))"

text \<open>\<open>peek\<close> also moves to the next token; its result is the second component.\<close>

definition peek :: "string \<Rightarrow> string \<Rightarrow> string \<times> bool" where
  "peek ps toks = (let s = skip_ws ps in (s, s \<noteq> [] \<and> hd s \<in> set toks))"

section \<open>Commands\<close>

text \<open>A word is the pair of its two pointers.\<close>

type_synonym span = "string \<times> string"

datatype 'w cmd =
    EXEC "'w list"
  | REDIR "'w cmd" 'w nat nat
  | PIPE "'w cmd" "'w cmd"
  | LIST "'w cmd" "'w cmd"
  | BACK "'w cmd"

definition MAXARGS :: nat where "MAXARGS = 10"

text \<open>The modes \<open>O_RDONLY\<close> and \<open>O_WRONLY|O_CREATE\<close> of \<open>fcntl.h\<close>.\<close>

definition mode_read :: nat where "mode_read = 0"
definition mode_write :: nat where "mode_write = 0x201"

text \<open>A parser gives a value and the rest of the line, or the shell's \<open>panic\<close>.\<close>

datatype 'a pres = Parsed 'a string | Refused string | Too_deep

primrec pbind :: "'a pres \<Rightarrow> ('a \<Rightarrow> string \<Rightarrow> 'b pres) \<Rightarrow> 'b pres" where
  "pbind (Parsed a s) f = f a s"
| "pbind (Refused e) f = Refused e"
| "pbind Too_deep f = Too_deep"

definition redir_of :: "char \<Rightarrow> span \<Rightarrow> span cmd \<Rightarrow> span cmd" where
  "redir_of tok w c =
     (if tok = CHR ''<'' then REDIR c w mode_read 0
      else if tok = CHR ''>'' then REDIR c w mode_write 1
      else if tok = CHR ''+'' then REDIR c w mode_write 1
      else c)"

lemma skip_ws_length [simp]: "length (skip_ws s) \<le> length s"
  by (simp add: skip_ws_def length_dropWhile_le)

lemma dropWhile_shorter: "P x \<Longrightarrow> length (dropWhile P (x # xs)) < Suc (length xs)"
  by (simp add: length_dropWhile_le less_Suc_eq_le)

lemma gettoken_shorter:
  assumes "gettoken ps = (t, q, eq, s)" "t \<noteq> CHR 0x00"
  shows "length s < length ps"
proof (cases "skip_ws ps")
  case Nil
  then show ?thesis using assms by (simp add: gettoken_def)
next
  case (Cons c r)
  then have "Suc (length r) \<le> length ps" using skip_ws_length [of ps] by simp
  moreover have "length s \<le> length r"
  proof -
    let ?w = "dropWhile (\<lambda>c. c \<notin> set whitespace \<and> c \<notin> set symbols) (c # r)"
    have "c \<notin> set whitespace" using Cons by (auto simp: skip_ws_def dropWhile_eq_Cons_conv)
    then have "length ?w \<le> length r" if "c \<notin> set ''|();&<''" "c \<noteq> CHR ''>''"
      using that by (auto simp: symbols_def length_dropWhile_le)
    moreover have "length (skip_ws x) \<le> length r" if "length x \<le> length r" for x
      using that skip_ws_length le_trans by blast
    ultimately show ?thesis using assms Cons
      by (fastforce simp: gettoken_def Let_def split: if_splits list.splits)
  qed
  ultimately show ?thesis by simp
qed

lemma peek_length: "peek ps toks = (s, b) \<Longrightarrow> length s \<le> length ps"
  by (auto simp: peek_def Let_def)

lemma gettoken_end: "fst (gettoken ps) = CHR 0x00 \<longleftrightarrow> skip_ws ps = []"
  by (auto simp: gettoken_def Let_def split: list.splits)

lemma skip_ws_idem [simp]: "skip_ws (skip_ws s) = skip_ws s"
  by (simp add: skip_ws_def)

lemma peek_token:
  assumes "peek ps toks = (s, True)" "gettoken s = (t, q, eq, s')"
  shows "length s' < length ps"
proof -
  have "s = skip_ws ps" "s \<noteq> []" using assms(1) by (auto simp: peek_def Let_def)
  then have "t \<noteq> CHR 0x00" using gettoken_end [of s] assms(2) by auto
  then show ?thesis using gettoken_shorter [OF assms(2)] peek_length [OF assms(1)] by simp
qed

lemma redirs_shorter:
  assumes "peek ps ''<>'' = (s, True)" "gettoken s = (tok, q0, e0, s1)" "gettoken s1 = (CHR ''a'', q, eq, s2)"
  shows "length s2 < length ps"
  using gettoken_shorter [OF assms(3)] peek_token [OF assms(1,2)] by simp

text \<open>
  \<open>parseredirs\<close> returns what it wraps around its argument: the command inside is still being
  filled when the redirections are read.
\<close>

function parseredirs :: "(span cmd \<Rightarrow> span cmd) \<Rightarrow> string \<Rightarrow> (span cmd \<Rightarrow> span cmd) pres" where
  "parseredirs f ps =
     (let (s, yes) = peek ps ''<>'' in
      if yes then
        let (tok, _, _, s1) = gettoken s; (a, q, eq, s2) = gettoken s1 in
        if a \<noteq> CHR ''a'' then Refused ''missing file for redirection''
        else parseredirs (\<lambda>c. redir_of tok (q, eq) (f c)) s2
      else Parsed f s)"
  by pat_completeness auto

termination
  by (relation "measure (\<lambda>(_, s). length s)") (auto dest: redirs_shorter [OF sym sym sym])

declare parseredirs.simps [simp del]

lemma parseredirs_length: "parseredirs f ps = Parsed g s \<Longrightarrow> length s \<le> length ps"
proof (induction f ps rule: parseredirs.induct)
  case (1 f ps)
  obtain s0 yes where p: "peek ps ''<>'' = (s0, yes)" by fastforce
  obtain tok q0 e0 s1 where g: "gettoken s0 = (tok, q0, e0, s1)" by (cases "gettoken s0")
  obtain a q eq s2 where h: "gettoken s1 = (a, q, eq, s2)" by (cases "gettoken s1")
  show ?case
  proof (cases yes)
    case True
    then have "a = CHR ''a''" "parseredirs (\<lambda>c. redir_of tok (q, eq) (f c)) s2 = Parsed g s"
      using "1.prems" p g h by (auto simp: parseredirs.simps [of f ps] split: if_splits)
    moreover from this True have "length s \<le> length s2" using "1.IH" p g h by auto
    ultimately show ?thesis using redirs_shorter p g h True by fastforce
  qed (use "1.prems" p peek_length in \<open>auto simp: parseredirs.simps [of f ps]\<close>)
qed

lemma args_shorter:
  assumes "peek ps toks = (s, b)" "gettoken s = (CHR ''a'', q, eq, s1)" "parseredirs f s1 = Parsed g s2"
  shows "length s2 < length ps"
  using peek_length [OF assms(1)] gettoken_shorter [OF assms(2)] parseredirs_length [OF assms(3)] by simp

text \<open>The loop over the arguments in \<open>parseexec\<close>.\<close>

function parseargs :: "span list \<Rightarrow> (span cmd \<Rightarrow> span cmd) \<Rightarrow> string \<Rightarrow> span cmd pres" where
  "parseargs args f ps =
     (let (s, stop) = peek ps ''|)&;'' in
      if stop then Parsed (f (EXEC args)) s
      else
        let (tok, q, eq, s1) = gettoken s in
        if tok = CHR 0x00 then Parsed (f (EXEC args)) s1
        else if tok \<noteq> CHR ''a'' then Refused ''syntax''
        else if length args + 1 \<ge> MAXARGS then Refused ''too many args''
        else
          case parseredirs f s1 of
            Parsed g s2 \<Rightarrow> parseargs (args @ [(q, eq)]) g s2
          | Refused e \<Rightarrow> Refused e
          | Too_deep \<Rightarrow> Too_deep)"
  by pat_completeness auto

termination
  by (relation "measure (\<lambda>(_, _, s). length s)") (auto dest: args_shorter [OF sym sym])

declare parseargs.simps [simp del]

section \<open>The grammar\<close>

text \<open>The loop over \<open>&\<close> in \<open>parseline\<close>.\<close>

function parseback :: "span cmd \<Rightarrow> string \<Rightarrow> span cmd pres" where
  "parseback c ps =
     (let (s, yes) = peek ps ''&'' in
      if yes then let (_, _, _, s1) = gettoken s in parseback (BACK c) s1 else Parsed c s)"
  by pat_completeness auto

termination
  by (relation "measure (\<lambda>(_, s). length s)") (auto dest: peek_token [OF sym sym])

declare parseback.simps [simp del]

fun parseline :: "nat \<Rightarrow> string \<Rightarrow> span cmd pres"
  and parsepipe :: "nat \<Rightarrow> string \<Rightarrow> span cmd pres"
  and parseexec :: "nat \<Rightarrow> string \<Rightarrow> span cmd pres"
  and parseblock :: "nat \<Rightarrow> string \<Rightarrow> span cmd pres" where
  "parseline 0 ps = Too_deep"
| "parseline (Suc n) ps =
     pbind (parsepipe n ps) (\<lambda>c s.
     pbind (parseback c s) (\<lambda>c s.
     let (s, yes) = peek s '';'' in
     if yes then
       let (_, _, _, s1) = gettoken s in pbind (parseline n s1) (\<lambda>d s. Parsed (LIST c d) s)
     else Parsed c s))"
| "parsepipe 0 ps = Too_deep"
| "parsepipe (Suc n) ps =
     pbind (parseexec n ps) (\<lambda>c s.
     let (s, yes) = peek s ''|'' in
     if yes then
       let (_, _, _, s1) = gettoken s in pbind (parsepipe n s1) (\<lambda>d s. Parsed (PIPE c d) s)
     else Parsed c s)"
| "parseexec 0 ps = Too_deep"
| "parseexec (Suc n) ps =
     (let (s, yes) = peek ps ''('' in
      if yes then parseblock n s else pbind (parseredirs id s) (\<lambda>f s. parseargs [] f s))"
| "parseblock 0 ps = Too_deep"
| "parseblock (Suc n) ps =
     (let (s, yes) = peek ps ''('' in
      if \<not> yes then Refused ''parseblock''
      else
        let (_, _, _, s1) = gettoken s in
        pbind (parseline n s1) (\<lambda>c s2.
        let (s2, yes) = peek s2 '')'' in
        if \<not> yes then Refused ''syntax - missing )''
        else
          let (_, _, _, s3) = gettoken s2 in
          pbind (parseredirs id s3) (\<lambda>f s. Parsed (f c) s)))"

text \<open>
  \<open>nulterminate\<close> writes a NUL at the end of every word. The buffer is the line with its NUL, and
  the pointer \<open>eq\<close> is \<open>length eq\<close> places before that NUL.
\<close>

definition put_nul :: "span \<Rightarrow> string \<Rightarrow> string" where
  "put_nul w buf = buf[length buf - 1 - length (snd w) := CHR 0x00]"

primrec nulterminate :: "span cmd \<Rightarrow> string \<Rightarrow> string" where
  "nulterminate (EXEC ws) buf = fold put_nul ws buf"
| "nulterminate (REDIR c w m fd) buf = put_nul w (nulterminate c buf)"
| "nulterminate (PIPE l r) buf = nulterminate r (nulterminate l buf)"
| "nulterminate (LIST l r) buf = nulterminate r (nulterminate l buf)"
| "nulterminate (BACK c) buf = nulterminate c buf"

text \<open>\<open>parsecmd\<close>: the command and the buffer its words point into.\<close>

definition depth_for :: "string \<Rightarrow> nat" where
  "depth_for s = 4 * length s + 4"

definition parsecmd :: "string \<Rightarrow> (span cmd \<times> string) pres" where
  "parsecmd s =
     pbind (parseline (depth_for s) s) (\<lambda>c s1.
     let (s2, _) = peek s1 [] in
     if s2 \<noteq> [] then Refused ''syntax'' else Parsed (c, nulterminate c (s @ [CHR 0x00])) s2)"

text \<open>The C string at a pointer of the buffer, and the command with its strings as \<open>runcmd\<close> reads them.\<close>

definition cstring_at :: "string \<Rightarrow> span \<Rightarrow> string" where
  "cstring_at buf w = takeWhile (\<lambda>c. c \<noteq> CHR 0x00) (drop (length buf - 1 - length (fst w)) buf)"

section \<open>Depth\<close>

lemma pbind_cases:
  "pbind r f = Parsed b s' \<longleftrightarrow> (\<exists>a s. r = Parsed a s \<and> f a s = Parsed b s')"
  "pbind r f = Too_deep \<longleftrightarrow> r = Too_deep \<or> (\<exists>a s. r = Parsed a s \<and> f a s = Too_deep)"
  by (cases r; simp)+

lemma parseredirs_total: "parseredirs f ps \<noteq> Too_deep"
proof (induction f ps rule: parseredirs.induct)
  case (1 f ps)
  then show ?case by (subst parseredirs.simps) (auto split: prod.splits)
qed

lemma parseargs_total: "parseargs args f ps \<noteq> Too_deep"
proof (induction args f ps rule: parseargs.induct)
  case (1 args f ps)
  then show ?case
    by (subst parseargs.simps) (auto simp: parseredirs_total split: prod.splits pres.splits)
qed

section \<open>Words\<close>

definition word_char :: "char \<Rightarrow> bool" where
  "word_char c \<longleftrightarrow> c \<notin> set whitespace \<and> c \<notin> set symbols"

text \<open>A word of the line: it cannot be longer, since it ends at a separator or at the end.\<close>

definition span_ok :: "string \<Rightarrow> span \<Rightarrow> bool" where
  "span_ok line w \<longleftrightarrow>
     (\<exists>a x. line = a @ x @ snd w \<and> fst w = x @ snd w \<and> x \<noteq> [] \<and> list_all word_char x) \<and>
     (snd w = [] \<or> \<not> word_char (hd (snd w)))"

lemma span_ok_suffix: "span_ok ps w \<Longrightarrow> suffix ps line \<Longrightarrow> span_ok line w"
  unfolding span_ok_def suffix_def by (metis append.assoc)

lemma skip_ws_suffix: "suffix (skip_ws s) s"
  by (simp add: skip_ws_def suffix_dropWhile)

lemma gettoken_suffix: "gettoken ps = (t, q, eq, s) \<Longrightarrow> suffix s ps"
proof -
  assume g: "gettoken ps = (t, q, eq, s)"
  have *: "suffix (skip_ws x) ps" if "suffix x (skip_ws ps)" for x
    using that skip_ws_suffix suffix_order.trans by blast
  show ?thesis using g
  proof (cases "skip_ws ps")
    case (Cons c r)
    then have "suffix r (skip_ws ps)" "suffix r' (skip_ws ps)" if "suffix r' r" for r'
      using that by (simp_all add: suffix_ConsI)
    moreover have "suffix (dropWhile P (c # r)) (skip_ws ps)" for P using Cons suffix_dropWhile by metis
    moreover have "suffix (dropWhile P r) r" for P by (rule suffix_dropWhile)
    ultimately show ?thesis using g Cons
      by (auto simp: gettoken_def Let_def intro!: * suffix_ConsI split: if_splits list.splits)
  qed (auto simp: gettoken_def)
qed

lemma peek_suffix: "peek ps toks = (s, b) \<Longrightarrow> suffix s ps"
  by (auto simp: peek_def Let_def skip_ws_suffix)

lemma gettoken_word:
  assumes "gettoken ps = (CHR ''a'', q, eq, s)"
  shows "span_ok ps (q, eq)"
proof (cases "skip_ws ps")
  case Nil
  then show ?thesis using assms by (simp add: gettoken_def)
next
  case (Cons c r)
  let ?w = "dropWhile (\<lambda>c. c \<notin> set whitespace \<and> c \<notin> set symbols) (c # r)"
  let ?x = "takeWhile (\<lambda>c. c \<notin> set whitespace \<and> c \<notin> set symbols) (c # r)"
  have ws: "c \<notin> set whitespace" using Cons by (auto simp: skip_ws_def dropWhile_eq_Cons_conv)
  have g: "q = c # r" "eq = ?w" "c \<notin> set ''|();&<''" "c \<noteq> CHR ''>''"
    using assms Cons by (auto simp: gettoken_def Let_def split: if_splits list.splits)
  obtain a where a: "ps = a @ c # r" using skip_ws_suffix [of ps] Cons by (auto simp: suffix_def)
  have "c # r = ?x @ ?w" by (rule takeWhile_dropWhile_id [symmetric])
  moreover have "?x \<noteq> []" using ws g(3,4) by (simp add: symbols_def)
  moreover have "list_all word_char ?x" by (auto simp: list_all_iff word_char_def dest: set_takeWhileD)
  moreover have "?w = [] \<or> \<not> word_char (hd ?w)" using hd_dropWhile [of "\<lambda>c. c \<notin> set whitespace \<and> c \<notin> set symbols" "c # r"]
    unfolding word_char_def by blast
  ultimately show ?thesis using a g(1,2) unfolding span_ok_def by (metis fst_conv snd_conv)
qed

text \<open>What a parser reads are words of its input, and it leaves the end of it.\<close>

lemma parseredirs_words:
  "parseredirs f ps = Parsed g s \<Longrightarrow>
   suffix s ps \<and> (\<forall>c. \<forall>w\<in>set_cmd (g c). w \<in> set_cmd (f c) \<or> span_ok ps w)"
proof (induction f ps rule: parseredirs.induct)
  case (1 f ps)
  obtain s0 yes where p: "peek ps ''<>'' = (s0, yes)" by fastforce
  obtain tok q0 e0 s1 where g: "gettoken s0 = (tok, q0, e0, s1)" by (cases "gettoken s0")
  obtain a q eq s2 where h: "gettoken s1 = (a, q, eq, s2)" by (cases "gettoken s1")
  show ?case
  proof (cases yes)
    case True
    let ?f = "\<lambda>c. redir_of tok (q, eq) (f c)"
    have r: "a = CHR ''a''" "parseredirs ?f s2 = Parsed g s"
      using "1.prems" p g h True by (auto simp: parseredirs.simps [of f ps] split: if_splits)
    with True have IH: "suffix s s2 \<and> (\<forall>c. \<forall>w\<in>set_cmd (g c). w \<in> set_cmd (?f c) \<or> span_ok s2 w)"
      using "1.IH" p g h by auto
    have x: "suffix s2 ps" "suffix s1 ps"
      using peek_suffix [OF p] gettoken_suffix [OF g] gettoken_suffix [OF h] by (meson suffix_order.trans)+
    have "span_ok ps (q, eq)" using gettoken_word h r(1) x(2) span_ok_suffix by blast
    moreover have "w \<in> set_cmd (?f c) \<Longrightarrow> w \<in> set_cmd (f c) \<or> w = (q, eq)" for w c
      by (auto simp: redir_of_def split: if_splits)
    ultimately show ?thesis using IH x(1) span_ok_suffix suffix_order.trans by metis
  qed (use "1.prems" p peek_suffix in \<open>auto simp: parseredirs.simps [of f ps]\<close>)
qed

lemma parseargs_words:
  "parseargs args f ps = Parsed d s \<Longrightarrow> \<forall>c. set_cmd (f c) \<subseteq> set_cmd c \<union> A \<Longrightarrow>
   suffix s ps \<and> set_cmd d \<subseteq> set args \<union> A \<union> {w. span_ok ps w}"
proof (induction "length ps" arbitrary: args f ps A rule: less_induct)
  case less
  note prems = less.prems
  obtain s0 stop where p: "peek ps ''|)&;'' = (s0, stop)" by fastforce
  obtain tok q eq s1 where g: "gettoken s0 = (tok, q, eq, s1)" by (cases "gettoken s0")
  have x: "suffix s0 ps" "suffix s1 ps"
    using peek_suffix [OF p] gettoken_suffix [OF g] by (meson suffix_order.trans)+
  show ?case
  proof (cases "stop \<or> tok = CHR 0x00")
    case True
    then have "d = f (EXEC args)" "s = s0 \<or> s = s1"
      using prems(1) p g by (auto simp: parseargs.simps [of args f ps] split: if_splits)
    then show ?thesis using x prems(2) by fastforce
  next
    case False
    then obtain h s2 where t: "tok = CHR ''a''" and n: "\<not> length args + 1 \<ge> MAXARGS" and h: "parseredirs f s1 = Parsed h s2"
      and d: "parseargs (args @ [(q, eq)]) h s2 = Parsed d s"
      using prems(1) p g by (auto simp: parseargs.simps [of args f ps] split: if_splits pres.splits)
    let ?A = "A \<union> {w. span_ok s1 w}"
    have w: "suffix s2 s1" "\<forall>c. set_cmd (h c) \<subseteq> set_cmd c \<union> ?A"
      using parseredirs_words [OF h] prems(2) by blast+
    have "suffix s s2 \<and> set_cmd d \<subseteq> set (args @ [(q, eq)]) \<union> ?A \<union> {w. span_ok s2 w}"
      using less.hyps [OF args_shorter [OF p] d w(2)] g t h by blast
    moreover have "span_ok ps (q, eq)" using gettoken_word g t x(1) span_ok_suffix by blast
    moreover have y: "suffix s2 ps" using w(1) x(2) suffix_order.trans by blast
    moreover have "{w. span_ok s1 w} \<subseteq> {w. span_ok ps w}" "{w. span_ok s2 w} \<subseteq> {w. span_ok ps w}"
      using span_ok_suffix x(2) y by blast+
    ultimately show ?thesis by (auto dest: suffix_order.trans)
  qed
qed

lemma parseback_words:
  "\<exists>d s. parseback c ps = Parsed d s \<and> suffix s ps \<and> set_cmd d = set_cmd c"
proof (induction "length ps" arbitrary: c ps rule: less_induct)
  case less
  obtain s0 yes where p: "peek ps ''&'' = (s0, yes)" by fastforce
  obtain tok q eq s1 where g: "gettoken s0 = (tok, q, eq, s1)" by (cases "gettoken s0")
  have x: "suffix s0 ps" "suffix s1 ps"
    using peek_suffix [OF p] gettoken_suffix [OF g] by (meson suffix_order.trans)+
  show ?case
  proof (cases yes)
    case True
    then have "length s1 < length ps" using peek_token [of ps _ s0] p g by simp
    then obtain d s where "parseback (BACK c) s1 = Parsed d s" "suffix s s1" "set_cmd d = set_cmd (BACK c)"
      using less [of s1 "BACK c"] by blast
    moreover have "parseback c ps = parseback (BACK c) s1" using p g True by (simp add: parseback.simps [of c ps])
    ultimately show ?thesis using x(2) by (auto dest: suffix_order.trans)
  qed (use p x(1) in \<open>simp add: parseback.simps [of c ps]\<close>)
qed

text \<open>
  A result in order: the rest is an end of the input, every word is a word of the input, and the
  depth was enough if it is at least \<open>k\<close> above four times the length of the input.
\<close>

definition result_ok :: "nat \<Rightarrow> nat \<Rightarrow> string \<Rightarrow> span cmd pres \<Rightarrow> bool" where
  "result_ok k n ps r \<longleftrightarrow>
     (case r of Parsed c s \<Rightarrow> suffix s ps \<and> (\<forall>w\<in>set_cmd c. span_ok ps w)
      | Refused _ \<Rightarrow> True
      | Too_deep \<Rightarrow> n < 4 * length ps + k)"

lemma result_ok_Parsed: "result_ok k n ps (Parsed c s) \<longleftrightarrow> suffix s ps \<and> (\<forall>w\<in>set_cmd c. span_ok ps w)"
  by (simp add: result_ok_def)

lemma result_ok_bind:
  assumes "result_ok k n ps r"
    "\<And>c s. suffix s ps \<Longrightarrow> \<forall>w\<in>set_cmd c. span_ok ps w \<Longrightarrow> result_ok (Suc k) (Suc n) ps (f c s)"
  shows "result_ok (Suc k) (Suc n) ps (pbind r f)"
  using assms by (cases r) (auto simp: result_ok_def)

text \<open>Parsing goes on after a token.\<close>

lemma result_ok_token:
  assumes "peek s toks = (s0, True)" "gettoken s0 = (t, q, eq, s1)" "suffix s ps"
    "result_ok 4 n s1 r" "1 \<le> k"
    "\<And>c s'. suffix s' ps \<Longrightarrow> \<forall>w\<in>set_cmd c. span_ok ps w \<Longrightarrow> result_ok k (Suc n) ps (f c s')"
  shows "result_ok k (Suc n) ps (pbind r f)"
proof -
  have l: "length s1 < length s" using peek_token [OF assms(1,2)] .
  have x: "suffix s1 ps" using peek_suffix [OF assms(1)] gettoken_suffix [OF assms(2)] assms(3) by (meson suffix_order.trans)
  have "length s \<le> length ps" using assms(3) by (rule suffix_length_le)
  show ?thesis
  proof (cases r)
    case (Parsed c s')
    then have "suffix s' ps" "\<forall>w\<in>set_cmd c. span_ok ps w"
      using assms(4) x span_ok_suffix suffix_order.trans by (auto simp: result_ok_Parsed)
    then show ?thesis using assms(6) Parsed by simp
  qed (use assms(4,5) l \<open>length s \<le> length ps\<close> in \<open>auto simp: result_ok_def\<close>)
qed

lemma result_ok_le: "result_ok k n ps r \<Longrightarrow> k \<le> k' \<Longrightarrow> result_ok k' n ps r"
  by (auto simp: result_ok_def split: pres.splits)

text \<open>A separator and what may follow it.\<close>

lemma result_ok_sep:
  assumes "suffix s ps" "\<forall>w\<in>set_cmd c. span_ok ps w" "\<And>s1. result_ok 4 n s1 (p s1)" "1 \<le> k"
    "\<And>c d. set_cmd (g c d) = set_cmd c \<union> set_cmd d"
  shows "result_ok k (Suc n) ps
    (let (s0, yes) = peek s toks in
     if yes then let (_, _, _, s1) = gettoken s0 in pbind (p s1) (\<lambda>d s. Parsed (g c d) s) else Parsed c s0)"
proof -
  obtain s0 yes where p: "peek s toks = (s0, yes)" by fastforce
  obtain t q eq s1 where g: "gettoken s0 = (t, q, eq, s1)" by (cases "gettoken s0")
  have "suffix s0 ps" using peek_suffix [OF p] assms(1) by (rule suffix_order.trans)
  moreover have "result_ok k (Suc n) ps (pbind (p s1) (\<lambda>d s. Parsed (g c d) s))" if yes
    using p g that assms by (intro result_ok_token [of s toks s0 t q eq s1]) (auto simp: result_ok_Parsed)
  ultimately show ?thesis using p g assms(2) by (simp add: result_ok_Parsed)
qed

lemma parseredirs_ok:
  assumes "suffix s ps" "\<forall>w\<in>set_cmd c. span_ok ps w"
  shows "result_ok k n ps (pbind (parseredirs id s) (\<lambda>f s. Parsed (f c) s))"
proof (cases "parseredirs id s")
  case (Parsed f s1)
  then have "suffix s1 s \<and> (\<forall>w\<in>set_cmd (f c). w \<in> set_cmd c \<or> span_ok s w)"
    using parseredirs_words [of id s f s1] by simp
  then show ?thesis using Parsed assms span_ok_suffix suffix_order.trans by (auto simp: result_ok_Parsed)
qed (simp_all add: result_ok_def parseredirs_total)

lemma parseargs_ok:
  assumes "suffix s ps"
  shows "result_ok k n ps (pbind (parseredirs id s) (\<lambda>f s. parseargs [] f s))"
proof (cases "parseredirs id s")
  case (Parsed f s1)
  then have f: "suffix s1 s" "\<forall>c. set_cmd (f c) \<subseteq> set_cmd c \<union> {w. span_ok s w}"
    using parseredirs_words [of id s f s1] by auto
  show ?thesis
  proof (cases "parseargs [] f s1")
    case p: (Parsed c s2)
    have s1: "suffix s1 ps" using f(1) assms suffix_order.trans by blast
    note w = parseargs_words [OF p f(2)]
    have "suffix s2 ps" using w s1 suffix_order.trans by blast
    moreover have "\<forall>w\<in>set_cmd c. span_ok ps w" using w span_ok_suffix [OF _ s1] span_ok_suffix [OF _ assms] by auto
    ultimately show ?thesis using Parsed p by (simp add: result_ok_Parsed)
  qed (use Parsed parseargs_total in \<open>simp_all add: result_ok_def\<close>)
qed (simp_all add: result_ok_def parseredirs_total)

lemma parse_ok:
  "result_ok 4 n ps (parseline n ps) \<and> result_ok 3 n ps (parsepipe n ps) \<and>
   result_ok 2 n ps (parseexec n ps) \<and> result_ok 1 n ps (parseblock n ps)"
proof (induction n arbitrary: ps)
  case 0
  then show ?case by (simp add: result_ok_def)
next
  case (Suc n)
  note IH = Suc.IH
  have "result_ok (Suc 3) (Suc n) ps (parseline (Suc n) ps)"
    unfolding parseline.simps
  proof (rule result_ok_bind)
    show "result_ok 3 n ps (parsepipe n ps)" using IH by blast
    fix s c assume sc: "suffix s ps" "\<forall>w\<in>set_cmd c. span_ok ps w"
    obtain d s1 where d: "parseback c s = Parsed d s1" "suffix s1 s" "set_cmd d = set_cmd c"
      using parseback_words by blast
    then have "suffix s1 ps" using sc(1) suffix_order.trans by blast
    moreover have "\<forall>w\<in>set_cmd d. span_ok ps w" using sc(2) d(3) by simp
    ultimately show "result_ok (Suc 3) (Suc n) ps (pbind (parseback c s) (\<lambda>c s. let (s, yes) = peek s '';'' in
        if yes then let (_, _, _, s1) = gettoken s in pbind (parseline n s1) (\<lambda>d s. Parsed (LIST c d) s) else Parsed c s))"
      unfolding d(1) pbind.simps by (rule result_ok_sep) (use IH in auto)
  qed
  moreover have "result_ok (Suc 2) (Suc n) ps (parsepipe (Suc n) ps)"
    unfolding parsepipe.simps
  proof (rule result_ok_bind)
    show "result_ok 2 n ps (parseexec n ps)" using IH by blast
    have *: "result_ok 4 n s (parsepipe n s)" for s using IH result_ok_le [of 3 n s _ 4] by simp
    fix s c assume "suffix s ps" "\<forall>w\<in>set_cmd c. span_ok ps w"
    then show "result_ok (Suc 2) (Suc n) ps (let (s, yes) = peek s ''|'' in
        if yes then let (_, _, _, s1) = gettoken s in pbind (parsepipe n s1) (\<lambda>d s. Parsed (PIPE c d) s) else Parsed c s)"
      by (rule result_ok_sep) (use * in auto)
  qed
  moreover have "result_ok 2 (Suc n) ps (parseexec (Suc n) ps)"
  proof -
    obtain s yes where p: "peek ps ''('' = (s, yes)" by fastforce
    have s: "suffix s ps" using peek_suffix [OF p] .
    have "result_ok 1 n s (parseblock n s)" using IH by blast
    then have "result_ok 2 (Suc n) ps (parseblock n s)"
      using s suffix_length_le [OF s] span_ok_suffix suffix_order.trans by (auto simp: result_ok_def split: pres.splits)
    moreover have "result_ok 2 (Suc n) ps (pbind (parseredirs id s) (\<lambda>f s. parseargs [] f s))"
      using parseargs_ok [OF s] .
    ultimately show ?thesis using p by simp
  qed
  moreover have "result_ok 1 (Suc n) ps (parseblock (Suc n) ps)"
  proof -
    obtain s yes where p: "peek ps ''('' = (s, yes)" by fastforce
    obtain t q eq s1 where g: "gettoken s = (t, q, eq, s1)" by (cases "gettoken s")
    have "result_ok 1 (Suc n) ps (pbind (parseline n s1) (\<lambda>c s2. let (s2, yes) = peek s2 '')'' in
        if \<not> yes then Refused ''syntax - missing )''
        else let (_, _, _, s3) = gettoken s2 in pbind (parseredirs id s3) (\<lambda>f s. Parsed (f c) s)))" if yes
    proof (rule result_ok_token [of ps "''(''" s])
      show "peek ps ''('' = (s, True)" "gettoken s = (t, q, eq, s1)" using p g that by simp_all
      show "result_ok 4 n s1 (parseline n s1)" using IH by blast
      fix s2 c assume s2: "suffix s2 ps" "\<forall>w\<in>set_cmd c. span_ok ps w"
      obtain s0 yes where p: "peek s2 '')'' = (s0, yes)" by fastforce
      obtain t q eq s3 where g: "gettoken s0 = (t, q, eq, s3)" by (cases "gettoken s0")
      have "suffix s3 ps" using peek_suffix [OF p] gettoken_suffix [OF g] s2(1) by (meson suffix_order.trans)
      from parseredirs_ok [OF this s2(2)] show "result_ok 1 (Suc n) ps (let (s2, yes) = peek s2 '')'' in
        if \<not> yes then Refused ''syntax - missing )''
        else let (_, _, _, s3) = gettoken s2 in pbind (parseredirs id s3) (\<lambda>f s. Parsed (f c) s))"
        using p g by (simp add: result_ok_def)
    qed simp_all
    then show ?thesis using p g by (simp add: result_ok_def)
  qed
  ultimately show ?case by simp
qed

section \<open>The strings in the buffer\<close>

definition word_text :: "span \<Rightarrow> string" where
  "word_text w = take (length (fst w) - length (snd w)) (fst w)"

text \<open>The buffer after NULs are put at some places.\<close>

definition nuls_at :: "nat set \<Rightarrow> string \<Rightarrow> string \<Rightarrow> bool" where
  "nuls_at P old new \<longleftrightarrow> length new = length old \<and>
     (\<forall>i<length old. new ! i = (if i \<in> P then CHR 0x00 else old ! i))"

definition end_of :: "nat \<Rightarrow> span \<Rightarrow> nat" where
  "end_of n w = n - 1 - length (snd w)"

lemma nuls_at_trans: "nuls_at P a b \<Longrightarrow> nuls_at Q b c \<Longrightarrow> nuls_at (P \<union> Q) a c"
  by (auto simp: nuls_at_def)

lemma nuls_at_put: "buf \<noteq> [] \<Longrightarrow> nuls_at {end_of (length buf) w} buf (put_nul w buf)"
  by (auto simp: nuls_at_def put_nul_def end_of_def nth_list_update)

lemma nuls_at_length: "nuls_at P a b \<Longrightarrow> length b = length a"
  by (simp add: nuls_at_def)

lemma nulterminate_nuls:
  "buf \<noteq> [] \<Longrightarrow> nuls_at (end_of (length buf) ` set_cmd c) buf (nulterminate c buf)"
proof (induction c arbitrary: buf)
  case (EXEC ws)
  have "buf \<noteq> [] \<Longrightarrow> nuls_at (end_of (length buf) ` set ws) buf (fold put_nul ws buf)" for buf
  proof (induction ws arbitrary: buf)
    case (Cons w ws)
    then have "put_nul w buf \<noteq> []" "length (put_nul w buf) = length buf" by (auto simp: put_nul_def)
    then show ?case
      using nuls_at_trans [OF nuls_at_put [OF Cons.prems, of w] Cons.IH] by simp
  qed (simp add: nuls_at_def)
  then show ?case using EXEC by simp
next
  case (REDIR c w m fd)
  note a = REDIR.IH [OF REDIR.prems]
  then have "nulterminate c buf \<noteq> []" using REDIR.prems nuls_at_length [OF a] by auto
  from nuls_at_trans [OF a nuls_at_put [OF this, of w]] nuls_at_length [OF a] show ?case by simp
next
  case (PIPE l r)
  note a = PIPE.IH(1) [OF PIPE.prems]
  then have "nulterminate l buf \<noteq> []" using PIPE.prems nuls_at_length [OF a] by auto
  from nuls_at_trans [OF a PIPE.IH(2) [OF this]] nuls_at_length [OF a] show ?case by (simp add: image_Un)
next
  case (LIST l r)
  note a = LIST.IH(1) [OF LIST.prems]
  then have "nulterminate l buf \<noteq> []" using LIST.prems nuls_at_length [OF a] by auto
  from nuls_at_trans [OF a LIST.IH(2) [OF this]] nuls_at_length [OF a] show ?case by (simp add: image_Un)
qed simp

lemma nuls_at_word:
  assumes "nuls_at P (line @ [CHR 0x00]) buf" "span_ok line w" "end_of (length buf) w \<in> P"
    "CHR 0x00 \<notin> set line" "\<forall>i\<in>P. i < length line \<longrightarrow> \<not> word_char (line ! i)"
  shows "cstring_at buf w = word_text w"
proof -
  obtain a x where x: "line = a @ x @ snd w" "fst w = x @ snd w" "list_all word_char x"
    using assms(2) by (auto simp: span_ok_def)
  have len: "length buf = Suc (length line)" using assms(1) by (simp add: nuls_at_def)
  have st: "length buf - 1 - length (fst w) = length a" "end_of (length buf) w = length a + length x"
    using len x by (simp_all add: end_of_def)
  have i: "buf ! (length a + i) = x ! i" "x ! i \<noteq> CHR 0x00" if "i < length x" for i
  proof -
    have "line ! (length a + i) = x ! i" using x(1) that by (simp add: nth_append)
    moreover have "word_char (x ! i)" using x(3) that by (simp add: list_all_length)
    ultimately have "length a + i \<notin> P" using assms(5) x(1) that by auto
    then show "buf ! (length a + i) = x ! i"
      using assms(1) x(1) that \<open>line ! (length a + i) = x ! i\<close> by (simp add: nuls_at_def nth_append)
    show "x ! i \<noteq> CHR 0x00" using assms(4) x(1) that nth_mem by fastforce
  qed
  have e: "buf ! (length a + length x) = CHR 0x00"
    using assms(1,3) st(2) x(1) by (simp add: nuls_at_def)
  have "takeWhile (\<lambda>c. c \<noteq> CHR 0x00) (drop (length a) buf) = x"
  proof -
    have "drop (length a) buf = x @ CHR 0x00 # drop (Suc (length a + length x)) buf"
    proof (rule nth_equalityI)
      show "length (drop (length a) buf) = length (x @ CHR 0x00 # drop (Suc (length a + length x)) buf)"
        using len x(1) by simp
      fix k assume "k < length (drop (length a) buf)"
      then show "drop (length a) buf ! k = (x @ CHR 0x00 # drop (Suc (length a + length x)) buf) ! k"
        using i(1) e len x(1) by (cases "k < length x") (auto simp: nth_append nth_Cons' )
    qed
    moreover have "\<forall>c\<in>set x. c \<noteq> CHR 0x00" using i(2) by (auto simp: in_set_conv_nth)
    ultimately show ?thesis by (simp add: takeWhile_append2)
  qed
  then show ?thesis using st(1) x(2) by (simp add: cstring_at_def word_text_def)
qed

lemma parsed_view:
  assumes "parseline n line = Parsed c s" "CHR 0x00 \<notin> set line"
  shows "map_cmd (cstring_at (nulterminate c (line @ [CHR 0x00]))) c = map_cmd word_text c"
proof (rule cmd.map_cong0)
  fix w assume w: "w \<in> set_cmd c"
  let ?b = "line @ [CHR 0x00]"
  have ok: "\<forall>w\<in>set_cmd c. span_ok line w"
    using parse_ok [of n line] assms(1) by (simp add: result_ok_Parsed)
  have nuls: "nuls_at (end_of (length ?b) ` set_cmd c) ?b (nulterminate c ?b)"
    by (rule nulterminate_nuls) simp
  have len: "length (nulterminate c ?b) = length ?b" using nuls by (rule nuls_at_length)
  have "\<not> word_char (line ! i)" if "i \<in> end_of (length ?b) ` set_cmd c" "i < length line" for i
  proof -
    obtain v where v: "span_ok line v" "i = length line - length (snd v)"
      using \<open>i \<in> _\<close> ok by (auto simp: end_of_def)
    then obtain a where a: "line = a @ snd v" "snd v = [] \<or> \<not> word_char (hd (snd v))"
      by (auto simp: span_ok_def)
    then have "snd v \<noteq> []" "line ! i = hd (snd v)" using v(2) \<open>i < length line\<close>
      by (auto simp: nth_append hd_conv_nth)
    then show ?thesis using a(2) by simp
  qed
  then show "cstring_at (nulterminate c ?b) w = word_text w"
    using nuls_at_word [OF nuls, of w] ok w assms(2) len by auto
qed

text \<open>More depth does not change a result.\<close>

definition deeper :: "'a pres \<Rightarrow> 'a pres \<Rightarrow> bool" where
  "deeper r r' \<longleftrightarrow> r = Too_deep \<or> r' = r"

lemma deeper_refl [simp]: "deeper r r"
  by (simp add: deeper_def)

lemma deeper_bind: "deeper r r' \<Longrightarrow> (\<And>a s. deeper (f a s) (f' a s)) \<Longrightarrow> deeper (pbind r f) (pbind r' f')"
  by (cases r) (auto simp: deeper_def)

lemmas parse_simps = parseline.simps parsepipe.simps parseexec.simps parseblock.simps

lemma parse_deeper:
  "deeper (parseline n ps) (parseline (Suc n) ps) \<and> deeper (parsepipe n ps) (parsepipe (Suc n) ps) \<and>
   deeper (parseexec n ps) (parseexec (Suc n) ps) \<and> deeper (parseblock n ps) (parseblock (Suc n) ps)"
proof (induction n arbitrary: ps)
  case 0
  then show ?case by (simp add: deeper_def)
next
  case (Suc n)
  have IH: "deeper (parseline n ps) (parseline (Suc n) ps)" "deeper (parsepipe n ps) (parsepipe (Suc n) ps)"
    "deeper (parseexec n ps) (parseexec (Suc n) ps)" "deeper (parseblock n ps) (parseblock (Suc n) ps)" for ps
    using Suc.IH by blast+
  have "deeper (parseline (Suc n) ps) (parseline (Suc (Suc n)) ps)"
    unfolding parseline.simps(2) [of n ps] parseline.simps(2) [of "Suc n" ps] Let_def
    by (auto intro!: deeper_bind IH simp del: parse_simps split: prod.split)
  moreover have "deeper (parsepipe (Suc n) ps) (parsepipe (Suc (Suc n)) ps)"
    unfolding parsepipe.simps(2) [of n ps] parsepipe.simps(2) [of "Suc n" ps] Let_def
    by (auto intro!: deeper_bind IH simp del: parse_simps split: prod.split)
  moreover have "deeper (parseexec (Suc n) ps) (parseexec (Suc (Suc n)) ps)"
    unfolding parseexec.simps(2) [of n ps] parseexec.simps(2) [of "Suc n" ps] Let_def
    by (auto intro!: deeper_bind IH simp del: parse_simps split: prod.split)
  moreover have "deeper (parseblock (Suc n) ps) (parseblock (Suc (Suc n)) ps)"
    unfolding parseblock.simps(2) [of n ps] parseblock.simps(2) [of "Suc n" ps] Let_def
    by (auto intro!: deeper_bind IH simp del: parse_simps split: prod.split)
  ultimately show ?case by blast
qed

lemma parseline_depth:
  assumes "parseline n ps \<noteq> Too_deep" "n \<le> m"
  shows "parseline m ps = parseline n ps"
  using assms(2)
proof (induction rule: dec_induct)
  case (step m)
  then show ?case using parse_deeper [of m ps] assms(1) by (simp add: deeper_def del: parseline.simps)
qed simp

text \<open>
  C16.
  Parsing ends on every line, with a command or with one of the shell's messages: the depth of the
  recursion is bounded by the length of the line, and any larger bound gives the same result.
\<close>

theorem parsecmd_terminates:
  "parsecmd s \<noteq> Too_deep \<and> parseline (depth_for s + n) s = parseline (depth_for s) s"
proof
  have d: "parseline (depth_for s) s \<noteq> Too_deep"
    using parse_ok [of "depth_for s" s] unfolding result_ok_def depth_for_def by force
  then show "parsecmd s \<noteq> Too_deep"
    unfolding parsecmd_def Let_def pbind_cases by (auto split: prod.splits)
  show "parseline (depth_for s + n) s = parseline (depth_for s) s"
    using parseline_depth [OF d, of "depth_for s + n"] by simp
qed

end
