(* ===== verification/ShellText.thy ===== *)
theory ShellText
  imports Shell
begin

text \<open>
  Writing commands and reading them back. \<open>show_cmd\<close> prints any tree of commands as a list of tokens, with
  parentheses where the grammar of \<open>sh.c\<close> needs them; the parser of theory \<open>Shell\<close> returns the tree.
\<close>

section \<open>Tokens\<close>

datatype tok = Word string | Sym char

primrec tok_text :: "tok \<Rightarrow> string" where
  "tok_text (Word w) = w"
| "tok_text (Sym c) = [c]"

primrec tok_kind :: "tok \<Rightarrow> char" where
  "tok_kind (Word w) = CHR ''a''"
| "tok_kind (Sym c) = c"

definition word_ok :: "string \<Rightarrow> bool" where
  "word_ok w \<longleftrightarrow> w \<noteq> [] \<and> list_all (\<lambda>c. word_char c \<and> c \<noteq> CHR 0x00) w"

primrec tok_ok :: "tok \<Rightarrow> bool" where
  "tok_ok (Word w) = word_ok w"
| "tok_ok (Sym c) = (c \<in> set symbols)"

definition render :: "tok list \<Rightarrow> string" where
  "render ts = concat (map (\<lambda>t. tok_text t @ '' '') ts)"

lemma render_simps [simp]:
  "render [] = []" "render (t # ts) = tok_text t @ CHR '' '' # render ts" "render (xs @ ys) = render xs @ render ys"
  by (simp_all add: render_def)

lemma tok_head:
  assumes "tok_ok t"
  obtains c cs where "tok_text t = c # cs" "c \<notin> set whitespace" "c \<in> set symbols \<longleftrightarrow> t = Sym c"
proof (cases t)
  case (Word w)
  then show ?thesis using assms that by (cases w) (auto simp: word_ok_def word_char_def)
next
  case (Sym c)
  then have "c \<in> set symbols" using assms by simp
  then have "c \<notin> set whitespace" by (auto simp: symbols_def whitespace_def)
  then show ?thesis using Sym \<open>c \<in> set symbols\<close> that by auto
qed

lemma skip_ws_render [simp]: "list_all tok_ok ts \<Longrightarrow> skip_ws (render ts) = render ts"
proof (cases ts)
  case (Cons t ts')
  assume "list_all tok_ok ts"
  then have "tok_ok t" using Cons by simp
  then obtain c cs where "tok_text t = c # cs" "c \<notin> set whitespace" by (rule tok_head)
  then show ?thesis using Cons by (simp add: skip_ws_def)
qed (simp add: skip_ws_def)

text \<open>Does the next token begin with one of these characters?\<close>

definition starts :: "tok list \<Rightarrow> string \<Rightarrow> bool" where
  "starts ts cs \<longleftrightarrow> (case ts of Sym c # _ \<Rightarrow> c \<in> set cs | _ \<Rightarrow> False)"

lemma starts_simps [simp]:
  "starts [] cs = False" "starts (Sym c # ts) cs = (c \<in> set cs)" "starts (Word w # ts) cs = False"
  by (simp_all add: starts_def)

lemma peek_render:
  assumes "list_all tok_ok ts" "set cs \<subseteq> set symbols"
  shows "peek (render ts) cs = (render ts, starts ts cs)"
proof (cases ts)
  case (Cons t ts')
  then have "tok_ok t" using assms(1) by simp
  then obtain c ds where "tok_text t = c # ds" "c \<in> set symbols \<longleftrightarrow> t = Sym c" by (rule tok_head)
  moreover have "peek (render ts) cs = (render ts, render ts \<noteq> [] \<and> hd (render ts) \<in> set cs)"
    by (simp only: peek_def Let_def skip_ws_render [OF assms(1)])
  ultimately show ?thesis using Cons assms(2) by (cases t) auto
qed (simp add: peek_def skip_ws_def)

lemma gettoken_render:
  assumes "tok_ok t" "list_all tok_ok ts"
  shows "gettoken (render (t # ts)) = (tok_kind t, render (t # ts), CHR '' '' # render ts, render ts)"
proof (cases t)
  case (Sym c)
  then have "c \<in> set ''<|>&;()''" using assms(1) by (simp add: symbols_def)
  moreover have "skip_ws (c # CHR '' '' # render ts) = c # CHR '' '' # render ts" "skip_ws (CHR '' '' # render ts) = render ts"
    using skip_ws_render [of "t # ts"] skip_ws_render [of ts] assms Sym by (simp_all add: skip_ws_def whitespace_def)
  ultimately show ?thesis using Sym by (auto simp: gettoken_def)
next
  case (Word w)
  obtain c cs where c: "w = c # cs" "c \<notin> set whitespace" "c \<notin> set symbols"
    using tok_head [OF assms(1)] Word by auto
  let ?P = "\<lambda>c. c \<notin> set whitespace \<and> c \<notin> set symbols"
  have "\<forall>x\<in>set w. ?P x" using assms(1) Word by (auto simp: word_ok_def list_all_iff word_char_def)
  then have "dropWhile ?P (w @ CHR '' '' # render ts) = CHR '' '' # render ts"
    by (simp add: dropWhile_append2 whitespace_def)
  moreover have "skip_ws (w @ CHR '' '' # render ts) = w @ CHR '' '' # render ts" "skip_ws (CHR '' '' # render ts) = render ts"
    using skip_ws_render [of "t # ts"] skip_ws_render [of ts] assms Word by (simp_all add: skip_ws_def whitespace_def)
  moreover have "c \<notin> set ''|();&<''" "c \<noteq> CHR ''>''" using c(3) by (auto simp: symbols_def)
  ultimately show ?thesis using Word c(1) by (simp add: gettoken_def Let_def)
qed

lemma gettoken_Nil: "gettoken [] = (CHR 0x00, [], [], [])"
  by (simp add: gettoken_def skip_ws_def)

lemma word_text_render: "word_text (render (Word w # ts), CHR '' '' # render ts) = w"
  by (simp add: word_text_def)

section \<open>Printing\<close>

definition redir_toks :: "string \<times> nat \<times> nat \<Rightarrow> tok list" where
  "redir_toks = (\<lambda>(w, m, fd). [Sym (if fd = 0 then CHR ''<'' else CHR ''>''), Word w])"

definition paren :: "bool \<Rightarrow> tok list \<Rightarrow> tok list" where
  "paren b ts = (if b then Sym CHR ''('' # ts @ [Sym CHR '')''] else ts)"

text \<open>The level says what the parser expects: 0 for \<open>parseexec\<close>, 1 for \<open>parsepipe\<close>, 2 and 3 for \<open>parseline\<close>.\<close>

primrec show_cmd :: "string cmd \<Rightarrow> nat \<Rightarrow> tok list" where
  "show_cmd (EXEC ws) k = map Word ws"
| "show_cmd (REDIR c w m fd) k = show_cmd c 0 @ redir_toks (w, m, fd)"
| "show_cmd (PIPE l r) k = paren (k < 1) (show_cmd l 0 @ Sym CHR ''|'' # show_cmd r 1)"
| "show_cmd (BACK c) k = paren (k < 2) (show_cmd c 2 @ [Sym CHR ''&''])"
| "show_cmd (LIST l r) k = paren (k < 3) (show_cmd l 2 @ Sym CHR '';'' # show_cmd r 3)"

definition redir_ok :: "string \<times> nat \<times> nat \<Rightarrow> bool" where
  "redir_ok = (\<lambda>(w, m, fd). word_ok w \<and> (m = mode_read \<and> fd = 0 \<or> m = mode_write \<and> fd = 1))"

primrec cmd_ok :: "string cmd \<Rightarrow> bool" where
  "cmd_ok (EXEC ws) = (list_all word_ok ws \<and> length ws < MAXARGS)"
| "cmd_ok (REDIR c w m fd) = (cmd_ok c \<and> redir_ok (w, m, fd))"
| "cmd_ok (PIPE l r) = (cmd_ok l \<and> cmd_ok r)"
| "cmd_ok (LIST l r) = (cmd_ok l \<and> cmd_ok r)"
| "cmd_ok (BACK c) = cmd_ok c"

lemma show_cmd_ok: "cmd_ok c \<Longrightarrow> list_all tok_ok (show_cmd c k)"
  by (induction c arbitrary: k) (auto simp: paren_def redir_toks_def redir_ok_def symbols_def list_all_iff)

section \<open>Redirections and arguments\<close>

definition wraps :: "(string \<times> nat \<times> nat) list \<Rightarrow> string cmd \<Rightarrow> string cmd" where
  "wraps = fold (\<lambda>(w, m, fd) c. REDIR c w m fd)"

abbreviation redirs :: "(string \<times> nat \<times> nat) list \<Rightarrow> tok list" where
  "redirs rs \<equiv> concat (map redir_toks rs)"

lemma redirs_ok: "list_all redir_ok rs \<Longrightarrow> list_all tok_ok (redirs rs)"
  by (induction rs) (auto simp: redir_ok_def redir_toks_def symbols_def)

lemma parseredirs_render:
  assumes "list_all redir_ok rs" "list_all tok_ok ts" "\<not> starts ts ''<>''"
  shows "\<exists>g. parseredirs f (render (redirs rs @ ts)) = Parsed g (render ts) \<and>
    (\<forall>c. map_cmd word_text (g c) = wraps rs (map_cmd word_text (f c)))"
  using assms(1)
proof (induction rs arbitrary: f)
  case Nil
  have "peek (render ts) ''<>'' = (render ts, False)"
    using peek_render [OF assms(2)] assms(3) by (simp add: symbols_def)
  then show ?case by (simp add: parseredirs.simps [of _ "render ts"] wraps_def)
next
  case (Cons r rs)
  obtain w m fd where r: "r = (w, m, fd)" by (cases r)
  let ?ts = "redirs rs @ ts" and ?k = "if fd = 0 then CHR ''<'' else CHR ''>''"
  let ?g = "\<lambda>c. redir_of ?k (render (Word w # ?ts), CHR '' '' # render ?ts) (f c)"
  have ok: "tok_ok (Word w)" "list_all tok_ok ?ts" "tok_ok (Sym ?k)" "redir_ok r"
    using Cons.prems assms(2) redirs_ok r by (auto simp: redir_ok_def symbols_def)
  have "render (redirs (r # rs) @ ts) = render (Sym ?k # Word w # ?ts)" using r by (simp add: redir_toks_def)
  moreover have "peek (render (Sym ?k # Word w # ?ts)) ''<>'' = (render (Sym ?k # Word w # ?ts), True)"
    using peek_render [of "Sym ?k # Word w # ?ts" "''<>''"] ok by (simp add: symbols_def)
  ultimately have "parseredirs f (render (redirs (r # rs) @ ts)) = parseredirs ?g (render ?ts)"
    using gettoken_render [OF ok(3), of "Word w # ?ts"] gettoken_render [OF ok(1,2)] ok(1,2)
    by (simp add: parseredirs.simps [of f] del: render_simps)
  moreover obtain g where g: "parseredirs ?g (render ?ts) = Parsed g (render ts)"
    "\<forall>c. map_cmd word_text (g c) = wraps rs (map_cmd word_text (?g c))"
    using Cons.IH [of ?g] Cons.prems by auto
  moreover have "map_cmd word_text (?g c) = REDIR (map_cmd word_text (f c)) w m fd" for c
    using ok(4) r word_text_render [of w ?ts] by (auto simp: redir_of_def redir_ok_def simp del: render_simps)
  ultimately show ?case using r by (simp add: wraps_def)
qed

text \<open>What may follow a command of each level.\<close>

definition follows :: "string \<Rightarrow> tok list \<Rightarrow> bool" where
  "follows cs ts \<longleftrightarrow> list_all tok_ok ts \<and> (ts = [] \<or> starts ts cs)"

lemma follows_starts:
  "follows cs ts \<Longrightarrow> set cs \<inter> set ds = {} \<Longrightarrow> \<not> starts ts ds"
  by (auto simp: follows_def starts_def split: list.splits tok.splits)

lemma follows_mono: "follows cs ts \<Longrightarrow> set cs \<subseteq> set ds \<Longrightarrow> follows ds ts"
  by (auto simp: follows_def starts_def split: list.splits tok.splits)

lemma parseargs_stop:
  assumes "follows ''|)&;'' ts"
  shows "parseargs args f (render ts) = Parsed (f (EXEC args)) (render ts)"
proof (cases "ts = []")
  case True
  then show ?thesis
    by (simp add: parseargs.simps [of _ _ "[]"] peek_def Let_def skip_ws_def gettoken_Nil)
next
  case False
  then have "peek (render ts) ''|)&;'' = (render ts, True)"
    using assms peek_render [of ts "''|)&;''"] by (simp add: follows_def symbols_def)
  then show ?thesis by (simp add: parseargs.simps [of _ _ "render ts"])
qed

lemma parseargs_render:
  assumes "list_all word_ok ws" "ws \<noteq> []" "length args + length ws < MAXARGS"
    "list_all redir_ok rs" "follows ''|)&;'' ts" "\<forall>c. map_cmd word_text (f c) = map_cmd word_text c"
  shows "\<exists>d. parseargs args f (render (map Word ws @ redirs rs @ ts)) = Parsed d (render ts) \<and>
    map_cmd word_text d = wraps rs (EXEC (map word_text args @ ws))"
  using assms(1,2,3,6)
proof (induction ws arbitrary: args f)
  case (Cons w ws)
  let ?ts = "map Word ws @ redirs rs @ ts"
  let ?w = "(render (Word w # ?ts), CHR '' '' # render ?ts)"
  have ts: "list_all tok_ok ts" "\<not> starts ts ''<>''"
    using assms(5) follows_starts [OF assms(5), of "''<>''"] by (auto simp: follows_def)
  have ok: "tok_ok (Word w)" "list_all tok_ok ?ts"
    using Cons.prems(1) assms(4) redirs_ok ts(1) by (auto simp: list_all_iff)
  have n: "length args + 1 < MAXARGS" using Cons.prems(3) by simp
  have "peek (render (Word w # ?ts)) ''|)&;'' = (render (Word w # ?ts), False)"
    using peek_render [of "Word w # ?ts" "''|)&;''"] ok by (simp add: symbols_def)
  moreover note gettoken_render [OF ok]
  ultimately have step: "parseargs args f (render (Word w # ?ts)) =
      (case parseredirs f (render ?ts) of Parsed g s2 \<Rightarrow> parseargs (args @ [?w]) g s2
       | Refused e \<Rightarrow> Refused e | Too_deep \<Rightarrow> Too_deep)"
    using n by (simp add: parseargs.simps [of args f "render (Word w # ?ts)"] del: render_simps)
  have w: "word_text ?w = w" by (rule word_text_render)
  show ?case
  proof (cases "ws = []")
    case True
    obtain g where g: "parseredirs f (render (redirs rs @ ts)) = Parsed g (render ts)"
      "\<forall>c. map_cmd word_text (g c) = wraps rs (map_cmd word_text (f c))"
      using parseredirs_render [OF assms(4) ts] by blast
    then have "parseargs args f (render (Word w # ?ts)) = Parsed (g (EXEC (args @ [?w]))) (render ts)"
      unfolding step using True parseargs_stop [OF assms(5), of "args @ [?w]" g] by simp
    moreover have "map_cmd word_text (g (EXEC (args @ [?w]))) = wraps rs (EXEC (map word_text args @ [w]))"
      using g(2) Cons.prems(4) w by simp
    ultimately show ?thesis using True by simp
  next
    case False
    obtain v vs where ws: "ws = v # vs" using False by (cases ws) auto
    then have "\<not> starts ?ts ''<>''" by simp
    then obtain g where g: "parseredirs f (render ?ts) = Parsed g (render ?ts)"
      "\<forall>c. map_cmd word_text (g c) = map_cmd word_text (f c)"
      using parseredirs_render [of "[]" ?ts f] ok(2) by (auto simp: wraps_def)
    have "\<exists>d. parseargs (args @ [?w]) g (render ?ts) = Parsed d (render ts) \<and>
        map_cmd word_text d = wraps rs (EXEC (map word_text (args @ [?w]) @ ws))"
      using Cons.prems False g(2) by (intro Cons.IH) auto
    then show ?thesis unfolding list.map append_Cons step using g(1) w by (simp del: render_simps)
  qed
qed simp

text \<open>\<open>parseexec\<close> on a simple command.\<close>

lemma parseexec_render:
  assumes "list_all word_ok ws" "length ws < MAXARGS" "list_all redir_ok rs" "follows ''|)&;'' ts"
  shows "\<exists>d. parseexec (Suc n) (render (map Word ws @ redirs rs @ ts)) = Parsed d (render ts) \<and>
    map_cmd word_text d = wraps rs (EXEC ws)"
proof -
  let ?ts = "map Word ws @ redirs rs @ ts"
  have ts: "list_all tok_ok ts" "\<not> starts ts ''<>''" "\<not> starts ts ''(''"
    using assms(4) follows_starts [OF assms(4), of "''<>''"] follows_starts [OF assms(4), of "''(''"]
    by (auto simp: follows_def)
  have ok: "list_all tok_ok ?ts" using assms(1,3) redirs_ok ts(1) by (auto simp: list_all_iff)
  have "\<not> starts ?ts ''(''" using ts(3)
    by (cases ws; cases rs) (auto simp: redir_toks_def split: prod.splits if_splits)
  then have "peek (render ?ts) ''('' = (render ?ts, False)"
    using peek_render [OF ok, of "''(''"] by (simp add: symbols_def)
  then have step: "parseexec (Suc n) (render ?ts) = pbind (parseredirs id (render ?ts)) (\<lambda>f s. parseargs [] f s)"
    by (simp del: render_simps)
  show ?thesis
  proof (cases "ws = []")
    case True
    obtain g where "parseredirs id (render (redirs rs @ ts)) = Parsed g (render ts)"
      "\<forall>c. map_cmd word_text (g c) = wraps rs (map_cmd word_text (id c))"
      using parseredirs_render [OF assms(3) ts(1,2)] by blast
    then show ?thesis unfolding step using True parseargs_stop [OF assms(4)] by simp
  next
    case False
    then have "\<not> starts ?ts ''<>''" by (cases ws) auto
    then obtain g where g: "parseredirs id (render ?ts) = Parsed g (render ?ts)"
      "\<forall>c. map_cmd word_text (g c) = map_cmd word_text c"
      using parseredirs_render [of "[]" ?ts id] ok by (auto simp: wraps_def)
    show ?thesis unfolding step g(1) pbind.simps
      using parseargs_render [OF assms(1) False _ assms(3,4) g(2), of "[]"] assms(2) by simp
  qed
qed

section \<open>The levels\<close>

text \<open>The command is read back at each level, with something after it, when there is enough depth.\<close>

definition reads :: "nat \<Rightarrow> nat \<Rightarrow> string \<Rightarrow> (nat \<Rightarrow> string \<Rightarrow> span cmd pres) \<Rightarrow> string cmd \<Rightarrow> bool" where
  "reads k b cs p c \<longleftrightarrow>
     (\<forall>ts n. follows cs ts \<longrightarrow> 4 * length (render (show_cmd c k @ ts)) + b \<le> n \<longrightarrow>
        (\<exists>d. p n (render (show_cmd c k @ ts)) = Parsed d (render ts) \<and> map_cmd word_text d = c))"

abbreviation reads_exec :: "string cmd \<Rightarrow> bool" where "reads_exec \<equiv> reads 0 2 ''|)&;'' parseexec"
abbreviation reads_pipe :: "string cmd \<Rightarrow> bool" where "reads_pipe \<equiv> reads 1 3 '')&;'' parsepipe"
abbreviation reads_line :: "string cmd \<Rightarrow> bool" where "reads_line \<equiv> reads 3 4 '')'' parseline"

definition reads_back :: "string cmd \<Rightarrow> bool" where
  "reads_back c \<longleftrightarrow>
     (\<forall>ts n. follows '')&;'' ts \<longrightarrow> 4 * length (render (show_cmd c 2 @ ts)) + 3 \<le> n \<longrightarrow>
        (\<exists>d. pbind (parsepipe n (render (show_cmd c 2 @ ts))) parseback = parseback d (render ts) \<and>
             map_cmd word_text d = c))"

lemma readsD:
  assumes "reads k b cs p c" "follows cs ts" "4 * length (render (show_cmd c k @ ts)) + b \<le> n"
  obtains d where "p n (render (show_cmd c k @ ts)) = Parsed d (render ts)" "map_cmd word_text d = c"
  using assms unfolding reads_def by blast

lemma reads_exec_simple:
  assumes "list_all word_ok ws" "length ws < MAXARGS" "list_all redir_ok rs"
    "show_cmd c 0 = map Word ws @ redirs rs" "c = wraps rs (EXEC ws)"
  shows "reads_exec c"
  unfolding reads_def
proof (intro allI impI)
  fix ts n assume "follows ''|)&;'' ts" and n: "4 * length (render (show_cmd c 0 @ ts)) + 2 \<le> n"
  moreover obtain m where "n = Suc m" using n by (cases n) auto
  ultimately show "\<exists>d. parseexec n (render (show_cmd c 0 @ ts)) = Parsed d (render ts) \<and> map_cmd word_text d = c"
    using parseexec_render [OF assms(1,2,3), of ts m] assms(4,5) by (simp del: render_simps)
qed

lemma peek_follows:
  assumes "follows cs ts" "set cs \<inter> set ds = {}" "set ds \<subseteq> set symbols"
  shows "peek (render ts) ds = (render ts, False)"
  using peek_render [of ts ds] follows_starts [OF assms(1,2)] assms by (simp add: follows_def)

lemma peek_sym:
  assumes "list_all tok_ok ts" "c \<in> set symbols"
  shows "peek (render (Sym c # ts)) [c] = (render (Sym c # ts), True)"
  using peek_render [of "Sym c # ts" "[c]"] assms by simp

lemma reads_pipe_single:
  assumes "reads_exec c" "show_cmd c 1 = show_cmd c 0"
  shows "reads_pipe c"
  unfolding reads_def
proof (intro allI impI)
  fix ts n assume ts: "follows '')&;'' ts" and n: "4 * length (render (show_cmd c 1 @ ts)) + 3 \<le> n"
  obtain m where m: "n = Suc m" using n by (cases n) auto
  have "follows ''|)&;'' ts" using ts by (rule follows_mono) auto
  then obtain d where "parseexec m (render (show_cmd c 0 @ ts)) = Parsed d (render ts)" "map_cmd word_text d = c"
    by (rule readsD [OF assms(1)]) (use n m assms(2) in simp)
  moreover have "peek (render ts) ''|'' = (render ts, False)" using ts by (rule peek_follows) (auto simp: symbols_def)
  ultimately show "\<exists>d. parsepipe n (render (show_cmd c 1 @ ts)) = Parsed d (render ts) \<and> map_cmd word_text d = c"
    using m assms(2) by (simp del: render_simps)
qed

lemma reads_pipe_pipe:
  assumes "reads_exec l" "reads_pipe r" "cmd_ok r"
  shows "reads_pipe (PIPE l r)"
  unfolding reads_def
proof (intro allI impI)
  fix ts n assume ts: "follows '')&;'' ts" and n: "4 * length (render (show_cmd (PIPE l r) 1 @ ts)) + 3 \<le> n"
  let ?r = "show_cmd r 1 @ ts"
  obtain m where m: "n = Suc m" using n by (cases n) auto
  have ok: "list_all tok_ok ?r" using ts show_cmd_ok [OF assms(3)] by (simp add: follows_def)
  have e: "show_cmd (PIPE l r) 1 @ ts = show_cmd l 0 @ Sym CHR ''|'' # ?r" by (simp add: paren_def)
  have "follows ''|)&;'' (Sym CHR ''|'' # ?r)" using ok by (simp add: follows_def symbols_def)
  then obtain d where d: "parseexec m (render (show_cmd l 0 @ Sym CHR ''|'' # ?r)) = Parsed d (render (Sym CHR ''|'' # ?r))"
    "map_cmd word_text d = l" by (rule readsD [OF assms(1)]) (use n m e in simp)
  have n': "4 * length (render ?r) + 3 \<le> m" using n unfolding m e by (simp; linarith)
  obtain d' where d': "parsepipe m (render ?r) = Parsed d' (render ts)" "map_cmd word_text d' = r"
    using readsD [OF assms(2) ts n'] by blast
  have "peek (render (Sym CHR ''|'' # ?r)) ''|'' = (render (Sym CHR ''|'' # ?r), True)"
    using ok by (rule peek_sym) (simp add: symbols_def)
  moreover have "gettoken (render (Sym CHR ''|'' # ?r)) = (CHR ''|'', render (Sym CHR ''|'' # ?r), CHR '' '' # render ?r, render ?r)"
    using gettoken_render [of "Sym CHR ''|''" ?r] ok by (simp add: symbols_def del: render_simps)
  ultimately show "\<exists>d. parsepipe n (render (show_cmd (PIPE l r) 1 @ ts)) = Parsed d (render ts) \<and> map_cmd word_text d = PIPE l r"
    unfolding e m using d d' by (simp del: render_simps)
qed

lemma reads_back_single:
  assumes "reads_pipe c" "show_cmd c 2 = show_cmd c 1"
  shows "reads_back c"
  unfolding reads_back_def
proof (intro allI impI)
  fix ts n assume ts: "follows '')&;'' ts" and n: "4 * length (render (show_cmd c 2 @ ts)) + 3 \<le> n"
  obtain d where "parsepipe n (render (show_cmd c 1 @ ts)) = Parsed d (render ts)" "map_cmd word_text d = c"
    using ts by (rule readsD [OF assms(1)]) (use n assms(2) in simp)
  then show "\<exists>d. pbind (parsepipe n (render (show_cmd c 2 @ ts))) parseback = parseback d (render ts) \<and> map_cmd word_text d = c"
    unfolding assms(2) by (intro exI [of _ d]) (simp del: render_simps)
qed

lemma reads_back_back:
  assumes "reads_back c"
  shows "reads_back (BACK c)"
  unfolding reads_back_def
proof (intro allI impI)
  fix ts n assume ts: "follows '')&;'' ts" and n: "4 * length (render (show_cmd (BACK c) 2 @ ts)) + 3 \<le> n"
  let ?t = "Sym CHR ''&'' # ts"
  have ok: "list_all tok_ok ts" using ts by (simp add: follows_def)
  have e: "show_cmd (BACK c) 2 @ ts = show_cmd c 2 @ ?t" by (simp add: paren_def)
  have "follows '')&;'' ?t" using ok by (simp add: follows_def symbols_def)
  then obtain d where d: "pbind (parsepipe n (render (show_cmd c 2 @ ?t))) parseback = parseback d (render ?t)" "map_cmd word_text d = c"
    using assms n unfolding reads_back_def e by blast
  have "peek (render ?t) ''&'' = (render ?t, True)" using ok by (rule peek_sym) (simp add: symbols_def)
  moreover have "gettoken (render ?t) = (CHR ''&'', render ?t, CHR '' '' # render ts, render ts)"
    using gettoken_render [of "Sym CHR ''&''" ts] ok by (simp add: symbols_def del: render_simps)
  ultimately have "parseback d (render ?t) = parseback (BACK d) (render ts)"
    by (simp add: parseback.simps [of d "render ?t"] del: render_simps)
  then show "\<exists>d. pbind (parsepipe n (render (show_cmd (BACK c) 2 @ ts))) parseback = parseback d (render ts) \<and> map_cmd word_text d = BACK c"
    unfolding e using d by (intro exI [of _ "BACK d"]) (simp del: render_simps)
qed

lemma parseback_stop:
  assumes "follows cs ts" "CHR ''&'' \<notin> set cs"
  shows "parseback d (render ts) = Parsed d (render ts)"
proof -
  have "peek (render ts) ''&'' = (render ts, False)" using assms by (intro peek_follows) (auto simp: symbols_def)
  then show ?thesis by (simp add: parseback.simps [of d])
qed

text \<open>\<open>parseline\<close>, with its loop over \<open>&\<close> seen as a part of the first command.\<close>

lemma parseline_Suc:
  "parseline (Suc n) ps =
     pbind (pbind (parsepipe n ps) parseback) (\<lambda>c s.
     let (s, yes) = peek s '';'' in
     if yes then
       let (_, _, _, s1) = gettoken s in pbind (parseline n s1) (\<lambda>d s. Parsed (LIST c d) s)
     else Parsed c s)"
  by (cases "parsepipe n ps") simp_all

lemma reads_backD:
  assumes "reads_back c" "follows '')&;'' ts" "CHR ''&'' \<notin> set cs" "follows cs ts"
    "4 * length (render (show_cmd c 2 @ ts)) + 3 \<le> n"
  obtains d where "pbind (parsepipe n (render (show_cmd c 2 @ ts))) parseback = Parsed d (render ts)" "map_cmd word_text d = c"
  using assms(1,2,5) parseback_stop [OF assms(4,3)] unfolding reads_back_def by metis

lemma reads_line_single:
  assumes "reads_back c" "show_cmd c 3 = show_cmd c 2"
  shows "reads_line c"
  unfolding reads_def
proof (intro allI impI)
  fix ts n assume ts: "follows '')'' ts" and n: "4 * length (render (show_cmd c 3 @ ts)) + 4 \<le> n"
  obtain m where m: "n = Suc m" using n by (cases n) auto
  have n': "4 * length (render (show_cmd c 2 @ ts)) + 3 \<le> m" using n unfolding m assms(2) by linarith
  have "follows '')&;'' ts" using ts by (rule follows_mono) auto
  then obtain d where "pbind (parsepipe m (render (show_cmd c 2 @ ts))) parseback = Parsed d (render ts)" "map_cmd word_text d = c"
    by (rule reads_backD [OF assms(1) _ _ ts n']) simp_all
  moreover have "peek (render ts) '';'' = (render ts, False)" using ts by (rule peek_follows) (auto simp: symbols_def)
  ultimately show "\<exists>d. parseline n (render (show_cmd c 3 @ ts)) = Parsed d (render ts) \<and> map_cmd word_text d = c"
    unfolding m parseline_Suc assms(2) by (simp del: render_simps)
qed

lemma reads_line_list:
  assumes "reads_back l" "reads_line r" "cmd_ok r"
  shows "reads_line (LIST l r)"
  unfolding reads_def
proof (intro allI impI)
  fix ts n assume ts: "follows '')'' ts" and n: "4 * length (render (show_cmd (LIST l r) 3 @ ts)) + 4 \<le> n"
  let ?r = "show_cmd r 3 @ ts" and ?t = "Sym CHR '';'' # show_cmd r 3 @ ts"
  obtain m where m: "n = Suc m" using n by (cases n) auto
  have ok: "list_all tok_ok ?r" using ts show_cmd_ok [OF assms(3)] by (simp add: follows_def)
  have e: "show_cmd (LIST l r) 3 @ ts = show_cmd l 2 @ ?t" by (simp add: paren_def)
  have t: "follows '')&;'' ?t" "follows '';'' ?t" using ok by (simp_all add: follows_def symbols_def)
  obtain d where d: "pbind (parsepipe m (render (show_cmd l 2 @ ?t))) parseback = Parsed d (render ?t)" "map_cmd word_text d = l"
    by (rule reads_backD [OF assms(1) t(1) _ t(2)]) (use n m e in simp_all)
  have n': "4 * length (render ?r) + 4 \<le> m" using n unfolding m e by (simp; linarith)
  obtain d' where d': "parseline m (render ?r) = Parsed d' (render ts)" "map_cmd word_text d' = r"
    using readsD [OF assms(2) ts n'] by blast
  have "peek (render ?t) '';'' = (render ?t, True)" using ok by (rule peek_sym) (simp add: symbols_def)
  moreover have "gettoken (render ?t) = (CHR '';'', render ?t, CHR '' '' # render ?r, render ?r)"
    using gettoken_render [of "Sym CHR '';''" ?r] ok by (simp add: symbols_def del: render_simps)
  ultimately show "\<exists>d. parseline n (render (show_cmd (LIST l r) 3 @ ts)) = Parsed d (render ts) \<and> map_cmd word_text d = LIST l r"
    unfolding e m parseline_Suc using d d' by (simp del: render_simps)
qed

text \<open>A block in parentheses, with redirections after it.\<close>

lemma reads_exec_block:
  assumes "reads_line c" "cmd_ok c" "list_all redir_ok rs"
    "show_cmd c' 0 = Sym CHR ''('' # show_cmd c 3 @ Sym CHR '')'' # redirs rs" "c' = wraps rs c"
  shows "reads_exec c'"
  unfolding reads_def
proof (intro allI impI)
  fix ts n assume ts: "follows ''|)&;'' ts" and n: "4 * length (render (show_cmd c' 0 @ ts)) + 2 \<le> n"
  let ?r = "redirs rs @ ts"
  let ?c = "Sym CHR '')'' # ?r"
  let ?b = "show_cmd c 3 @ ?c"
  obtain m where m: "n = Suc (Suc m)" using n by (cases n; cases "n - 1") auto
  have r: "list_all tok_ok ts" "\<not> starts ts ''<>''" "list_all tok_ok ?r"
    using ts follows_starts [OF ts, of "''<>''"] redirs_ok [OF assms(3)] by (auto simp: follows_def)
  have b: "list_all tok_ok ?b" using r(3) show_cmd_ok [OF assms(2)] by (simp add: symbols_def)
  have e: "show_cmd c' 0 @ ts = Sym CHR ''('' # ?b" using assms(4) by simp
  have "follows '')'' ?c" using r(3) by (simp add: follows_def symbols_def)
  moreover have "4 * length (render ?b) + 4 \<le> m" using n unfolding m e by (simp; linarith)
  ultimately obtain d where d: "parseline m (render ?b) = Parsed d (render ?c)" "map_cmd word_text d = c"
    using readsD [OF assms(1)] by blast
  obtain g where g: "parseredirs id (render ?r) = Parsed g (render ts)"
    "\<forall>x. map_cmd word_text (g x) = wraps rs (map_cmd word_text (id x))"
    using parseredirs_render [OF assms(3) r(1,2)] by blast
  have "peek (render (Sym CHR ''('' # ?b)) ''('' = (render (Sym CHR ''('' # ?b), True)"
    "peek (render ?c) '')'' = (render ?c, True)"
    using b r(3) by (intro peek_sym; simp add: symbols_def)+
  moreover have "gettoken (render (Sym CHR ''('' # ?b)) = (CHR ''('', render (Sym CHR ''('' # ?b), CHR '' '' # render ?b, render ?b)"
    "gettoken (render ?c) = (CHR '')'', render ?c, CHR '' '' # render ?r, render ?r)"
    using gettoken_render [of "Sym CHR ''(''" ?b] gettoken_render [of "Sym CHR '')''" ?r] b r(3)
    by (simp_all add: symbols_def del: render_simps)
  ultimately show "\<exists>d. parseexec n (render (show_cmd c' 0 @ ts)) = Parsed d (render ts) \<and> map_cmd word_text d = c'"
    unfolding e m using d g assms(5) by (simp del: render_simps)
qed

definition reads_all :: "string cmd \<Rightarrow> bool" where
  "reads_all c \<longleftrightarrow> reads_exec c \<and> reads_pipe c \<and> reads_back c \<and> reads_line c"

lemma reads_all_exec: "reads_exec c \<Longrightarrow> \<forall>k. show_cmd c k = show_cmd c 0 \<Longrightarrow> reads_all c"
  unfolding reads_all_def using reads_pipe_single reads_back_single reads_line_single by metis

lemma wraps_Cons: "wraps (r # rs) c = wraps rs (case r of (w, m, fd) \<Rightarrow> REDIR c w m fd)"
  by (cases r) (simp add: wraps_def)

lemma show_wraps: "show_cmd (wraps rs c) k = (if rs = [] then show_cmd c k else show_cmd c 0 @ redirs rs)"
proof (induction rs arbitrary: c)
  case (Cons r rs)
  then show ?case by (cases r) (simp add: wraps_Cons)
qed (simp add: wraps_def)

lemma show_block: "show_cmd c 0 = paren True (show_cmd c 3) \<Longrightarrow> cmd_ok c \<Longrightarrow> reads_line c \<Longrightarrow> list_all redir_ok rs \<Longrightarrow>
  reads_exec (wraps rs c)"
  by (rule reads_exec_block [of c rs]) (simp_all add: show_wraps paren_def)

lemma reads_all_wraps:
  assumes "\<And>rs. list_all redir_ok rs \<Longrightarrow> reads_exec (wraps rs c)" "reads_pipe c" "reads_back c" "reads_line c"
    "list_all redir_ok rs"
  shows "reads_all (wraps rs c)"
proof (cases "rs = []")
  case True
  then show ?thesis using assms(1) [of "[]"] assms(2,3,4) by (simp add: reads_all_def wraps_def)
next
  case False
  show ?thesis by (rule reads_all_exec [OF assms(1) [OF assms(5)]]) (simp add: show_wraps False)
qed

text \<open>Every command, under any redirections.\<close>

lemma reads_cmd: "cmd_ok c \<Longrightarrow> list_all redir_ok rs \<Longrightarrow> reads_all (wraps rs c)"
proof (induction c arbitrary: rs)
  case (EXEC ws)
  have e: "reads_exec (wraps rs (EXEC ws))" if "list_all redir_ok rs" for rs
    by (rule reads_exec_simple [of ws rs]) (use EXEC that in \<open>simp_all add: show_wraps\<close>)
  have "reads_all (EXEC ws)" using e [of "[]"] by (intro reads_all_exec) (simp_all add: wraps_def)
  then show ?case using reads_all_wraps [OF e _ _ _ EXEC.prems(2)] by (simp add: reads_all_def)
next
  case (REDIR c w m fd)
  then have "reads_all (wraps ((w, m, fd) # rs) c)" by simp
  then show ?case by (simp add: wraps_Cons)
next
  case (PIPE l r)
  have "reads_all l" "reads_all r" using PIPE.IH [of "[]"] PIPE.prems by (simp_all add: wraps_def)
  then have p: "reads_pipe (PIPE l r)" using reads_pipe_pipe PIPE.prems by (simp add: reads_all_def)
  then have b: "reads_back (PIPE l r)" by (rule reads_back_single) (simp add: paren_def)
  then have x: "reads_line (PIPE l r)" by (rule reads_line_single) (simp add: paren_def)
  have "reads_exec (wraps rs (PIPE l r))" if "list_all redir_ok rs" for rs
    by (rule show_block) (use PIPE.prems x that in \<open>simp_all add: paren_def\<close>)
  then show ?case using p b x PIPE.prems(2) by (rule reads_all_wraps)
next
  case (LIST l r)
  have "reads_all l" "reads_all r" using LIST.IH [of "[]"] LIST.prems by (simp_all add: wraps_def)
  then have x: "reads_line (LIST l r)" using reads_line_list LIST.prems by (simp add: reads_all_def)
  have e: "reads_exec (wraps rs (LIST l r))" if "list_all redir_ok rs" for rs
    by (rule show_block) (use LIST.prems x that in \<open>simp_all add: paren_def\<close>)
  have "reads_pipe (LIST l r)" by (rule reads_pipe_single) (use e [of "[]"] in \<open>simp_all add: paren_def wraps_def\<close>)
  moreover from this have "reads_back (LIST l r)" by (rule reads_back_single) (simp add: paren_def)
  ultimately show ?case using e x LIST.prems(2) by (intro reads_all_wraps)
next
  case (BACK c)
  have "reads_all c" using BACK.IH [of "[]"] BACK.prems by (simp add: wraps_def)
  then have b: "reads_back (BACK c)" using reads_back_back by (simp add: reads_all_def)
  then have x: "reads_line (BACK c)" by (rule reads_line_single) (simp add: paren_def)
  have e: "reads_exec (wraps rs (BACK c))" if "list_all redir_ok rs" for rs
    by (rule show_block) (use BACK.prems x that in \<open>simp_all add: paren_def\<close>)
  have "reads_pipe (BACK c)" by (rule reads_pipe_single) (use e [of "[]"] in \<open>simp_all add: paren_def wraps_def\<close>)
  then show ?case using e b x BACK.prems(2) by (intro reads_all_wraps)
qed

text \<open>
  C8.
  What is written is what runs: every tree of commands with legal words, fewer than \<open>MAXARGS\<close> of them in each
  simple command, has a line that parses to exactly this tree, and after \<open>nulterminate\<close> has cut the line into
  strings, the strings that \<open>runcmd\<close> finds at the pointers are the words and file names of the tree.
\<close>

theorem shell_roundtrip:
  assumes "cmd_ok c"
  shows "\<exists>d buf. parsecmd (render (show_cmd c 3)) = Parsed (d, buf) [] \<and> map_cmd (cstring_at buf) d = c"
proof -
  let ?s = "render (show_cmd c 3)"
  have "reads_line c" using reads_cmd [OF assms, of "[]"] by (simp add: reads_all_def wraps_def)
  then obtain d where d: "parseline (depth_for ?s) ?s = Parsed d []" "map_cmd word_text d = c"
    unfolding reads_def depth_for_def by (force simp: follows_def)
  have "\<forall>t\<in>set ts. tok_ok t \<Longrightarrow> CHR 0x00 \<notin> set (render ts)" for ts
  proof (induction ts)
    case (Cons t ts)
    then show ?case by (cases t) (auto simp: word_ok_def list_all_iff symbols_def)
  qed simp
  then have "CHR 0x00 \<notin> set ?s" using show_cmd_ok [OF assms] by (simp add: list_all_iff)
  then show ?thesis using parsed_view [OF d(1)] d by (simp add: parsecmd_def peek_def skip_ws_def)
qed

theorem shell_roundtrip_witness:
  "\<exists>d buf. parsecmd (render (show_cmd (PIPE (EXEC [''cat'', ''a'']) (REDIR (EXEC [''wc'']) ''n'' mode_write 1)) 3)) = Parsed (d, buf) [] \<and>
     map_cmd (cstring_at buf) d = PIPE (EXEC [''cat'', ''a'']) (REDIR (EXEC [''wc'']) ''n'' mode_write 1)"
  by (rule shell_roundtrip) (simp add: word_ok_def word_char_def redir_ok_def symbols_def whitespace_def MAXARGS_def)

end
