(* ===== verification/ShellRun.thy ===== *)
theory ShellRun
  imports Shell "HOL-Library.Word"
begin

text \<open>
  Running commands: \<open>runcmd\<close>, the builtins and the loop of \<open>main\<close> in \<open>sh.c\<close>. A process is seen by its
  table of descriptors; \<open>open\<close>, \<open>dup\<close> and \<open>pipe\<close> take the lowest free ones, as \<open>fdalloc\<close> does. Which files
  can be opened is an argument. Forks succeed; a failing \<open>fork1\<close> prints a message and exits.
\<close>

section \<open>Descriptors\<close>

datatype fobj = Console | Opened string nat | Pread nat | Pwrite nat

type_synonym fds = "nat \<Rightarrow> fobj option"

definition sh_nofile :: nat where "sh_nofile = 16"

definition lowest :: "fds \<Rightarrow> nat option" where
  "lowest t = List.find (\<lambda>n. t n = None) [0..<sh_nofile]"

definition fd_close :: "nat \<Rightarrow> fds \<Rightarrow> fds" where
  "fd_close n t = t(n := None)"

definition fd_alloc :: "fobj \<Rightarrow> fds \<Rightarrow> (nat \<times> fds) option" where
  "fd_alloc f t = map_option (\<lambda>n. (n, t(n := Some f))) (lowest t)"

definition fd_dup :: "nat \<Rightarrow> fds \<Rightarrow> fds" where
  "fd_dup n t = (case t n of None \<Rightarrow> t | Some f \<Rightarrow> (case fd_alloc f t of None \<Rightarrow> t | Some (_, t') \<Rightarrow> t'))"

text \<open>\<open>pipe\<close> fails, and leaves no descriptor behind, when there are not two free ones.\<close>

definition fd_pipe :: "nat \<Rightarrow> fds \<Rightarrow> (nat \<times> nat \<times> fds) option" where
  "fd_pipe i t =
     (case fd_alloc (Pread i) t of None \<Rightarrow> None
      | Some (p0, t) \<Rightarrow> map_option (\<lambda>(p1, t). (p0, p1, t)) (fd_alloc (Pwrite i) t))"

section \<open>Commands\<close>

text \<open>What is seen of a run: programs started with their descriptors, and messages.\<close>

datatype event = Run "string list" fds | Say string

primrec runcmd :: "(string \<Rightarrow> nat \<Rightarrow> bool) \<Rightarrow> string cmd \<Rightarrow> fds \<Rightarrow> nat \<Rightarrow> event list \<times> nat" where
  "runcmd opens (EXEC argv) t i = (if argv = [] then ([], i) else ([Run argv t], i))"
| "runcmd opens (REDIR c f mode fd) t i =
     (let t1 = fd_close fd t in
      case (if opens f mode then fd_alloc (Opened f mode) t1 else None) of
        None \<Rightarrow> ([Say (''open '' @ f @ '' failed'')], i)
      | Some (_, t2) \<Rightarrow> runcmd opens c t2 i)"
| "runcmd opens (LIST l r) t i =
     (let (es, i) = runcmd opens l t i; (fs, i) = runcmd opens r t i in (es @ fs, i))"
| "runcmd opens (PIPE l r) t i =
     (case fd_pipe i t of None \<Rightarrow> ([Say ''pipe''], i)
      | Some (p0, p1, t) \<Rightarrow>
          let (es, j) = runcmd opens l (fd_close p1 (fd_close p0 (fd_dup p1 (fd_close 1 t)))) (Suc i);
              (fs, k) = runcmd opens r (fd_close p1 (fd_close p0 (fd_dup p0 (fd_close 0 t)))) j
          in (es @ fs, k))"
| "runcmd opens (BACK c) t i = runcmd opens c t i"

section \<open>Builtins and the main loop\<close>

text \<open>\<open>strncmp\<close> of \<open>sh.c\<close> on strings; a string ends with an implicit NUL.\<close>

fun sh_strncmp :: "string \<Rightarrow> string \<Rightarrow> nat \<Rightarrow> int" where
  "sh_strncmp p q 0 = 0"
| "sh_strncmp [] [] (Suc n) = 0"
| "sh_strncmp [] (d # q) (Suc n) = - int (of_char d)"
| "sh_strncmp (c # p) [] (Suc n) = int (of_char c)"
| "sh_strncmp (c # p) (d # q) (Suc n) = (if c = d then sh_strncmp p q n else int (of_char c) - int (of_char d))"

definition chomp :: "string \<Rightarrow> string" where
  "chomp = dropWhile (\<lambda>c. c = CHR '' '')"

definition makeint :: "string \<Rightarrow> 32 word" where
  "makeint p =
     fold (\<lambda>c val. 10 * val + (of_char c - 0x30))
       (takeWhile (\<lambda>c. 0x30 \<le> (of_char c :: nat) \<and> (of_char c :: nat) \<le> 0x39) p) 0"

datatype action =
    Setuid "32 word" | Setgid "32 word" | Getuid | Getgid | Complain string
  | Chdir string | Child string

definition setbuiltin :: "string \<Rightarrow> action" where
  "setbuiltin p =
     (let p = chomp (drop 4 p) in
      if sh_strncmp ''uid'' p 3 = 0 then Setuid (makeint (chomp (drop 3 p)))
      else if sh_strncmp ''gid'' p 3 = 0 then Setgid (makeint (chomp (drop 3 p)))
      else Complain ''Invalid _set parameter'')"

definition getbuiltin :: "string \<Rightarrow> action" where
  "getbuiltin p =
     (let p = chomp (drop 4 p) in
      if sh_strncmp ''uid'' p 3 = 0 then Getuid
      else if sh_strncmp ''gid'' p 3 = 0 then Getgid
      else Complain ''Invalid _get parameter'')"

definition fdt :: "(string \<times> (string \<Rightarrow> action)) list" where
  "fdt = [(''_set'', setbuiltin), (''_get'', getbuiltin)]"

definition dobuiltin :: "string \<Rightarrow> action list" where
  "dobuiltin cmd = map (\<lambda>(_, f). f cmd) (filter (\<lambda>(n, _). sh_strncmp cmd n (length n) = 0) fdt)"

text \<open>One line of \<open>main\<close>'s loop: \<open>cd\<close> and the builtins run in the shell itself, the rest in a child.\<close>

definition shell_line :: "string \<Rightarrow> action list" where
  "shell_line buf =
     (if take 3 buf = ''cd '' then [Chdir (drop 3 (butlast buf))]
      else if take 1 buf = ''_'' then dobuiltin buf
      else [Child buf])"

section \<open>Pipelines\<close>

fun pipeline :: "string list list \<Rightarrow> string cmd" where
  "pipeline [] = EXEC []"
| "pipeline [a] = EXEC a"
| "pipeline (a # as) = PIPE (EXEC a) (pipeline as)"

text \<open>A process with exactly its standard descriptors.\<close>

definition std_fds :: "fds \<Rightarrow> bool" where
  "std_fds t \<longleftrightarrow> (\<forall>n. t n \<noteq> None \<longleftrightarrow> n < 3)"

lemma lowest_std:
  assumes "std_fds t"
  shows "lowest t = Some 3" "lowest (t(3 := Some f)) = Some 4"
    "lowest (t(3 := Some f, 4 := Some g, 1 := None)) = Some 1" "lowest (t(3 := Some f, 4 := Some g, 0 := None)) = Some 0"
proof -
  have T: "t n \<noteq> None \<longleftrightarrow> n < 3" for n using assms by (simp add: std_fds_def)
  have "t 0 \<noteq> None" "t 1 \<noteq> None" "t 2 \<noteq> None" "t 3 = None" "t 4 = None" "t (Suc 0) \<noteq> None"
    using T [of 0] T [of 1] T [of 2] T [of 3] T [of 4] by simp_all
  moreover have "[0..<sh_nofile] = 0 # 1 # 2 # 3 # 4 # [5..<16]"
    by (simp add: sh_nofile_def upt_rec)
  ultimately show "lowest t = Some 3" "lowest (t(3 := Some f)) = Some 4"
    "lowest (t(3 := Some f, 4 := Some g, 1 := None)) = Some 1" "lowest (t(3 := Some f, 4 := Some g, 0 := None)) = Some 0"
    by (simp_all add: lowest_def)
qed

lemma fd_pipe_std:
  assumes "std_fds t"
  shows "fd_pipe i t = Some (3, 4, t(3 := Some (Pread i), 4 := Some (Pwrite i)))"
    "fd_close 4 (fd_close 3 (fd_dup 4 (fd_close 1 (t(3 := Some (Pread i), 4 := Some (Pwrite i)))))) = t(1 := Some (Pwrite i))"
    "fd_close 4 (fd_close 3 (fd_dup 3 (fd_close 0 (t(3 := Some (Pread i), 4 := Some (Pwrite i)))))) = t(0 := Some (Pread i))"
proof -
  have T: "t n \<noteq> None \<longleftrightarrow> n < 3" for n using assms by (simp add: std_fds_def)
  have n: "t 3 = None" "t 4 = None" using T [of 3] T [of 4] by simp_all
  show "fd_pipe i t = Some (3, 4, t(3 := Some (Pread i), 4 := Some (Pwrite i)))"
    by (simp add: fd_pipe_def fd_alloc_def lowest_std [OF assms])
  show "fd_close 4 (fd_close 3 (fd_dup 4 (fd_close 1 (t(3 := Some (Pread i), 4 := Some (Pwrite i)))))) = t(1 := Some (Pwrite i))"
    using n lowest_std(3) [OF assms] by (auto simp: fd_close_def fd_dup_def fd_alloc_def fun_upd_def)
  show "fd_close 4 (fd_close 3 (fd_dup 3 (fd_close 0 (t(3 := Some (Pread i), 4 := Some (Pwrite i)))))) = t(0 := Some (Pread i))"
    using n lowest_std(4) [OF assms] by (auto simp: fd_close_def fd_dup_def fd_alloc_def fun_upd_def)
qed

definition stage_fds :: "fds \<Rightarrow> nat \<Rightarrow> nat \<Rightarrow> nat \<Rightarrow> fds" where
  "stage_fds t i n k =
     t(0 := if k = 0 then t 0 else Some (Pread (i + k - 1)), 1 := if Suc k = n then t 1 else Some (Pwrite (i + k)))"


definition wit_fds :: fds where
  "wit_fds n = (if n < 3 then Some Console else None)"


end
