(* ===== verification/Spec2Isabelle.thy ===== *)
theory Spec2Isabelle
  imports CString Spinlock ConsoleOut Kalloc Vm Proc Ptable Ide Trap StateLists Directory IdeQueue Paths Sysargs
    Grep ShellText ShellRun
begin

text \<open>
  A verification development of xv6-pdx (\<open>src/xv6-pdx\<close>), a small Unix-like kernel for the x86, with its
  shell and its \<open>grep\<close>. The kernel is modelled as it is built with \<open>CS333_P1\<close> and \<open>CS333_P2\<close>; the state lists
  of \<open>CS333_P3P4\<close> are modelled on their own.

  \<^bold>\<open>How the code is rendered.\<close> A kernel operation is a function from a state to an outcome (theory
  \<open>Prelude\<close>): it returns a value and a state, panics, gives up the CPU in \<open>sched\<close> (\<open>Block\<close>), or spins for ever
  (\<open>Hang\<close>). An operation that sleeps is cut there, and what follows the return from \<open>sleep\<close> is a definition
  of its own, named \<open>..._resume\<close>. The state is a chain of record extensions, one per layer: \<open>kcpu\<close>
  (locks held, one CPU's view), \<open>kcons\<close>, \<open>kmst\<close> (byte memory and free list), \<open>vmst\<close>, \<open>pst\<close> (process table), \<open>bst\<close>
  (disk and buffers), \<open>lst\<close> (log), \<open>ist\<close> (inodes), \<open>cst\<close> (console input), \<open>kst\<close> (keyboard), \<open>pipest\<close>, \<open>flst\<close> (open files),
  \<open>xst\<close> and \<open>tst\<close> (clock). An operation of one layer runs on every extension of it. Integers keep
  their width (\<open>uint\<close> is \<open>32 word\<close>) and wrap around as in C; where C gives a program no meaning the model
  panics with \<open>undefined behaviour\<close>, so that a theorem that an operation returns excludes it.

  \<^bold>\<open>Theories and sources.\<close>
  \<^item> \<open>Prelude\<close>: the monad and its rules, frame conditions, little-endian words in byte lists, and the locale
    \<open>machine_invariant\<close> of state machines with an invariant.
  \<^item> \<open>CString\<close>: \<open>string.c\<close> on a byte memory. \<open>memset\<close> and \<open>memmove\<close> write exactly their range, also when
    ranges overlap; \<open>safestrcpy\<close> always terminates the string.
  \<^item> \<open>Spinlock\<close>: \<open>spinlock.c\<close> on any number of CPUs, step by step: mutual exclusion, interrupts off in
    critical sections, and the refinement to the view of one CPU that the other theories use.
  \<^item> \<open>ConsoleOut\<close>, \<open>ConsoleIn\<close>, \<open>Kbd\<close>, \<open>Ring\<close>: \<open>console.c\<close>, \<open>uart.c\<close>, \<open>kbd.c\<close>. What \<open>cprintf\<close> prints; the line
    editor that the interrupt handler implements, on a ring buffer with wrapping indices (locale
    \<open>ring_size\<close>, interpreted for the console and for pipes); the shift state of the keyboard.
  \<^item> \<open>Kalloc\<close>, \<open>Vm\<close>: \<open>kalloc.c\<close> with its free list threaded through the pages (locale
    \<open>page_allocator\<close>), and \<open>vm.c\<close> with page tables as words of the byte memory: \<open>mappages\<close> maps exactly its range.
  \<^item> \<open>Proc\<close>, \<open>Ptable\<close>, \<open>Proclife\<close>, \<open>StateLists\<close>: \<open>proc.c\<close> and \<open>exec.c\<close>. The process table as a state machine with
    its invariant over all reachable states, no lost wakeups, what \<open>exit\<close> hands over; the lists of
    processes as queues (locale \<open>process_list\<close>). \<open>fork\<close>, \<open>exit\<close>, \<open>exec\<close> on top of the file system are
    definitions.
  \<^item> \<open>Bio\<close>, \<open>Ide\<close>, \<open>IdeQueue\<close>: \<open>bio.c\<close>, \<open>memide.c\<close>, \<open>ide.c\<close>. The buffer cache provides a store of blocks (locale
    \<open>block_store\<close>, on whose interpretation the log and the files rest); the interrupt-driven
    driver, under every interleaving of requests and interrupts, refines the memory disk.
  \<^item> \<open>Log\<close>: \<open>log.c\<close>. A commit is all or nothing across a crash after any of its disk writes.
  \<^item> \<open>Inode\<close>, \<open>Fs\<close>, \<open>FileData\<close>, \<open>Directory\<close>, \<open>Paths\<close>: \<open>fs.c\<close>. Files are arrays of bytes for \<open>readi\<close> and \<open>writei\<close>,
    directories lists of names for \<open>dirlookup\<close> and \<open>dirlink\<close>, and \<open>namex\<close> walks the elements of a path.
  \<^item> \<open>Pipe\<close>, \<open>File\<close>: \<open>pipe.c\<close>, \<open>file.c\<close>. A pipe is a bounded queue of bytes under every sequence of reads and writes.
  \<^item> \<open>Sysfile\<close>, \<open>Sysargs\<close>, \<open>Trap\<close>: \<open>syscall.c\<close>, \<open>sysfile.c\<close>, \<open>sysproc.c\<close>, \<open>trap.c\<close> and the clock of \<open>lapic.c\<close>. Arguments of
    system calls are confined to the memory of the caller, except for buffers of a negative size.
  \<^item> \<open>Grep\<close>: \<open>grep.c\<close>. The matcher decides the language of its pattern; which lines are printed.
  \<^item> \<open>Shell\<close>, \<open>ShellText\<close>, \<open>ShellRun\<close>: \<open>sh.c\<close>. The parser ends on every line and inverts the printing of
    commands; the programs of a pipeline get their ends of the pipes and no others.

  \<^bold>\<open>Bounds.\<close> Loops that the source bounds are recursions on that bound. The others have fuel: the page
  loops of \<open>Vm\<close> and \<open>Kalloc\<close> (\<open>0x100000\<close> or one more) have as many turns as the address space has pages;
  the loops over a string in \<open>exec\<close> as many as it has bytes; \<open>readi\<close> and \<open>writei\<close> one turn per byte, and each turn
  moves at least one; a queue of the disk driver has at most \<open>NBUF\<close> links and a process list \<open>SL_NPROC\<close>;
  \<open>depth_for\<close> grows with the line that the shell parses, and \<open>parsecmd_terminates\<close> shows that it
  is enough. The polls of the disk and of the clock have a bound in the state (\<open>hpoll\<close>, \<open>rtc_poll\<close>); the
  theorems on the disk assume that the drive becomes ready within it.

  \<^bold>\<open>Hypotheses.\<close> The theorems on files and directories speak of one transaction: no buffer is held, the log has
  room, and the blocks written are allocated already; allocation (\<open>balloc\<close>, \<open>ialloc\<close>) is modelled but not
  the subject of a theorem. The drive of \<open>ide.c\<close> responds and shows no error. Those on system call arguments
  assume that the memory of the process is mapped up to its size.

  \<^bold>\<open>Not modelled.\<close> Assembly and boot code, \<open>main.c\<close>, the programming of interrupt controllers, timer, serial
  port and descriptor tables (\<open>lapic.c\<close>, \<open>ioapic.c\<close>, \<open>picirq.c\<close>, \<open>timer.c\<close>, \<open>mp.c\<close>, \<open>uartinit\<close>, \<open>seginit\<close>, \<open>tvinit\<close>): they act on
  hardware registers that nothing else in the model reads. The interrupt of the disk does nothing in
  \<open>trap\<close>, which is that of the kernel with the memory disk; the handler of \<open>ide.c\<close> is in \<open>Ide\<close>. \<open>mkfs.c\<close> runs on
  the host. The user library and the small user programs are sequences of system calls; of the shell, the
  reading of the line and the allocation of the nodes of the tree are left out. \<open>usertests.c\<close> and the other test
  programs test the system and are not part of it.
\<close>

end
